(* ===== verification/Prelude.thy ===== *)
theory Prelude
  imports Main "HOL-Library.Word"
begin

text \<open>
  Shared vocabulary of the development: the machine integer types of
  \<^verbatim>\<open>include/mikos/base.hpp\<close>, the named collections of rewrite rules the component
  theories fill, and the generic facts on lists, options and words that the component
  proofs share.

  Fixed-capacity C++ arrays are lists whose length is the capacity; a \<open>for\<close> loop that
  returns the first slot with some property is \<open>first_index\<close>; an assignment through
  a pointer to a slot is \<open>upd_nth\<close>.
\<close>

unbundle bit_operations_syntax

type_synonym u8 = "8 word"
type_synonym u16 = "16 word"
type_synonym u32 = "32 word"
type_synonym u64 = "64 word"

named_theorems word_nat_simps \<open>word (in)equalities and arithmetic as statements on unat\<close>
named_theorems slot_simps \<open>rewrite rules for reading and writing slots of fixed tables\<close>

section \<open>Words as natural numbers\<close>

lemma unat_less_exp: "unat (w :: 'a :: len word) < 2 ^ LENGTH('a)"
  by (rule unsigned_less)

lemma unat_u32_less [simp, intro]: "unat (w :: u32) < 4294967296"
  using unat_less_exp [of w] by simp

lemma unat_u16_less [simp, intro]: "unat (w :: u16) < 65536"
  using unat_less_exp [of w] by simp

lemma unat_u8_less [simp, intro]: "unat (w :: u8) < 256"
  using unat_less_exp [of w] by simp

lemma le_unat_u32: "n \<le> unat (w :: u32) \<Longrightarrow> n < 2 ^ 32"
  by (simp add: le_less_trans [OF _ unat_u32_less])

lemma unat_add_fits:
  fixes a b :: "'a :: len word"
  shows "unat a + unat b < 2 ^ LENGTH('a) \<Longrightarrow> unat (a + b) = unat a + unat b"
  using unat_add_lem [of a b] by blast

lemma unat_add_u32:
  "unat (a :: u32) + unat b < 4294967296 \<Longrightarrow> unat (a + b) = unat a + unat b"
  using unat_add_fits [of a b] by simp

lemma unat_inc: "(a :: 'a :: len word) + 1 \<noteq> 0 \<Longrightarrow> unat (a + 1) = Suc (unat a)"
  using unatSuc [of a] by (simp add: add.commute)

lemma word_less_inc: "(a :: 'a :: len word) + 1 \<noteq> 0 \<Longrightarrow> a < a + 1"
  by (simp add: word_less_nat_alt unat_inc)

lemma unat_of_nat_u32: "n < 4294967296 \<Longrightarrow> unat (of_nat n :: u32) = n"
  by (simp add: unat_of_nat)

lemma unat_of_nat_u8: "n < 256 \<Longrightarrow> unat (of_nat n :: u8) = n"
  by (simp add: unat_of_nat)

lemma u16_inc_nonzero: "n \<noteq> 0xffff \<Longrightarrow> n + 1 \<noteq> (0 :: u16)"
  using eq_neg_iff_add_eq_0 [of n 1] by auto

lemma unat_less_iff_zero: "unat (w :: 'a :: len word) = 0 \<longleftrightarrow> w = 0"
  by (simp add: unat_eq_zero)

lemma word_neq_0_unat: "(w :: 'a :: len word) \<noteq> 0 \<longleftrightarrow> 0 < unat w"
  by (simp add: unat_eq_zero neq0_conv [symmetric])

lemmas [word_nat_simps] = word_le_nat_alt word_less_nat_alt unat_sub unat_mod

text \<open>Rounding down to a multiple of a power of two clears the low bits.\<close>

lemma and_not_mask_unat:
  fixes w :: "'a :: len word"
  shows "unat (w AND NOT (mask k)) = unat w div 2 ^ k * 2 ^ k"
proof -
  have eq: "w AND NOT (mask k) = push_bit k (drop_bit k w)"
    by (rule bit_word_eqI)
      (auto simp: bit_and_iff bit_not_iff bit_mask_iff bit_push_bit_iff bit_drop_bit_eq)
  have small: "unat w div 2 ^ k * 2 ^ k < 2 ^ LENGTH('a)"
    using div_times_less_eq_dividend [of "unat w" "2 ^ k"] unat_less_exp [of w]
    by linarith
  have "unat (push_bit k (drop_bit k w)) = take_bit LENGTH('a) (push_bit k (unat (drop_bit k w)))"
    by (simp add: unsigned_push_bit_eq)
  also have "push_bit k (unat (drop_bit k w)) = unat w div 2 ^ k * 2 ^ k"
    by (subst unat_drop_bit_eq) (simp only: drop_bit_eq_div push_bit_eq_mult)
  also have "take_bit LENGTH('a) \<dots> = \<dots>"
    using small by (rule take_bit_nat_eq_self)
  finally show ?thesis by (simp only: eq)
qed

lemma and_mask_unat:
  fixes w :: "'a :: len word"
  shows "unat (w AND mask k) = unat w mod 2 ^ k"
proof -
  have "w AND mask k = take_bit k w" by (simp add: take_bit_eq_mask)
  moreover have "unat (take_bit k w) = take_bit k (unat w)" by (simp add: unsigned_take_bit_eq)
  ultimately show ?thesis by (simp only: take_bit_eq_mod)
qed

lemma unat_mask:
  assumes "k < LENGTH('a)"
  shows "unat (mask k :: 'a :: len word) = 2 ^ k - 1"
proof -
  have "(2 :: nat) ^ k \<le> 2 ^ LENGTH('a)" using assms by simp
  then have "mask k < (2 :: nat) ^ LENGTH('a)"
    by (simp add: mask_nat_def less_le_trans [of _ "2 ^ k"])
  then have "unat (of_nat (mask k) :: 'a word) = mask k"
    by (simp add: unat_of_nat)
  then have "unat (mask k :: 'a word) = mask k" by (simp only: of_nat_mask_eq)
  then show ?thesis by (simp only: mask_nat_def)
qed

section \<open>Slots of fixed tables\<close>

fun first_index :: "('a \<Rightarrow> bool) \<Rightarrow> 'a list \<Rightarrow> nat option" where
  "first_index P [] = None"
| "first_index P (x # xs) = (if P x then Some 0 else map_option Suc (first_index P xs))"

definition upd_nth :: "nat \<Rightarrow> ('a \<Rightarrow> 'a) \<Rightarrow> 'a list \<Rightarrow> 'a list" where
  "upd_nth i f xs = xs[i := f (xs ! i)]"

lemma first_index_SomeD:
  "first_index P xs = Some i \<Longrightarrow> i < length xs \<and> P (xs ! i) \<and> (\<forall>j < i. \<not> P (xs ! j))"
proof (induction xs arbitrary: i)
  case Nil
  then show ?case by simp
next
  case (Cons x xs)
  show ?case
  proof (cases "P x")
    case True
    with Cons.prems show ?thesis by auto
  next
    case False
    with Cons.prems obtain k where k: "first_index P xs = Some k" "i = Suc k" by auto
    with Cons.IH [OF k(1)] False show ?thesis
      by (auto simp: nth_Cons split: nat.splits)
  qed
qed

lemma first_index_None: "first_index P xs = None \<longleftrightarrow> (\<forall>x \<in> set xs. \<not> P x)"
  by (induction xs) auto

lemma first_index_None_nth:
  "first_index P xs = None \<longleftrightarrow> (\<forall>i < length xs. \<not> P (xs ! i))"
  by (simp add: first_index_None all_set_conv_all_nth)

lemma first_index_ex: "x \<in> set xs \<Longrightarrow> P x \<Longrightarrow> \<exists>i. first_index P xs = Some i"
  by (metis first_index_None option.exhaust)

lemma first_index_eqI:
  "i < length xs \<Longrightarrow> P (xs ! i) \<Longrightarrow> (\<And>j. j < i \<Longrightarrow> \<not> P (xs ! j)) \<Longrightarrow> first_index P xs = Some i"
proof (cases "first_index P xs")
  case None
  assume "i < length xs" "P (xs ! i)"
  with None show ?thesis by (auto simp: first_index_None_nth)
next
  case (Some k)
  assume *: "i < length xs" "P (xs ! i)" "\<And>j. j < i \<Longrightarrow> \<not> P (xs ! j)"
  from first_index_SomeD [OF Some] * have "k = i"
    by (metis linorder_neqE_nat)
  with Some show ?thesis by simp
qed

lemma length_upd_nth [simp, slot_simps]: "length (upd_nth i f xs) = length xs"
  by (simp add: upd_nth_def)

lemma nth_upd_nth [slot_simps]:
  "j < length xs \<Longrightarrow> upd_nth i f xs ! j = (if j = i then f (xs ! i) else xs ! j)"
  by (simp add: upd_nth_def nth_list_update)

lemma nth_upd_nth_eq [simp]: "i < length xs \<Longrightarrow> upd_nth i f xs ! i = f (xs ! i)"
  by (simp add: upd_nth_def)

lemma nth_upd_nth_neq [simp]: "j \<noteq> i \<Longrightarrow> upd_nth i f xs ! j = xs ! j"
  by (simp add: upd_nth_def)

lemma upd_nth_eq_Nil [simp]: "upd_nth i f xs = [] \<longleftrightarrow> xs = []"
  by (simp add: upd_nth_def)

lemma upd_nth_id: "f (xs ! i) = xs ! i \<Longrightarrow> upd_nth i f xs = xs"
  by (simp add: upd_nth_def)

text \<open>Replacing one slot changes a count by what that slot contributes.\<close>

lemma length_filter_update:
  "i < length xs \<Longrightarrow>
    length (filter P (xs[i := y])) + (if P (xs ! i) then 1 else 0) =
    length (filter P xs) + (if P y then 1 else 0)"
proof (induction xs arbitrary: i)
  case Nil
  then show ?case by simp
next
  case (Cons x xs)
  then show ?case by (cases i) auto
qed

lemma list_all_upd_nth:
  "list_all P xs \<Longrightarrow> (i < length xs \<Longrightarrow> P (f (xs ! i))) \<Longrightarrow> list_all P (upd_nth i f xs)"
  by (auto simp: list_all_length nth_upd_nth)

lemma list_all_update:
  "list_all P xs \<Longrightarrow> P y \<Longrightarrow> list_all P (xs[i := y])"
  by (cases "i < length xs") (auto simp: list_all_length nth_list_update list_update_beyond)

section \<open>Step systems\<close>

text \<open>
  The contract between the operations of a component and the statements about its runs: an invariant
  that every operation keeps holds after every sequence of operations.
\<close>

locale step_system =
  fixes step :: "'op \<Rightarrow> 's \<Rightarrow> 's" and inv :: "'s \<Rightarrow> bool"
  assumes step_inv: "inv s \<Longrightarrow> inv (step op s)"
begin

lemma run_inv: "inv s \<Longrightarrow> inv (fold step ops s)"
  by (induction ops arbitrary: s) (simp_all add: step_inv)

end

end
