(* ===== verification/Base.thy ===== *)
theory Base
  imports Prelude
begin

text \<open>
  \<^verbatim>\<open>include/mikos/base.hpp\<close>: the user memory range test that guards every user pointer,
  and rounding to a power of two. All arithmetic is on 32-bit words, so the tests are shown
  to be right in spite of wrap-around.
\<close>

unbundle bit_operations_syntax

section \<open>Definitions\<close>

record user_range =
  ur_begin :: u32
  ur_end :: u32

definition ur_contains :: "user_range \<Rightarrow> u32 \<Rightarrow> u32 \<Rightarrow> bool" where
  "ur_contains r address sz \<longleftrightarrow>
     address \<ge> ur_begin r \<and> address \<le> ur_end r \<and> sz \<le> ur_end r - address"

definition ur_aligned :: "user_range \<Rightarrow> u32 \<Rightarrow> u32 \<Rightarrow> bool" where
  "ur_aligned r address alignment \<longleftrightarrow>
     alignment \<noteq> 0 \<and> alignment AND (alignment - 1) = 0 \<and> address AND (alignment - 1) = 0"

definition align_up :: "'a :: len word \<Rightarrow> 'a word \<Rightarrow> 'a word" where
  "align_up value alignment = (value + alignment - 1) AND NOT (alignment - 1)"

definition align_down :: "'a :: len word \<Rightarrow> 'a word \<Rightarrow> 'a word" where
  "align_down value alignment = value AND NOT (alignment - 1)"

section \<open>Properties\<close>

lemma ur_contains_iff:
  "ur_contains r address sz \<longleftrightarrow>
     unat (ur_begin r) \<le> unat address \<and> unat address + unat sz \<le> unat (ur_end r)"
  by (auto simp: ur_contains_def word_le_nat_alt unat_sub_if')

lemma two_exp_minus_one: "(2 :: 'a :: len word) ^ k - 1 = mask k"
  by (simp add: mask_eq_exp_minus_1)

lemma unat_align_down: "unat (align_down w (2 ^ k)) = unat w div 2 ^ k * 2 ^ k"
  by (simp add: align_down_def two_exp_minus_one and_not_mask_unat)

lemma unat_align_up:
  fixes w :: "'a :: len word"
  assumes "k < LENGTH('a)" and "unat w + (2 ^ k - 1) < 2 ^ LENGTH('a)"
  shows "unat (align_up w (2 ^ k)) = (unat w + (2 ^ k - 1)) div 2 ^ k * 2 ^ k"
proof -
  have m: "unat (mask k :: 'a word) = 2 ^ k - 1"
    using assms(1) by (rule unat_mask)
  have "unat (w + mask k) = unat w + (2 ^ k - 1)"
    using unat_add_fits [of w "mask k"] assms(2) by (simp add: m)
  moreover have "w + 2 ^ k - 1 = w + mask k"
    by (simp add: mask_eq_exp_minus_1)
  ultimately show ?thesis
    by (simp only: align_up_def two_exp_minus_one and_not_mask_unat)
qed

section \<open>Powers of two\<close>

text \<open>The usual test, no bit in common with the predecessor, accepts exactly powers of two.\<close>

lemma and_pred_nat: "0 < (n::nat) \<Longrightarrow> n AND (n - 1) = 0 \<Longrightarrow> \<exists>k. n = 2 ^ k"
proof (induction n rule: less_induct)
  case (less n)
  show ?case
  proof (cases "even n")
    case True
    then obtain m where m: "n = 2 * m" by (elim evenE)
    with less.prems have "0 < m" by simp
    then have e: "n - 1 = 1 + 2 * (m - 1)" using m by simp
    have "n AND (n - 1) = 2 * (m AND (m - 1))"
      unfolding e unfolding m by (subst and_nat_rec) simp
    then have "m AND (m - 1) = 0" using less.prems by simp
    then obtain k where "m = 2 ^ k" using less.IH [of m] m \<open>0 < m\<close> by auto
    then have "n = 2 ^ Suc k" using m by simp
    then show ?thesis by blast
  next
    case False
    then obtain m where m: "n = 2 * m + 1" by (elim oddE)
    have "n AND (n - 1) = 2 * m" unfolding m
      by (subst and_nat_rec) simp
    then have "n = 2 ^ 0" using less.prems m by simp
    then show ?thesis by blast
  qed
qed

lemma power_of_two_test:
  fixes w :: "'a :: len word"
  assumes "w \<noteq> 0" "w AND (w - 1) = 0"
  shows "\<exists>k < LENGTH('a). w = 2 ^ k"
proof -
  have p: "0 < unat w" using assms(1) by (simp add: unat_gt_0)
  have "unat (w - 1) = unat w - 1" using assms(1) by (simp add: unat_minus_one)
  then have "unat w AND (unat w - 1) = unat (w AND (w - 1))" by (simp add: unsigned_and_eq)
  also have "\<dots> = 0" using assms(2) by simp
  finally obtain k where k: "unat w = 2 ^ k" using and_pred_nat [OF p] by blast
  moreover have "unat w < 2 ^ LENGTH('a)" by (rule unat_less_exp)
  ultimately have "k < LENGTH('a)" by simp
  moreover have "w = of_nat (unat w)" by simp
  then have "w = 2 ^ k" by (simp only: k of_nat_power of_nat_numeral)
  ultimately show ?thesis by blast
qed

end
