(* ===== verification/Ring_Buffer.thy ===== *)
theory Ring_Buffer
  imports Prelude
begin

text \<open>
  \<^verbatim>\<open>include/mikos/io/ring_buffer.hpp\<close>: the bounded byte queue under pipes and
  pseudo-terminals. The template argument \<open>Capacity\<close> is the first argument \<open>cap\<close> of
  every operation; the pair of a pointer and a count is a byte list; all index arithmetic
  is on 32-bit words, as in the class. The locale \<open>byte_fifo\<close> is the contract its users
  rely on, interpreted on the class's own operations at the end.
\<close>

section \<open>Definitions\<close>

record ring_buffer =
  rb_data :: "u8 list"
  rb_head :: u32
  rb_size :: u32

definition rb_init :: "u32 \<Rightarrow> ring_buffer" where
  "rb_init cap = \<lparr>rb_data = replicate (unat cap) 0, rb_head = 0, rb_size = 0\<rparr>"

definition rb_free_space :: "u32 \<Rightarrow> ring_buffer \<Rightarrow> u32" where
  "rb_free_space cap rb = cap - rb_size rb"

definition rb_empty :: "ring_buffer \<Rightarrow> bool" where
  "rb_empty rb \<longleftrightarrow> rb_size rb = 0"

definition rb_full :: "u32 \<Rightarrow> ring_buffer \<Rightarrow> bool" where
  "rb_full cap rb \<longleftrightarrow> rb_size rb = cap"

text \<open>The copy loop of \<open>write\<close>: byte \<open>i\<close> goes to index \<open>(head_ + size_ + i) % Capacity\<close>.\<close>

fun rb_store :: "u32 \<Rightarrow> u8 list \<Rightarrow> u32 \<Rightarrow> u8 list \<Rightarrow> u8 list" where
  "rb_store cap data pos [] = data"
| "rb_store cap data pos (b # bs) = rb_store cap (data[unat (pos mod cap) := b]) (pos + 1) bs"

definition rb_write :: "u32 \<Rightarrow> ring_buffer \<Rightarrow> u8 list \<Rightarrow> ring_buffer \<times> u32" where
  "rb_write cap rb input =
     (let count = of_nat (length input);
          amount = (if count < rb_free_space cap rb then count else rb_free_space cap rb)
      in (rb\<lparr>rb_data := rb_store cap (rb_data rb) (rb_head rb + rb_size rb) (take (unat amount) input),
             rb_size := rb_size rb + amount\<rparr>, amount))"

definition rb_fetch :: "u32 \<Rightarrow> ring_buffer \<Rightarrow> u32 \<Rightarrow> u8 list" where
  "rb_fetch cap rb amount =
     map (\<lambda>i. rb_data rb ! unat ((rb_head rb + of_nat i) mod cap)) [0..<unat amount]"

definition rb_read :: "u32 \<Rightarrow> ring_buffer \<Rightarrow> u32 \<Rightarrow> ring_buffer \<times> u8 list" where
  "rb_read cap rb count =
     (let amount = (if count < rb_size rb then count else rb_size rb)
      in (rb\<lparr>rb_head := (rb_head rb + amount) mod cap, rb_size := rb_size rb - amount\<rparr>,
          rb_fetch cap rb amount))"

definition rb_clear :: "ring_buffer \<Rightarrow> ring_buffer" where
  "rb_clear rb = rb\<lparr>rb_head := 0, rb_size := 0\<rparr>"

section \<open>Invariant and abstraction\<close>

definition rb_invar :: "u32 \<Rightarrow> ring_buffer \<Rightarrow> bool" where
  "rb_invar cap rb \<longleftrightarrow>
     0 < unat cap \<and> unat cap \<le> 2 ^ 31 \<and> length (rb_data rb) = unat cap \<and>
     unat (rb_head rb) < unat cap \<and> unat (rb_size rb) \<le> unat cap"

definition rb_list :: "u32 \<Rightarrow> ring_buffer \<Rightarrow> u8 list" where
  "rb_list cap rb =
     map (\<lambda>i. rb_data rb ! ((unat (rb_head rb) + i) mod unat cap)) [0..<unat (rb_size rb)]"

lemma length_rb_list [simp]: "length (rb_list cap rb) = unat (rb_size rb)"
  by (simp add: rb_list_def)

lemma rb_init_invar: "0 < unat cap \<Longrightarrow> unat cap \<le> 2 ^ 31 \<Longrightarrow> rb_invar cap (rb_init cap)"
  by (simp add: rb_invar_def rb_init_def)

lemma rb_init_list [simp]: "rb_list cap (rb_init cap) = []"
  by (simp add: rb_list_def rb_init_def)

lemma rb_clear_invar: "rb_invar cap rb \<Longrightarrow> rb_invar cap (rb_clear rb)"
  by (simp add: rb_invar_def rb_clear_def)

lemma rb_clear_list [simp]: "rb_list cap (rb_clear rb) = []"
  by (simp add: rb_list_def rb_clear_def)

lemma rb_free_space_nat:
  "rb_invar cap rb \<Longrightarrow> unat (rb_free_space cap rb) = unat cap - length (rb_list cap rb)"
  by (simp add: rb_free_space_def rb_invar_def unat_sub word_le_nat_alt)

lemma rb_empty_list: "rb_empty rb \<longleftrightarrow> rb_list cap rb = []"
  by (simp add: rb_empty_def rb_list_def unat_eq_zero)

lemma rb_full_list: "rb_invar cap rb \<Longrightarrow> rb_full cap rb \<longleftrightarrow> length (rb_list cap rb) = unat cap"
  by (simp add: rb_full_def word_unat_eq_iff)

section \<open>The write loop\<close>

lemma length_rb_store [simp]: "length (rb_store cap data pos bs) = length data"
  by (induction cap data pos bs rule: rb_store.induct) simp_all

lemma mod_shift_neq: "0 < d \<Longrightarrow> d < n \<Longrightarrow> (a + d) mod n \<noteq> a mod (n :: nat)"
proof
  assume "0 < d" "d < n" and "(a + d) mod n = a mod n"
  then have "n dvd (a + d) - a" by (subst mod_eq_dvd_iff_nat [symmetric]) auto
  with \<open>0 < d\<close> \<open>d < n\<close> show False by (auto dest: dvd_imp_le)
qed

lemma unat_succ_fits: "unat (pos :: u32) + Suc n < 2 ^ 32 \<Longrightarrow> unat (pos + 1) = unat pos + 1"
  using unat_add_u32 [of pos 1] by simp

text \<open>
  As long as the position does not overflow, the loop touches only the indices
  \<open>(pos + i) mod cap\<close>, and as long as it does not lap itself it leaves byte \<open>i\<close> there.
\<close>

lemma rb_store_frame:
  "unat pos + length bs < 2 ^ 32 \<Longrightarrow> (\<forall>i < length bs. (unat pos + i) mod unat cap \<noteq> j) \<Longrightarrow>
   rb_store cap data pos bs ! j = data ! j"
proof (induction bs arbitrary: pos data)
  case Nil
  then show ?case by simp
next
  case (Cons b bs)
  have next_pos: "unat (pos + 1) = unat pos + 1"
    using Cons.prems(1) by (intro unat_succ_fits) simp
  have "unat pos mod unat cap \<noteq> j"
    using Cons.prems(2) by (auto dest: spec [where x = 0])
  moreover have "\<forall>i < length bs. (unat (pos + 1) + i) mod unat cap \<noteq> j"
    using Cons.prems(2) by (auto simp: next_pos dest: spec [where x = "Suc _"])
  ultimately show ?case
    using Cons.IH [of "pos + 1" "data[unat (pos mod cap) := b]"] Cons.prems(1)
    by (simp add: next_pos unat_mod)
qed

lemma rb_store_hit:
  "unat pos + length bs < 2 ^ 32 \<Longrightarrow> length bs \<le> unat cap \<Longrightarrow> length data = unat cap \<Longrightarrow>
   i < length bs \<Longrightarrow> rb_store cap data pos bs ! ((unat pos + i) mod unat cap) = bs ! i"
proof (induction bs arbitrary: pos data i)
  case Nil
  then show ?case by simp
next
  case (Cons b bs)
  have next_pos: "unat (pos + 1) = unat pos + 1"
    using Cons.prems(1) by (intro unat_succ_fits) simp
  have fits: "unat (pos + 1) + length bs < 2 ^ 32"
    using Cons.prems(1) by (simp add: next_pos)
  show ?case
  proof (cases i)
    case 0
    have "\<forall>i' < length bs. (unat (pos + 1) + i') mod unat cap \<noteq> unat pos mod unat cap"
      using Cons.prems(2) mod_shift_neq [of "Suc _" "unat cap" "unat pos"]
      by (auto simp: next_pos)
    moreover have "unat pos mod unat cap < length data"
      using Cons.prems(2,3) by (metis Cons.prems(4) le_less_trans less_nat_zero_code mod_less_divisor neq0_conv not_less)
    ultimately show ?thesis
      using rb_store_frame [OF fits, of cap "unat pos mod unat cap"] 0
      by (simp add: unat_mod)
  next
    case (Suc i')
    with Cons.IH [OF fits, of "data[unat (pos mod cap) := b]" i'] Cons.prems
    show ?thesis by (simp add: next_pos)
  qed
qed

section \<open>Refinement to a byte list\<close>

definition rb_amount :: "u32 \<Rightarrow> ring_buffer \<Rightarrow> nat \<Rightarrow> nat" where
  "rb_amount cap rb n = min n (unat cap - length (rb_list cap rb))"

lemma rb_write_amount:
  assumes "rb_invar cap rb" and "length input < 2 ^ 32"
  shows "unat (snd (rb_write cap rb input)) = rb_amount cap rb (length input)"
  using assms
  by (auto simp: rb_write_def Let_def rb_amount_def word_less_nat_alt unat_of_nat_u32
      rb_free_space_nat)

lemma rb_write_fields:
  assumes "rb_invar cap rb" and "length input < 2 ^ 32"
  defines "n \<equiv> rb_amount cap rb (length input)"
  shows "rb_data (fst (rb_write cap rb input)) =
           rb_store cap (rb_data rb) (rb_head rb + rb_size rb) (take n input)"
    and "rb_head (fst (rb_write cap rb input)) = rb_head rb"
    and "unat (rb_size (fst (rb_write cap rb input))) = unat (rb_size rb) + n"
    and "unat (rb_size rb) + n \<le> unat cap"
proof -
  have am: "unat (snd (rb_write cap rb input)) = n"
    using rb_write_amount [OF assms(1,2)] by (simp add: n_def)
  show cap: "unat (rb_size rb) + n \<le> unat cap"
    using assms(1) by (auto simp: n_def rb_amount_def rb_invar_def)
  show "rb_data (fst (rb_write cap rb input)) =
           rb_store cap (rb_data rb) (rb_head rb + rb_size rb) (take n input)"
    using am by (simp add: rb_write_def Let_def)
  show "rb_head (fst (rb_write cap rb input)) = rb_head rb"
    by (simp add: rb_write_def Let_def)
  have "rb_size (fst (rb_write cap rb input)) = rb_size rb + snd (rb_write cap rb input)"
    by (simp add: rb_write_def Let_def)
  moreover have "unat (rb_size rb + snd (rb_write cap rb input)) = unat (rb_size rb) + n"
    using cap unat_add_u32 [of "rb_size rb" "snd (rb_write cap rb input)"] unat_u32_less [of cap]
    by (simp add: am)
  ultimately show "unat (rb_size (fst (rb_write cap rb input))) = unat (rb_size rb) + n"
    by simp
qed

lemma rb_write_list:
  assumes inv: "rb_invar cap rb" and len: "length input < 2 ^ 32"
  shows "rb_list cap (fst (rb_write cap rb input)) =
         rb_list cap rb @ take (rb_amount cap rb (length input)) input"
proof -
  define n where "n = rb_amount cap rb (length input)"
  note f = rb_write_fields [OF inv len, folded n_def]
  have n_le: "n \<le> length input" by (simp add: n_def rb_amount_def)
  have b: "0 < unat cap" "unat cap \<le> 2 ^ 31" "length (rb_data rb) = unat cap"
    "unat (rb_head rb) < unat cap" "unat (rb_size rb) \<le> unat cap"
    using inv by (auto simp: rb_invar_def)
  have pos: "unat (rb_head rb + rb_size rb) = unat (rb_head rb) + unat (rb_size rb)"
    using b by (intro unat_add_u32) simp
  have fits: "unat (rb_head rb + rb_size rb) + length (take n input) < 2 ^ 32"
    using b f(4) n_le by (simp add: pos)
  show ?thesis
  proof (rule nth_equalityI)
    show "length (rb_list cap (fst (rb_write cap rb input))) =
      length (rb_list cap rb @ take (rb_amount cap rb (length input)) input)"
      using n_le by (simp add: f(3) n_def [symmetric])
  next
    fix i assume "i < length (rb_list cap (fst (rb_write cap rb input)))"
    then have i: "i < unat (rb_size rb) + n" by (simp add: f(3))
    have lhs: "rb_list cap (fst (rb_write cap rb input)) ! i =
      rb_store cap (rb_data rb) (rb_head rb + rb_size rb) (take n input) !
        ((unat (rb_head rb) + i) mod unat cap)"
      using i by (simp add: rb_list_def f)
    show "rb_list cap (fst (rb_write cap rb input)) ! i =
      (rb_list cap rb @ take (rb_amount cap rb (length input)) input) ! i"
    proof (cases "i < unat (rb_size rb)")
      case True
      have "\<forall>k < length (take n input).
          (unat (rb_head rb + rb_size rb) + k) mod unat cap \<noteq> (unat (rb_head rb) + i) mod unat cap"
      proof (intro allI impI)
        fix k assume "k < length (take n input)"
        then have "0 < unat (rb_size rb) - i + k" "unat (rb_size rb) - i + k < unat cap"
          using True f(4) by auto
        from mod_shift_neq [OF this, of "unat (rb_head rb) + i"] True
        show "(unat (rb_head rb + rb_size rb) + k) mod unat cap \<noteq> (unat (rb_head rb) + i) mod unat cap"
          by (simp add: pos add.assoc)
      qed
      from rb_store_frame [OF fits this] True show ?thesis
        by (simp only: lhs) (simp add: rb_list_def nth_append)
    next
      case False
      then have "i - unat (rb_size rb) < length (take n input)" using i n_le by simp
      from rb_store_hit [OF fits _ b(3) this] f(4) n_le False show ?thesis
        by (simp only: lhs) (simp add: pos nth_append n_def [symmetric])
    qed
  qed
qed

lemma rb_write_invar:
  assumes "rb_invar cap rb" and "length input < 2 ^ 32"
  shows "rb_invar cap (fst (rb_write cap rb input))"
  using assms(1) rb_write_fields [OF assms] by (simp add: rb_invar_def)

lemma rb_read_amount:
  "unat (if count < rb_size rb then count else rb_size rb) = min (unat count) (unat (rb_size rb))"
  by (auto simp: word_less_nat_alt)

lemma rb_fetch_list:
  assumes "rb_invar cap rb" and "unat amount \<le> unat (rb_size rb)"
  shows "rb_fetch cap rb amount = take (unat amount) (rb_list cap rb)"
proof -
  have "unat ((rb_head rb + of_nat i) mod cap) = (unat (rb_head rb) + i) mod unat cap"
    if "i < unat amount" for i
  proof -
    have i: "i < 4294967296" using that unat_u32_less [of amount] by linarith
    have "unat (rb_head rb + of_nat i) = unat (rb_head rb) + i"
      using assms that i unat_add_u32 [of "rb_head rb" "of_nat i"]
      by (simp add: unat_of_nat_u32 rb_invar_def)
    then show ?thesis by (simp add: unat_mod)
  qed
  then show ?thesis
    using assms(2) by (auto simp: rb_fetch_def rb_list_def take_map)
qed

lemma rb_read_output:
  assumes "rb_invar cap rb"
  shows "snd (rb_read cap rb count) = take (unat count) (rb_list cap rb)"
  using rb_fetch_list [OF assms, of "if count < rb_size rb then count else rb_size rb"]
  by (auto simp: rb_read_def Let_def word_less_nat_alt)

lemma rb_read_fields:
  fixes count :: u32
  assumes "rb_invar cap rb"
  defines "n \<equiv> min (unat count) (unat (rb_size rb))"
  shows "rb_data (fst (rb_read cap rb count)) = rb_data rb"
    and "unat (rb_head (fst (rb_read cap rb count))) = (unat (rb_head rb) + n) mod unat cap"
    and "unat (rb_size (fst (rb_read cap rb count))) = unat (rb_size rb) - n"
proof -
  define amount where "amount = (if count < rb_size rb then count else rb_size rb)"
  have am: "unat amount = n" by (simp only: amount_def n_def rb_read_amount)
  have "unat (rb_head rb + amount) = unat (rb_head rb) + n"
    using assms(1) unat_add_u32 [of "rb_head rb" amount] am
    by (auto simp: n_def rb_invar_def)
  then show "unat (rb_head (fst (rb_read cap rb count))) = (unat (rb_head rb) + n) mod unat cap"
    by (simp add: rb_read_def Let_def amount_def [symmetric] unat_mod)
  have "amount \<le> rb_size rb" by (simp add: word_le_nat_alt am n_def)
  then show "unat (rb_size (fst (rb_read cap rb count))) = unat (rb_size rb) - n"
    by (simp add: rb_read_def Let_def amount_def [symmetric] unat_sub am)
  show "rb_data (fst (rb_read cap rb count)) = rb_data rb"
    by (simp add: rb_read_def Let_def)
qed

lemma rb_read_invar: "rb_invar cap rb \<Longrightarrow> rb_invar cap (fst (rb_read cap rb count))"
  using rb_read_fields [of cap rb count] by (auto simp: rb_invar_def)

lemma rb_read_list:
  assumes "rb_invar cap rb"
  shows "rb_list cap (fst (rb_read cap rb count)) = drop (unat count) (rb_list cap rb)"
proof (rule nth_equalityI)
  show "length (rb_list cap (fst (rb_read cap rb count))) =
    length (drop (unat count) (rb_list cap rb))"
    by (simp add: rb_read_fields [OF assms])
next
  fix i assume "i < length (rb_list cap (fst (rb_read cap rb count)))"
  then have "i < unat (rb_size rb) - unat count"
    by (simp add: rb_read_fields [OF assms] min_def split: if_splits)
  then show "rb_list cap (fst (rb_read cap rb count)) ! i = drop (unat count) (rb_list cap rb) ! i"
    by (simp add: rb_list_def rb_read_fields [OF assms] mod_simps add.assoc min_def)
qed

section \<open>The contract its users rely on\<close>

text \<open>
  A bounded byte queue: an abstraction to a byte list of at most \<open>fifo_cap\<close> bytes;
  writing appends the longest prefix that fits, reading removes a prefix. Interpreted
  below on the class's operations.
\<close>

locale byte_fifo =
  fixes fifo_cap :: nat
    and fifo_list :: "'b \<Rightarrow> u8 list"
    and fifo_invar :: "'b \<Rightarrow> bool"
    and fifo_write :: "'b \<Rightarrow> u8 list \<Rightarrow> 'b \<times> u32"
    and fifo_read :: "'b \<Rightarrow> u32 \<Rightarrow> 'b \<times> u8 list"
    and fifo_free :: "'b \<Rightarrow> u32"
    and fifo_clear :: "'b \<Rightarrow> 'b"
  assumes list_bound: "fifo_invar b \<Longrightarrow> length (fifo_list b) \<le> fifo_cap"
    and cap_fits: "fifo_invar b \<Longrightarrow> fifo_cap < 2 ^ 32"
    and free_list: "fifo_invar b \<Longrightarrow> unat (fifo_free b) = fifo_cap - length (fifo_list b)"
    and write_invar: "fifo_invar b \<Longrightarrow> length xs < 2 ^ 32 \<Longrightarrow> fifo_invar (fst (fifo_write b xs))"
    and write_list: "fifo_invar b \<Longrightarrow> length xs < 2 ^ 32 \<Longrightarrow>
      fifo_list (fst (fifo_write b xs)) = fifo_list b @ take (unat (snd (fifo_write b xs))) xs"
    and write_count: "fifo_invar b \<Longrightarrow> length xs < 2 ^ 32 \<Longrightarrow>
      unat (snd (fifo_write b xs)) = min (length xs) (fifo_cap - length (fifo_list b))"
    and read_invar: "fifo_invar b \<Longrightarrow> fifo_invar (fst (fifo_read b n))"
    and read_split: "fifo_invar b \<Longrightarrow>
      snd (fifo_read b n) @ fifo_list (fst (fifo_read b n)) = fifo_list b"
    and read_count: "fifo_invar b \<Longrightarrow>
      length (snd (fifo_read b n)) = min (unat n) (length (fifo_list b))"
    and clear_invar: "fifo_invar b \<Longrightarrow> fifo_invar (fifo_clear b)"
    and clear_list: "fifo_list (fifo_clear b) = []"
begin

text \<open>A write that fits is taken whole; the sum of used and free space is the capacity.\<close>

lemma write_all:
  assumes "fifo_invar b" and "length xs \<le> unat (fifo_free b)"
  shows "fifo_list (fst (fifo_write b xs)) = fifo_list b @ xs"
    and "snd (fifo_write b xs) = of_nat (length xs)"
proof -
  have fits: "length xs < 2 ^ 32"
    using assms(2) by (rule le_unat_u32)
  have n: "unat (snd (fifo_write b xs)) = length xs"
    using write_count [OF assms(1) fits] assms(2) free_list [OF assms(1)] by simp
  then show "fifo_list (fst (fifo_write b xs)) = fifo_list b @ xs"
    using write_list [OF assms(1) fits] by simp
  show "snd (fifo_write b xs) = of_nat (length xs)"
    using fits by (simp add: word_unat_eq_iff n unat_of_nat)
qed

lemma read_output: "fifo_invar b \<Longrightarrow> snd (fifo_read b n) = take (unat n) (fifo_list b)"
proof -
  assume inv: "fifo_invar b"
  have "snd (fifo_read b n) = take (length (snd (fifo_read b n))) (fifo_list b)"
    by (subst read_split [OF inv, of n, symmetric]) simp
  with read_count [OF inv, of n] show ?thesis by (simp add: min_def split: if_splits)
qed

lemma read_rest: "fifo_invar b \<Longrightarrow> fifo_list (fst (fifo_read b n)) = drop (unat n) (fifo_list b)"
  using read_split [of b n] read_output [of b n]
  by (metis append_take_drop_id same_append_eq)

text \<open>What is written into an empty queue is read back unchanged.\<close>

lemma write_read_roundtrip:
  assumes "fifo_invar b" and "fifo_list b = []" and "length xs \<le> unat (fifo_free b)"
  shows "snd (fifo_read (fst (fifo_write b xs)) (of_nat (length xs))) = xs"
proof -
  have fits: "length xs < 2 ^ 32"
    using assms(3) by (rule le_unat_u32)
  have "fifo_list (fst (fifo_write b xs)) = xs"
    using write_all(1) [OF assms(1,3)] assms(2) by simp
  moreover have "fifo_invar (fst (fifo_write b xs))"
    by (rule write_invar [OF assms(1) fits])
  ultimately show ?thesis
    using fits by (simp add: read_output unat_of_nat)
qed

end

interpretation ring: byte_fifo "unat cap" "rb_list cap" "rb_invar cap" "rb_write cap" "rb_read cap"
  "rb_free_space cap" rb_clear for cap
proof unfold_locales
  fix b :: ring_buffer and xs :: "u8 list" and n :: u32
  assume inv: "rb_invar cap b"
  show "length (rb_list cap b) \<le> unat cap" using inv by (simp add: rb_invar_def)
  show "unat cap < 2 ^ 32" by simp
  show "unat (rb_free_space cap b) = unat cap - length (rb_list cap b)"
    by (rule rb_free_space_nat [OF inv])
  show "rb_invar cap (fst (rb_read cap b n))" by (rule rb_read_invar [OF inv])
  show "snd (rb_read cap b n) @ rb_list cap (fst (rb_read cap b n)) = rb_list cap b"
    by (simp only: rb_read_output [OF inv] rb_read_list [OF inv] append_take_drop_id)
  show "length (snd (rb_read cap b n)) = min (unat n) (length (rb_list cap b))"
    by (simp add: rb_read_output [OF inv])
  show "rb_invar cap (rb_clear b)" by (rule rb_clear_invar [OF inv])
  assume len: "length xs < (2 :: nat) ^ 32"
  show "rb_invar cap (fst (rb_write cap b xs))" by (rule rb_write_invar [OF inv len])
  show "rb_list cap (fst (rb_write cap b xs)) = rb_list cap b @ take (unat (snd (rb_write cap b xs))) xs"
    by (simp only: rb_write_list [OF inv len] rb_write_amount [OF inv len])
  show "unat (snd (rb_write cap b xs)) = min (length xs) (unat cap - length (rb_list cap b))"
    by (simp only: rb_write_amount [OF inv len] rb_amount_def)
next
  fix b :: ring_buffer
  show "rb_list cap (rb_clear b) = []" by simp
qed

lemmas rb_fifo_simps = ring.read_output ring.read_rest ring.write_list ring.write_invar
  ring.read_invar ring.clear_invar

end
