(* ===== verification/Handle_Table.thy ===== *)
theory Handle_Table
  imports Prelude
begin

text \<open>
  The lookup discipline shared by the kernel's fixed tables of pipes and pseudo-terminals
  (\<^verbatim>\<open>include/mikos/process/pipe.hpp\<close>, \<^verbatim>\<open>include/mikos/process/pty.hpp\<close>): a handle
  names a slot and the generation the slot had when it was opened, and a lookup succeeds
  only while the slot is in use with that generation. The locale states the discipline;
  the component theories interpret it on their own \<open>find\<close>.
\<close>

section \<open>Allocating the next generation\<close>

text \<open>The generation of a reopened slot: the successor, skipping zero.\<close>

definition next_generation :: "u16 \<Rightarrow> u16" where
  "next_generation g = (let n = g + 1 in if n = 0 then 1 else n)"

lemma next_generation_nonzero [simp]: "next_generation g \<noteq> 0"
  by (simp add: next_generation_def Let_def)

lemma next_generation_neq [simp]: "next_generation g \<noteq> g"
proof -
  have "g + 1 = 0 \<Longrightarrow> g \<noteq> 1" by auto
  then show ?thesis by (auto simp: next_generation_def Let_def)
qed

section \<open>The lookup contract\<close>

locale handle_table =
  fixes tfind :: "'s list \<Rightarrow> 'h \<Rightarrow> nat option"
    and slot_used :: "'s \<Rightarrow> bool"
    and slot_generation :: "'s \<Rightarrow> u16"
    and handle_slot :: "'h \<Rightarrow> u8"
    and handle_generation :: "'h \<Rightarrow> u16"
  assumes tfind_eq: "tfind ts h =
    (if unat (handle_slot h) < length ts \<and> slot_used (ts ! unat (handle_slot h)) \<and>
        slot_generation (ts ! unat (handle_slot h)) = handle_generation h
     then Some (unat (handle_slot h)) else None)"
begin

lemma tfind_Some_iff:
  "tfind ts h = Some i \<longleftrightarrow>
     i = unat (handle_slot h) \<and> i < length ts \<and> slot_used (ts ! i) \<and>
     slot_generation (ts ! i) = handle_generation h"
  by (auto simp: tfind_eq)

lemma tfind_bound: "tfind ts h = Some i \<Longrightarrow> i < length ts"
  by (simp add: tfind_Some_iff)

text \<open>An update that keeps a slot in use with its generation invalidates no handle.\<close>

lemma tfind_keep:
  assumes "i < length ts \<Longrightarrow> slot_used (f (ts ! i)) = slot_used (ts ! i)"
    and "i < length ts \<Longrightarrow> slot_generation (f (ts ! i)) = slot_generation (ts ! i)"
  shows "tfind (upd_nth i f ts) h = tfind ts h"
  using assms by (auto simp: tfind_eq nth_upd_nth split: if_splits)

text \<open>Updates of another slot are invisible.\<close>

lemma tfind_other:
  "unat (handle_slot h) \<noteq> i \<Longrightarrow> tfind (upd_nth i f ts) h = tfind ts h"
  by (simp add: tfind_eq)

text \<open>A freed slot answers no handle, and a slot reopened with another generation answers
  no handle of the earlier one.\<close>

lemma tfind_freed:
  "unat (handle_slot h) = i \<Longrightarrow> \<not> slot_used (f (ts ! i)) \<Longrightarrow> tfind (upd_nth i f ts) h = None"
  by (auto simp: tfind_eq)

lemma tfind_regenerated:
  "unat (handle_slot h) = i \<Longrightarrow> slot_generation (f (ts ! i)) \<noteq> handle_generation h \<Longrightarrow>
   tfind (upd_nth i f ts) h = None"
  by (auto simp: tfind_eq)

text \<open>Two handles that both resolve to one slot are equal in slot and generation.\<close>

lemma tfind_inject:
  "tfind ts h = Some i \<Longrightarrow> tfind ts k = Some i \<Longrightarrow>
   handle_slot h = handle_slot k \<and> handle_generation h = handle_generation k"
  by (auto simp: tfind_Some_iff word_unat_eq_iff)

end

end
