(* ===== verification/Pipe.thy ===== *)
theory Pipe
  imports Ring_Buffer Handle_Table
begin

text \<open>
  \<^verbatim>\<open>include/mikos/process/pipe.hpp\<close>: the fixed table of anonymous pipes. The template
  arguments are \<open>length ts\<close> (\<open>TableCapacity\<close>), \<open>bcap\<close> (\<open>BufferCapacity\<close>) and \<open>acap\<close>
  (\<open>AtomicCapacity\<close>). Every member function is a definition over the table that returns
  the new table beside its result; a byte count read or written is the length of the byte
  list moved.
\<close>

section \<open>Definitions\<close>

datatype pipe_end = Pipe_read_end | Pipe_write_end

record pipe_handle =
  ph_generation :: u16
  ph_slot :: u8

datatype pipe_status =
    Pipe_success
  | Pipe_would_block
  | Pipe_end_of_file
  | Pipe_broken_pipe
  | Pipe_bad_handle
  | Pipe_no_space

record pipe =
  pp_data :: ring_buffer
  pp_generation :: u16
  pp_readers :: u16
  pp_writers :: u16
  pp_used :: bool

definition invalid_pipe_handle :: pipe_handle where
  "invalid_pipe_handle = \<lparr>ph_generation = 0, ph_slot = 0xff\<rparr>"

definition pipe_empty :: "u32 \<Rightarrow> pipe" where
  "pipe_empty bcap = \<lparr>pp_data = rb_init bcap, pp_generation = 0, pp_readers = 0, pp_writers = 0,
     pp_used = False\<rparr>"

definition pipe_table_init :: "u32 \<Rightarrow> nat \<Rightarrow> pipe list" where
  "pipe_table_init bcap tcap = replicate tcap (pipe_empty bcap)"

definition pipe_create :: "u32 \<Rightarrow> pipe list \<Rightarrow> pipe list \<times> pipe_status \<times> pipe_handle" where
  "pipe_create bcap ts =
     (case first_index (\<lambda>p. \<not> pp_used p) ts of
        None \<Rightarrow> (ts, Pipe_no_space, invalid_pipe_handle)
      | Some i \<Rightarrow>
          let generation = next_generation (pp_generation (ts ! i))
          in (upd_nth i (\<lambda>_. (pipe_empty bcap)\<lparr>pp_used := True, pp_generation := generation,
                pp_readers := 1, pp_writers := 1\<rparr>) ts,
              Pipe_success, \<lparr>ph_generation = generation, ph_slot = of_nat i\<rparr>))"

definition pipe_find :: "pipe list \<Rightarrow> pipe_handle \<Rightarrow> nat option" where
  "pipe_find ts h =
     (if length ts \<le> unat (ph_slot h) then None
      else let p = ts ! unat (ph_slot h)
           in if pp_used p \<and> pp_generation p = ph_generation h then Some (unat (ph_slot h)) else None)"

fun pipe_count :: "pipe_end \<Rightarrow> pipe \<Rightarrow> u16" where
  "pipe_count Pipe_read_end p = pp_readers p"
| "pipe_count Pipe_write_end p = pp_writers p"

fun set_pipe_count :: "pipe_end \<Rightarrow> u16 \<Rightarrow> pipe \<Rightarrow> pipe" where
  "set_pipe_count Pipe_read_end n p = p\<lparr>pp_readers := n\<rparr>"
| "set_pipe_count Pipe_write_end n p = p\<lparr>pp_writers := n\<rparr>"

definition pipe_retain :: "pipe list \<Rightarrow> pipe_handle \<Rightarrow> pipe_end \<Rightarrow> pipe list \<times> pipe_status" where
  "pipe_retain ts h e =
     (case pipe_find ts h of
        None \<Rightarrow> (ts, Pipe_bad_handle)
      | Some i \<Rightarrow>
          if pipe_count e (ts ! i) = 0xffff then (ts, Pipe_no_space)
          else (upd_nth i (\<lambda>p. set_pipe_count e (pipe_count e p + 1) p) ts, Pipe_success))"

definition pipe_drop :: "u32 \<Rightarrow> pipe_end \<Rightarrow> pipe \<Rightarrow> pipe" where
  "pipe_drop bcap e p =
     (let q = set_pipe_count e (pipe_count e p - 1) p
      in if pp_readers q = 0 \<and> pp_writers q = 0
         then (pipe_empty bcap)\<lparr>pp_generation := pp_generation p\<rparr> else q)"

definition pipe_release :: "u32 \<Rightarrow> pipe list \<Rightarrow> pipe_handle \<Rightarrow> pipe_end \<Rightarrow> pipe list \<times> pipe_status"
  where
  "pipe_release bcap ts h e =
     (case pipe_find ts h of
        None \<Rightarrow> (ts, Pipe_bad_handle)
      | Some i \<Rightarrow>
          if pipe_count e (ts ! i) = 0 then (ts, Pipe_bad_handle)
          else (upd_nth i (pipe_drop bcap e) ts, Pipe_success))"

definition pipe_read :: "u32 \<Rightarrow> pipe list \<Rightarrow> pipe_handle \<Rightarrow> u32 \<Rightarrow> pipe list \<times> pipe_status \<times> u8 list"
  where
  "pipe_read bcap ts h count =
     (case pipe_find ts h of
        None \<Rightarrow> (ts, Pipe_bad_handle, [])
      | Some i \<Rightarrow>
          let p = ts ! i
          in if pp_readers p = 0 then (ts, Pipe_bad_handle, [])
             else if count = 0 then (ts, Pipe_success, [])
             else if \<not> rb_empty (pp_data p) then
               (let (data, output) = rb_read bcap (pp_data p) count
                in (upd_nth i (\<lambda>p. p\<lparr>pp_data := data\<rparr>) ts, Pipe_success, output))
             else if pp_writers p = 0 then (ts, Pipe_end_of_file, [])
             else (ts, Pipe_would_block, []))"

definition pipe_write ::
  "u32 \<Rightarrow> u32 \<Rightarrow> pipe list \<Rightarrow> pipe_handle \<Rightarrow> u8 list \<Rightarrow> pipe list \<times> pipe_status \<times> u32" where
  "pipe_write bcap acap ts h input =
     (case pipe_find ts h of
        None \<Rightarrow> (ts, Pipe_bad_handle, 0)
      | Some i \<Rightarrow>
          let p = ts ! i; count = of_nat (length input)
          in if pp_writers p = 0 then (ts, Pipe_bad_handle, 0)
             else if count = 0 then (ts, Pipe_success, 0)
             else if pp_readers p = 0 then (ts, Pipe_broken_pipe, 0)
             else if count \<le> acap \<and> rb_free_space bcap (pp_data p) < count
             then (ts, Pipe_would_block, 0)
             else (let (data, amount) = rb_write bcap (pp_data p) input;
                       ts' = upd_nth i (\<lambda>p. p\<lparr>pp_data := data\<rparr>) ts
                   in if amount = 0 then (ts', Pipe_would_block, 0)
                      else (ts', Pipe_success, amount)))"

definition pipe_readable :: "pipe list \<Rightarrow> pipe_handle \<Rightarrow> bool" where
  "pipe_readable ts h =
     (case pipe_find ts h of
        None \<Rightarrow> False
      | Some i \<Rightarrow> pp_readers (ts ! i) \<noteq> 0 \<and> (\<not> rb_empty (pp_data (ts ! i)) \<or> pp_writers (ts ! i) = 0))"

definition pipe_writable :: "u32 \<Rightarrow> pipe list \<Rightarrow> pipe_handle \<Rightarrow> bool" where
  "pipe_writable bcap ts h =
     (case pipe_find ts h of
        None \<Rightarrow> False
      | Some i \<Rightarrow> pp_writers (ts ! i) \<noteq> 0 \<and> pp_readers (ts ! i) \<noteq> 0 \<and> \<not> rb_full bcap (pp_data (ts ! i)))"

definition pipe_hung_up :: "pipe list \<Rightarrow> pipe_handle \<Rightarrow> pipe_end \<Rightarrow> bool" where
  "pipe_hung_up ts h e =
     (case pipe_find ts h of
        None \<Rightarrow> False
      | Some i \<Rightarrow> (case e of Pipe_read_end \<Rightarrow> pp_writers (ts ! i) = 0
                            | Pipe_write_end \<Rightarrow> pp_readers (ts ! i) = 0))"

definition pipe_references :: "pipe list \<Rightarrow> pipe_handle \<Rightarrow> pipe_end \<Rightarrow> u16" where
  "pipe_references ts h e =
     (case pipe_find ts h of None \<Rightarrow> 0 | Some i \<Rightarrow> pipe_count e (ts ! i))"

definition pipe_used :: "pipe list \<Rightarrow> u32" where
  "pipe_used ts = of_nat (length (filter pp_used ts))"

section \<open>Well-formed tables\<close>

definition pipe_ok :: "u32 \<Rightarrow> pipe \<Rightarrow> bool" where
  "pipe_ok bcap p \<longleftrightarrow>
     rb_invar bcap (pp_data p) \<and>
     (if pp_used p then pp_generation p \<noteq> 0 \<and> (pp_readers p \<noteq> 0 \<or> pp_writers p \<noteq> 0)
      else pp_readers p = 0 \<and> pp_writers p = 0 \<and> rb_list bcap (pp_data p) = [])"

definition pipe_table_ok :: "u32 \<Rightarrow> pipe list \<Rightarrow> bool" where
  "pipe_table_ok bcap ts \<longleftrightarrow>
     0 < unat bcap \<and> unat bcap \<le> 2 ^ 31 \<and> ts \<noteq> [] \<and> length ts \<le> 255 \<and> list_all (pipe_ok bcap) ts"

interpretation pipes: handle_table pipe_find pp_used pp_generation ph_slot ph_generation
  by unfold_locales (auto simp: pipe_find_def Let_def)

lemma pipe_empty_ok [simp]:
  "0 < unat bcap \<Longrightarrow> unat bcap \<le> 2 ^ 31 \<Longrightarrow> pipe_ok bcap ((pipe_empty bcap)\<lparr>pp_generation := g\<rparr>)"
  by (simp add: pipe_ok_def pipe_empty_def rb_init_invar)

lemma pipe_empty_ok' [simp]:
  "0 < unat bcap \<Longrightarrow> unat bcap \<le> 2 ^ 31 \<Longrightarrow> pipe_ok bcap (pipe_empty bcap)"
  by (simp add: pipe_ok_def pipe_empty_def rb_init_invar)

lemma pipe_table_ok_nth: "pipe_table_ok bcap ts \<Longrightarrow> i < length ts \<Longrightarrow> pipe_ok bcap (ts ! i)"
  by (simp add: pipe_table_ok_def list_all_length)

lemma pipe_table_ok_upd:
  "pipe_table_ok bcap ts \<Longrightarrow> (i < length ts \<Longrightarrow> pipe_ok bcap (f (ts ! i))) \<Longrightarrow>
   pipe_table_ok bcap (upd_nth i f ts)"
  by (auto simp: pipe_table_ok_def intro: list_all_upd_nth simp flip: length_greater_0_conv)

lemma pipe_table_init_ok:
  "0 < unat bcap \<Longrightarrow> unat bcap \<le> 2 ^ 31 \<Longrightarrow> 0 < tcap \<Longrightarrow> tcap \<le> 255 \<Longrightarrow>
   pipe_table_ok bcap (pipe_table_init bcap tcap)"
  by (simp add: pipe_table_ok_def pipe_table_init_def list_all_length)

lemma pipe_create_ok: "pipe_table_ok bcap ts \<Longrightarrow> pipe_table_ok bcap (fst (pipe_create bcap ts))"
  by (auto simp: pipe_create_def Let_def pipe_ok_def pipe_empty_def rb_init_invar pipe_table_ok_def
      intro!: list_all_upd_nth split: option.splits)

lemma pipe_retain_ok:
  assumes "pipe_table_ok bcap ts"
  shows "pipe_table_ok bcap (fst (pipe_retain ts h e))"
proof (cases "pipe_find ts h")
  case None
  with assms show ?thesis by (simp add: pipe_retain_def)
next
  case (Some i)
  then have i: "i < length ts" "pp_used (ts ! i)" by (auto simp: pipes.tfind_Some_iff)
  show ?thesis
    using pipe_table_ok_nth [OF assms i(1)] i(2) Some assms
    by (cases e) (auto simp: pipe_retain_def pipe_ok_def u16_inc_nonzero intro!: pipe_table_ok_upd)
qed

lemma pipe_drop_ok:
  "0 < unat bcap \<Longrightarrow> unat bcap \<le> 2 ^ 31 \<Longrightarrow> pipe_ok bcap p \<Longrightarrow> pp_used p \<Longrightarrow> pipe_ok bcap (pipe_drop bcap e p)"
  by (cases e) (auto simp: pipe_drop_def Let_def pipe_ok_def pipe_empty_def rb_init_invar)

lemma pipe_release_ok:
  assumes "pipe_table_ok bcap ts"
  shows "pipe_table_ok bcap (fst (pipe_release bcap ts h e))"
proof (cases "pipe_find ts h")
  case None
  with assms show ?thesis by (simp add: pipe_release_def)
next
  case (Some i)
  then have i: "i < length ts" "pp_used (ts ! i)" by (auto simp: pipes.tfind_Some_iff)
  have "0 < unat bcap" "unat bcap \<le> 2 ^ 31" using assms by (auto simp: pipe_table_ok_def)
  then show ?thesis
    using pipe_drop_ok [OF _ _ pipe_table_ok_nth [OF assms i(1)] i(2)] Some assms
    by (auto simp: pipe_release_def intro!: pipe_table_ok_upd)
qed

lemma pipe_ok_data:
  "pipe_ok bcap p \<Longrightarrow> pp_used p \<Longrightarrow> rb_invar bcap data \<Longrightarrow> pipe_ok bcap (p\<lparr>pp_data := data\<rparr>)"
  by (simp add: pipe_ok_def)

lemma pipe_read_ok:
  assumes "pipe_table_ok bcap ts"
  shows "pipe_table_ok bcap (fst (pipe_read bcap ts h n))"
proof (cases "pipe_find ts h")
  case None
  with assms show ?thesis by (simp add: pipe_read_def)
next
  case (Some i)
  then have i: "i < length ts" "pp_used (ts ! i)" by (auto simp: pipes.tfind_Some_iff)
  have "rb_invar bcap (pp_data (ts ! i))"
    using pipe_table_ok_nth [OF assms i(1)] by (simp add: pipe_ok_def)
  then show ?thesis
    using pipe_ok_data [OF pipe_table_ok_nth [OF assms i(1)] i(2)] Some assms ring.read_invar
    by (auto simp: pipe_read_def Let_def case_prod_beta intro!: pipe_table_ok_upd)
qed

lemma pipe_write_ok:
  assumes "pipe_table_ok bcap ts" and "length input < 2 ^ 32"
  shows "pipe_table_ok bcap (fst (pipe_write bcap acap ts h input))"
proof (cases "pipe_find ts h")
  case None
  with assms show ?thesis by (simp add: pipe_write_def)
next
  case (Some i)
  then have i: "i < length ts" "pp_used (ts ! i)" by (auto simp: pipes.tfind_Some_iff)
  have "rb_invar bcap (pp_data (ts ! i))"
    using pipe_table_ok_nth [OF assms(1) i(1)] by (simp add: pipe_ok_def)
  then have "pipe_table_ok bcap
      (upd_nth i (\<lambda>p. p\<lparr>pp_data := fst (rb_write bcap (pp_data (ts ! i)) input)\<rparr>) ts)"
    using pipe_ok_data [OF pipe_table_ok_nth [OF assms(1) i(1)] i(2)] assms ring.write_invar
    by (auto intro!: pipe_table_ok_upd)
  then show ?thesis
    using Some assms(1) by (simp add: pipe_write_def Let_def case_prod_beta)
qed

section \<open>Operations as steps\<close>

datatype pipe_op =
    Op_create
  | Op_retain pipe_handle pipe_end
  | Op_release pipe_handle pipe_end
  | Op_read pipe_handle u32
  | Op_write pipe_handle "u8 list"

fun pipe_exec :: "u32 \<Rightarrow> u32 \<Rightarrow> pipe list \<Rightarrow> pipe_op \<Rightarrow> pipe list" where
  "pipe_exec bcap acap ts Op_create = fst (pipe_create bcap ts)"
| "pipe_exec bcap acap ts (Op_retain h e) = fst (pipe_retain ts h e)"
| "pipe_exec bcap acap ts (Op_release h e) = fst (pipe_release bcap ts h e)"
| "pipe_exec bcap acap ts (Op_read h n) = fst (pipe_read bcap ts h n)"
| "pipe_exec bcap acap ts (Op_write h bs) = fst (pipe_write bcap acap ts h bs)"

text \<open>Byte counts are 32-bit, so no call can offer more than \<open>2\<^sup>3\<^sup>2 - 1\<close> bytes.\<close>

fun pipe_op_ok :: "pipe_op \<Rightarrow> bool" where
  "pipe_op_ok (Op_write h bs) \<longleftrightarrow> length bs < 2 ^ 32"
| "pipe_op_ok _ \<longleftrightarrow> True"

inductive pipe_reachable :: "u32 \<Rightarrow> u32 \<Rightarrow> nat \<Rightarrow> pipe list \<Rightarrow> bool"
  for bcap acap :: u32 and tcap :: nat where
  pipe_start: "pipe_reachable bcap acap tcap (pipe_table_init bcap tcap)"
| pipe_step: "pipe_reachable bcap acap tcap ts \<Longrightarrow> pipe_op_ok op \<Longrightarrow>
    pipe_reachable bcap acap tcap (pipe_exec bcap acap ts op)"

lemma pipe_exec_ok:
  "pipe_table_ok bcap ts \<Longrightarrow> pipe_op_ok op \<Longrightarrow> pipe_table_ok bcap (pipe_exec bcap acap ts op)"
  by (cases op)
    (simp_all add: pipe_create_ok pipe_retain_ok pipe_release_ok pipe_read_ok pipe_write_ok)

text \<open>The bytes a live pipe holds, and what an operation moves in and out of it.\<close>

definition pipe_contents :: "u32 \<Rightarrow> pipe list \<Rightarrow> pipe_handle \<Rightarrow> u8 list" where
  "pipe_contents bcap ts h =
     (case pipe_find ts h of None \<Rightarrow> [] | Some i \<Rightarrow> rb_list bcap (pp_data (ts ! i)))"

fun pipe_delivered :: "u32 \<Rightarrow> pipe list \<Rightarrow> pipe_handle \<Rightarrow> pipe_op \<Rightarrow> u8 list" where
  "pipe_delivered bcap ts h (Op_read k n) = (if k = h then snd (snd (pipe_read bcap ts k n)) else [])"
| "pipe_delivered bcap ts h _ = []"

fun pipe_accepted :: "u32 \<Rightarrow> u32 \<Rightarrow> pipe list \<Rightarrow> pipe_handle \<Rightarrow> pipe_op \<Rightarrow> u8 list" where
  "pipe_accepted bcap acap ts h (Op_write k bs) =
     (if k = h then take (unat (snd (snd (pipe_write bcap acap ts k bs)))) bs else [])"
| "pipe_accepted bcap acap ts h _ = []"

lemma pipe_contents_found:
  "pipe_find ts h = Some i \<Longrightarrow> pipe_contents bcap ts h = rb_list bcap (pp_data (ts ! i))"
  by (simp add: pipe_contents_def)

lemma pipe_contents_other:
  assumes "pipe_find ts h = Some i" and "j \<noteq> i"
  shows "pipe_contents bcap (upd_nth j f ts) h = pipe_contents bcap ts h"
proof -
  have "unat (ph_slot h) \<noteq> j" using assms by (auto simp: pipes.tfind_Some_iff)
  with assms show ?thesis
    by (simp add: pipe_contents_def pipes.tfind_other)
qed

lemma pipe_contents_set_data:
  assumes "pipe_find ts h = Some i"
  shows "pipe_contents bcap (upd_nth i (\<lambda>p. p\<lparr>pp_data := d\<rparr>) ts) h = rb_list bcap d"
proof -
  have "pipe_find (upd_nth i (\<lambda>p. p\<lparr>pp_data := d\<rparr>) ts) h = Some i"
    using assms by (subst pipes.tfind_keep) auto
  moreover have "i < length ts" by (rule pipes.tfind_bound [OF assms])
  ultimately show ?thesis by (simp add: pipe_contents_def)
qed

lemma pipe_handle_slot_inject:
  "pipe_find ts h = Some i \<Longrightarrow> pipe_find ts k = Some i \<Longrightarrow> h = k"
  using pipes.tfind_inject [of ts h i k] by (cases h; cases k) simp

lemma pipe_contents_keep:
  assumes "pipe_find ts h = Some i" and "pp_used (f (ts ! j)) = pp_used (ts ! j)"
    and "pp_generation (f (ts ! j)) = pp_generation (ts ! j)" and "pp_data (f (ts ! j)) = pp_data (ts ! j)"
  shows "pipe_contents bcap (upd_nth j f ts) h = pipe_contents bcap ts h"
proof -
  have "pipe_find (upd_nth j f ts) h = Some i"
    using assms by (subst pipes.tfind_keep) auto
  moreover have "i < length ts" by (rule pipes.tfind_bound [OF assms(1)])
  ultimately show ?thesis
    using assms by (simp add: pipe_contents_def nth_upd_nth)
qed

lemma pipe_create_contents:
  assumes "pipe_find ts h = Some i"
  shows "pipe_contents bcap (fst (pipe_create bcap ts)) h = pipe_contents bcap ts h"
proof (cases "first_index (\<lambda>p. \<not> pp_used p) ts")
  case None
  then show ?thesis by (simp add: pipe_create_def)
next
  case (Some j)
  then have "\<not> pp_used (ts ! j)" by (auto dest: first_index_SomeD)
  then have "j \<noteq> i" using assms by (auto simp: pipes.tfind_Some_iff)
  with Some assms show ?thesis by (simp add: pipe_create_def Let_def pipe_contents_other)
qed

lemma pipe_retain_contents:
  assumes "pipe_find ts h = Some i"
  shows "pipe_contents bcap (fst (pipe_retain ts k e)) h = pipe_contents bcap ts h"
  by (cases e) (auto simp: pipe_retain_def split: option.splits intro!: pipe_contents_keep [OF assms])

lemma pipe_release_contents:
  assumes "pipe_find ts h = Some i" and "pipe_find (fst (pipe_release bcap ts k e)) h \<noteq> None"
  shows "pipe_contents bcap (fst (pipe_release bcap ts k e)) h = pipe_contents bcap ts h"
proof (cases "pipe_find ts k")
  case None
  then show ?thesis by (simp add: pipe_release_def)
next
  case (Some j)
  show ?thesis
  proof (cases "j = i \<and> pipe_count e (ts ! j) \<noteq> 0")
    case True
    let ?q = "set_pipe_count e (pipe_count e (ts ! i) - 1) (ts ! i)"
    have "\<not> (pp_readers ?q = 0 \<and> pp_writers ?q = 0)"
    proof
      assume "pp_readers ?q = 0 \<and> pp_writers ?q = 0"
      then have "\<not> pp_used (pipe_drop bcap e (ts ! i))"
        by (simp add: pipe_drop_def pipe_empty_def)
      then have "pipe_find (upd_nth i (pipe_drop bcap e) ts) h = None"
        using assms(1) by (intro pipes.tfind_freed) (auto simp: pipes.tfind_Some_iff)
      with assms(2) Some True show False by (auto simp: pipe_release_def)
    qed
    then have "pipe_drop bcap e (ts ! i) = ?q" by (auto simp: pipe_drop_def)
    with Some True show ?thesis
      by (cases e) (auto simp: pipe_release_def intro!: pipe_contents_keep [OF assms(1)])
  next
    case False
    then consider "j \<noteq> i" | "pipe_count e (ts ! j) = 0" by blast
    then show ?thesis
      using Some assms by cases (auto simp: pipe_release_def pipe_contents_other)
  qed
qed

lemma pipe_read_contents:
  assumes "pipe_table_ok bcap ts" and "pipe_find ts h = Some i"
  shows "snd (snd (pipe_read bcap ts h n)) @ pipe_contents bcap (fst (pipe_read bcap ts h n)) h =
         pipe_contents bcap ts h"
proof -
  have "rb_invar bcap (pp_data (ts ! i))"
    using pipe_table_ok_nth [OF assms(1) pipes.tfind_bound [OF assms(2)]] by (simp add: pipe_ok_def)
  from ring.read_split [OF this, of n] assms(2) show ?thesis
    by (simp add: pipe_read_def Let_def case_prod_beta pipe_contents_set_data
        pipe_contents_found [OF assms(2)])
qed

lemma pipe_write_contents:
  assumes "pipe_table_ok bcap ts" and "pipe_find ts h = Some i" and "length bs < 2 ^ 32"
  shows "pipe_contents bcap (fst (pipe_write bcap acap ts h bs)) h =
         pipe_contents bcap ts h @ take (unat (snd (snd (pipe_write bcap acap ts h bs)))) bs"
proof -
  have "rb_invar bcap (pp_data (ts ! i))"
    using pipe_table_ok_nth [OF assms(1) pipes.tfind_bound [OF assms(2)]] by (simp add: pipe_ok_def)
  from ring.write_list [OF this assms(3)] assms(2) show ?thesis
    by (simp add: pipe_write_def Let_def case_prod_beta pipe_contents_set_data
        pipe_contents_found [OF assms(2)])
qed

lemma pipe_io_other:
  assumes "pipe_find ts h = Some i" and "k \<noteq> h"
  shows "pipe_contents bcap (fst (pipe_read bcap ts k n)) h = pipe_contents bcap ts h"
    and "pipe_contents bcap (fst (pipe_write bcap acap ts k bs)) h = pipe_contents bcap ts h"
proof -
  have "pipe_find ts k = Some j \<Longrightarrow> j \<noteq> i" for j
    using pipe_handle_slot_inject [OF assms(1)] assms(2) by blast
  then show "pipe_contents bcap (fst (pipe_read bcap ts k n)) h = pipe_contents bcap ts h"
    and "pipe_contents bcap (fst (pipe_write bcap acap ts k bs)) h = pipe_contents bcap ts h"
    using assms(1)
    by (auto simp: pipe_read_def pipe_write_def Let_def case_prod_beta pipe_contents_other
        split: option.splits)
qed

text \<open>One operation conserves the bytes of a pipe that stays alive.\<close>

lemma pipe_step_conserves:
  assumes "pipe_table_ok bcap ts" and "pipe_op_ok op" and "pipe_find ts h = Some i"
    and "pipe_find (pipe_exec bcap acap ts op) h \<noteq> None"
  shows "pipe_delivered bcap ts h op @ pipe_contents bcap (pipe_exec bcap acap ts op) h =
         pipe_contents bcap ts h @ pipe_accepted bcap acap ts h op"
proof (cases op)
  case (Op_read k n)
  with assms show ?thesis
    by (cases "k = h") (simp_all add: pipe_read_contents pipe_io_other)
next
  case (Op_write k bs)
  with assms show ?thesis
    by (cases "k = h") (simp_all add: pipe_write_contents pipe_io_other)
qed (use assms in \<open>simp_all add: pipe_create_contents pipe_retain_contents pipe_release_contents\<close>)

text \<open>
  A run of operations on any handles, while \<open>h\<close> stays alive: the final table, and the
  bytes delivered from and accepted into the pipe of \<open>h\<close>.
\<close>

fun pipe_run :: "u32 \<Rightarrow> u32 \<Rightarrow> pipe_handle \<Rightarrow> pipe list \<Rightarrow> pipe_op list \<Rightarrow>
  (pipe list \<times> u8 list \<times> u8 list) option" where
  "pipe_run bcap acap h ts [] = Some (ts, [], [])"
| "pipe_run bcap acap h ts (op # ops) =
     (let ts' = pipe_exec bcap acap ts op
      in if pipe_find ts' h = None then None
         else case pipe_run bcap acap h ts' ops of
           None \<Rightarrow> None
         | Some (final, delivered, accepted) \<Rightarrow>
             Some (final, pipe_delivered bcap ts h op @ delivered, pipe_accepted bcap acap ts h op @ accepted))"

lemma pipe_run_conserves:
  "pipe_table_ok bcap ts \<Longrightarrow> list_all pipe_op_ok ops \<Longrightarrow> pipe_find ts h \<noteq> None \<Longrightarrow>
   pipe_run bcap acap h ts ops = Some (final, delivered, accepted) \<Longrightarrow>
   delivered @ pipe_contents bcap final h = pipe_contents bcap ts h @ accepted"
proof (induction ops arbitrary: ts delivered accepted)
  case Nil
  then show ?case by simp
next
  case (Cons op ops)
  let ?ts' = "pipe_exec bcap acap ts op"
  from Cons.prems(4) obtain d a where live: "pipe_find ?ts' h \<noteq> None"
    and rest: "pipe_run bcap acap h ?ts' ops = Some (final, d, a)"
    and d: "delivered = pipe_delivered bcap ts h op @ d"
    and a: "accepted = pipe_accepted bcap acap ts h op @ a"
    by (auto simp: Let_def split: if_splits option.splits)
  obtain i where i: "pipe_find ts h = Some i" using Cons.prems(3) by auto
  have ok: "pipe_table_ok bcap ?ts'" "pipe_op_ok op"
    using Cons.prems(1,2) by (simp_all add: pipe_exec_ok)
  have IH: "d @ pipe_contents bcap final h = pipe_contents bcap ?ts' h @ a"
    using Cons.IH [OF ok(1) _ live rest] Cons.prems(2) by simp
  have step: "pipe_delivered bcap ts h op @ pipe_contents bcap ?ts' h =
      pipe_contents bcap ts h @ pipe_accepted bcap acap ts h op"
    by (rule pipe_step_conserves [OF Cons.prems(1) ok(2) i live])
  show ?case by (simp only: d a append_assoc IH) (simp only: append_assoc [symmetric] step)
qed

section \<open>Errors, blocking and stale handles\<close>

lemma pipe_write_cases:
  assumes "pipe_table_ok bcap ts" and "pipe_find ts h = Some i" and "length input < 2 ^ 32"
    and "pp_writers (ts ! i) \<noteq> 0" and "input \<noteq> []" and "pp_readers (ts ! i) \<noteq> 0"
  defines "free \<equiv> unat bcap - length (pipe_contents bcap ts h)"
  shows "snd (pipe_write bcap acap ts h input) =
     (if length input \<le> unat acap \<and> free < length input \<or> free = 0 then (Pipe_would_block, 0)
      else (Pipe_success, of_nat (min (length input) free)))"
proof -
  let ?rb = "pp_data (ts ! i)"
  have inv: "rb_invar bcap ?rb"
    using pipe_table_ok_nth [OF assms(1) pipes.tfind_bound [OF assms(2)]] by (simp add: pipe_ok_def)
  have free: "unat (rb_free_space bcap ?rb) = free"
    using ring.free_list [OF inv] by (simp add: free_def pipe_contents_found [OF assms(2)])
  have len: "unat (of_nat (length input) :: u32) = length input"
    using assms(3) by (simp add: unat_of_nat)
  have "snd (rb_write bcap ?rb input) = of_nat (min (length input) free)"
  proof -
    have "min (length input) free < 2 ^ 32" using assms(3) by simp
    then show ?thesis
      using ring.write_count [OF inv assms(3)] free ring.free_list [OF inv]
      by (simp add: word_unat_eq_iff unat_of_nat)
  qed
  moreover have "(of_nat (length input) :: u32) \<noteq> 0"
    using len assms(5) by (metis length_0_conv unat_0)
  moreover have "(of_nat (min (length input) free) :: u32) = 0 \<longleftrightarrow> free = 0"
    using assms(3,5) by (cases input) (auto simp: word_unat_eq_iff unat_of_nat min_def)
  ultimately show ?thesis
    using assms(2,4,6)
    by (auto simp: pipe_write_def Let_def case_prod_beta word_le_nat_alt word_less_nat_alt len free)
qed

text \<open>A one-slot table with one open pipe, on which the theorems below are instantiated.\<close>

definition demo_pipe :: pipe_handle where
  "demo_pipe = \<lparr>ph_generation = 1, ph_slot = 0\<rparr>"

definition demo_pipes :: "pipe list" where
  "demo_pipes = pipe_exec 4 4 (pipe_table_init 4 1) Op_create"

lemma demo_pipes_ok: "pipe_table_ok 4 demo_pipes"
  by (simp add: demo_pipes_def pipe_table_init_ok pipe_create_ok)

lemma demo_pipes_find: "pipe_find demo_pipes demo_pipe = Some 0"
  by code_simp

lemma demo_pipes_counts: "pp_readers (demo_pipes ! 0) = 1" "pp_writers (demo_pipes ! 0) = 1"
  by code_simp+

text \<open>C11: In every table reached by any sequence of creations, retains, releases, reads and
  writes, every slot is well formed: its ring buffer indices are in range, a slot in use
  has a non-zero generation and at least one open end, and a free slot holds no bytes and
  no references.\<close>

theorem pipe_reachable_ok:
  assumes "pipe_reachable bcap acap tcap ts"
    and "0 < unat bcap" and "unat bcap \<le> 2 ^ 31" and "0 < tcap" and "tcap \<le> 255"
  shows "pipe_table_ok bcap ts"
  using assms(1)
proof (induction rule: pipe_reachable.induct)
  case pipe_start
  show ?case by (rule pipe_table_init_ok [OF assms(2-5)])
next
  case (pipe_step ts op)
  then show ?case by (simp add: pipe_exec_ok)
qed

theorem pipe_reachable_ok_witness:
  "pipe_table_ok 4 (pipe_exec 4 2 (pipe_table_init 4 2) Op_create)"
proof -
  have "pipe_reachable 4 2 2 (pipe_exec 4 2 (pipe_table_init 4 2) Op_create)"
    by (intro pipe_reachable.intros) simp
  then show ?thesis by (rule pipe_reachable_ok) simp_all
qed

text \<open>C1: A pipe is a first-in first-out byte stream under any interleaving: over every run
  of operations on any handles during which the pipe of \<open>h\<close> stays open, the bytes
  delivered to its readers followed by the bytes still buffered are exactly the bytes
  buffered at the start followed by the bytes accepted from its writers.\<close>

theorem pipe_stream:
  assumes "pipe_table_ok bcap ts" and "list_all pipe_op_ok ops" and "pipe_find ts h \<noteq> None"
    and "pipe_run bcap acap h ts ops = Some (final, delivered, accepted)"
  shows "delivered @ pipe_contents bcap final h = pipe_contents bcap ts h @ accepted"
  using assms by (rule pipe_run_conserves)

theorem pipe_stream_witness:
  "\<exists>final. pipe_run 4 4 demo_pipe demo_pipes [Op_write demo_pipe [1, 2, 3], Op_read demo_pipe 2] =
      Some (final, [1, 2], [1, 2, 3]) \<and>
    [1, 2] @ pipe_contents 4 final demo_pipe = pipe_contents 4 demo_pipes demo_pipe @ [1, 2, 3]"
proof -
  let ?ops = "[Op_write demo_pipe [1, 2, 3], Op_read demo_pipe 2]"
  have "map_option snd (pipe_run 4 4 demo_pipe demo_pipes ?ops) = Some ([1, 2], [1, 2, 3])"
    by code_simp
  then obtain final where run: "pipe_run 4 4 demo_pipe demo_pipes ?ops = Some (final, [1, 2], [1, 2, 3])"
    by auto
  with pipe_stream [OF demo_pipes_ok _ _ run] show ?thesis
    by (auto simp: demo_pipes_find)
qed

text \<open>C12: Writes of at most \<open>AtomicCapacity\<close> bytes are atomic: with both ends open such a
  write either succeeds, and then all its bytes follow the old contents of the pipe, or it blocks, and then the
  contents are the old ones; it blocks exactly when the free space is too small. A longer write blocks only on a full
  buffer, and otherwise appends the longest prefix that fits and reports its length.\<close>

theorem pipe_write_atomic:
  assumes "pipe_table_ok bcap ts" and "pipe_find ts h = Some i" and "length input < 2 ^ 32"
    and "pp_writers (ts ! i) \<noteq> 0" and "input \<noteq> []" and "pp_readers (ts ! i) \<noteq> 0"
    and "unat acap \<le> unat bcap"
    and "pipe_write bcap acap ts h input = (ts', status, n)"
  defines "free \<equiv> unat bcap - length (pipe_contents bcap ts h)"
  shows "(length input \<le> unat acap \<longrightarrow>
      (if length input \<le> free
       then status = Pipe_success \<and> unat n = length input \<and>
         pipe_contents bcap ts' h = pipe_contents bcap ts h @ input
       else status = Pipe_would_block \<and> n = 0 \<and> pipe_contents bcap ts' h = pipe_contents bcap ts h)) \<and>
    (unat acap < length input \<longrightarrow>
      (if free = 0
       then status = Pipe_would_block \<and> n = 0 \<and> pipe_contents bcap ts' h = pipe_contents bcap ts h
       else status = Pipe_success \<and> unat n = min (length input) free \<and>
         pipe_contents bcap ts' h = pipe_contents bcap ts h @ take free input))"
proof -
  note eq = pipe_write_cases [OF assms(1-6), of acap, folded free_def, unfolded assms(8) snd_conv]
  note contents = pipe_write_contents [OF assms(1-3), of acap, unfolded assms(8) fst_conv snd_conv]
  have n: "unat (of_nat (min (length input) free) :: u32) = min (length input) free"
    using assms(3) by (simp add: unat_of_nat_u32 min_def)
  show ?thesis
  proof (cases "length input \<le> unat acap \<and> free < length input \<or> free = 0")
    case True
    then have "status = Pipe_would_block" "n = 0" using eq by auto
    with True contents assms(5) show ?thesis by auto
  next
    case False
    then have "status = Pipe_success" "unat n = min (length input) free" using eq n by auto
    with False contents show ?thesis by (auto simp: min_def)
  qed
qed

theorem pipe_write_atomic_witness:
  "\<exists>ts'. pipe_write 4 4 demo_pipes demo_pipe [1, 2, 3] = (ts', Pipe_success, 3) \<and>
     pipe_contents 4 ts' demo_pipe = [1, 2, 3]"
proof -
  have empty: "pipe_contents 4 demo_pipes demo_pipe = []" by code_simp
  obtain ts' status n where w: "pipe_write 4 4 demo_pipes demo_pipe [1, 2, 3] = (ts', status, n)"
    by (metis prod_cases3)
  from pipe_write_atomic [OF demo_pipes_ok demo_pipes_find _ _ _ _ _ w]
  have "status = Pipe_success" "unat n = 3" "pipe_contents 4 ts' demo_pipe = [1, 2, 3]"
    by (simp_all add: demo_pipes_counts empty)
  moreover from this(2) have "n = 3" by (simp add: word_unat_eq_iff)
  ultimately show ?thesis using w by blast
qed

text \<open>C16: A read is reported as end of file exactly when the buffer is empty and no writer
  is left, and a poll of the read end (\<open>readable\<close>) says yes exactly when a non-empty read
  would return at once instead of blocking.\<close>

theorem pipe_readable_iff:
  assumes "pipe_find ts h = Some i" and "pp_readers (ts ! i) \<noteq> 0" and "n \<noteq> 0"
  shows "(pipe_readable ts h \<longleftrightarrow> fst (snd (pipe_read bcap ts h n)) \<noteq> Pipe_would_block) \<and>
    (fst (snd (pipe_read bcap ts h n)) = Pipe_end_of_file \<longleftrightarrow>
      pipe_contents bcap ts h = [] \<and> pp_writers (ts ! i) = 0)"
  using assms
  by (auto simp: pipe_readable_def pipe_read_def Let_def case_prod_beta pipe_contents_found
      rb_empty_list [of _ bcap])

theorem pipe_readable_iff_witness:
  "pipe_readable demo_pipes demo_pipe \<longleftrightarrow>
     fst (snd (pipe_read 4 demo_pipes demo_pipe 2)) \<noteq> Pipe_would_block"
  using pipe_readable_iff [OF demo_pipes_find, of 2 4] by (simp add: demo_pipes_counts)

text \<open>C13: A handle dies with its pipe: releasing the last end makes it unknown, and it stays
  unknown after the slot has been reused by the next \<open>create\<close>, so a stale descriptor can
  never reach another process's pipe.\<close>

theorem pipe_stale_handle:
  assumes "pipe_find ts h = Some i" and "pipe_count e (ts ! i) = 1"
    and "pp_readers (ts ! i) + pp_writers (ts ! i) = 1"
  shows "pipe_find (fst (pipe_release bcap ts h e)) h = None \<and>
    pipe_find (fst (pipe_create bcap (fst (pipe_release bcap ts h e)))) h = None"
proof -
  let ?ts = "upd_nth i (pipe_drop bcap e) ts"
  have rel: "fst (pipe_release bcap ts h e) = ?ts"
    using assms by (simp add: pipe_release_def)
  have i: "i < length ts" "unat (ph_slot h) = i" "pp_generation (ts ! i) = ph_generation h"
    using assms(1) by (auto simp: pipes.tfind_Some_iff)
  have drop: "pipe_drop bcap e (ts ! i) = (pipe_empty bcap)\<lparr>pp_generation := pp_generation (ts ! i)\<rparr>"
    using assms(2,3) by (cases e) (auto simp: pipe_drop_def Let_def)
  have dead: "pipe_find ?ts h = None"
    by (rule pipes.tfind_freed) (simp_all add: i(2) drop pipe_empty_def)
  moreover have "pipe_find (fst (pipe_create bcap ?ts)) h = None"
  proof (cases "first_index (\<lambda>p. \<not> pp_used p) ?ts")
    case None
    then show ?thesis using dead by (simp add: pipe_create_def)
  next
    case (Some j)
    show ?thesis
    proof (cases "j = i")
      case True
      have "pp_generation (?ts ! i) = ph_generation h" using i by (simp add: drop)
      with Some True i show ?thesis
        by (auto simp: pipe_create_def Let_def intro!: pipes.tfind_regenerated)
    next
      case False
      with Some dead i show ?thesis
        by (simp add: pipe_create_def Let_def pipes.tfind_other)
    qed
  qed
  ultimately show ?thesis by (simp only: rel)
qed

theorem pipe_stale_handle_witness:
  "pipe_find (fst (pipe_create 4 (fst (pipe_release 4
      (fst (pipe_release 4 demo_pipes demo_pipe Pipe_read_end)) demo_pipe Pipe_write_end)))) demo_pipe = None"
proof -
  let ?ts = "fst (pipe_release 4 demo_pipes demo_pipe Pipe_read_end)"
  have "pipe_find ?ts demo_pipe = Some 0" and "pipe_count Pipe_write_end (?ts ! 0) = 1"
    and "pp_readers (?ts ! 0) + pp_writers (?ts ! 0) = 1"
    by code_simp+
  from pipe_stale_handle [OF this] show ?thesis by blast
qed

end
