(* ===== verification/Signal.thy ===== *)
theory Signal
  imports Prelude
begin

text \<open>
  \<^verbatim>\<open>include/mikos/process/signal.hpp\<close>: a process's signal state, that is its 65
  dispositions (index 0 unused), its blocked mask and its pending set, both 64-bit words in
  which signal \<open>n\<close> is bit \<open>n - 1\<close>.
\<close>

unbundle bit_operations_syntax

section \<open>Definitions\<close>

abbreviation signal_max :: u8 where "signal_max \<equiv> 64"
abbreviation signal_interrupt :: u8 where "signal_interrupt \<equiv> 2"
abbreviation signal_quit :: u8 where "signal_quit \<equiv> 3"
abbreviation signal_kill :: u8 where "signal_kill \<equiv> 9"
abbreviation signal_child :: u8 where "signal_child \<equiv> 17"
abbreviation signal_continue :: u8 where "signal_continue \<equiv> 18"
abbreviation signal_stop :: u8 where "signal_stop \<equiv> 19"
abbreviation signal_tty_stop :: u8 where "signal_tty_stop \<equiv> 20"
abbreviation signal_tty_input :: u8 where "signal_tty_input \<equiv> 21"
abbreviation signal_tty_output :: u8 where "signal_tty_output \<equiv> 22"
abbreviation signal_urgent :: u8 where "signal_urgent \<equiv> 23"
abbreviation signal_window_change :: u8 where "signal_window_change \<equiv> 28"

datatype signal_status = Sig_success | Sig_invalid_signal | Sig_uncatchable | Sig_invalid_operation

datatype signal_mask_operation = Mask_block | Mask_unblock | Mask_set

datatype signal_default = Default_ignore | Default_terminate | Default_stop | Default_resume

record signal_action =
  sa_handler :: u32
  sa_flags :: u32
  sa_mask :: u64

record signal_state =
  ss_actions :: "signal_action list"
  ss_blocked :: u64
  ss_pending :: u64

definition signal_action_empty :: signal_action where
  "signal_action_empty = \<lparr>sa_handler = 0, sa_flags = 0, sa_mask = 0\<rparr>"

definition signal_state_init :: signal_state where
  "signal_state_init = \<lparr>ss_actions = replicate 65 signal_action_empty, ss_blocked = 0, ss_pending = 0\<rparr>"

definition signal_valid :: "u8 \<Rightarrow> bool" where
  "signal_valid signal \<longleftrightarrow> signal \<noteq> 0 \<and> signal \<le> signal_max"

definition signal_bit :: "u8 \<Rightarrow> u64" where
  "signal_bit signal = (if signal_valid signal then push_bit (unat (signal - 1)) 1 else 0)"

definition uncatchable_mask :: u64 where
  "uncatchable_mask = signal_bit signal_kill OR signal_bit signal_stop"

text \<open>The action previously installed is reported through the out parameter \<open>old\<close>.\<close>

definition signal_set_action ::
  "signal_state \<Rightarrow> u8 \<Rightarrow> signal_action \<Rightarrow> signal_state \<times> signal_status \<times> signal_action option" where
  "signal_set_action s signal action =
     (if \<not> signal_valid signal then (s, Sig_invalid_signal, None)
      else let old = Some (ss_actions s ! unat signal)
           in if signal = signal_kill \<or> signal = signal_stop then (s, Sig_uncatchable, old)
              else (s\<lparr>ss_actions := (ss_actions s)
                       [unat signal := action\<lparr>sa_mask := sa_mask action AND NOT uncatchable_mask\<rparr>]\<rparr>,
                    Sig_success, old))"

definition signal_action_of :: "signal_state \<Rightarrow> u8 \<Rightarrow> signal_action" where
  "signal_action_of s signal =
     (if signal_valid signal then ss_actions s ! unat signal else signal_action_empty)"

definition signal_change_mask ::
  "signal_state \<Rightarrow> signal_mask_operation \<Rightarrow> u64 \<Rightarrow> signal_state \<times> signal_status \<times> u64" where
  "signal_change_mask s op value =
     (let old = ss_blocked s; v = value AND NOT uncatchable_mask;
          blocked = (case op of Mask_block \<Rightarrow> ss_blocked s OR v
                              | Mask_unblock \<Rightarrow> ss_blocked s AND NOT v
                              | Mask_set \<Rightarrow> v)
      in (s\<lparr>ss_blocked := blocked AND NOT uncatchable_mask\<rparr>, Sig_success, old))"

definition signal_queue :: "signal_state \<Rightarrow> u8 \<Rightarrow> signal_state \<times> signal_status" where
  "signal_queue s signal =
     (if \<not> signal_valid signal then (s, Sig_invalid_signal)
      else (s\<lparr>ss_pending := ss_pending s OR signal_bit signal\<rparr>, Sig_success))"

definition signal_next :: "signal_state \<Rightarrow> signal_state \<times> u8" where
  "signal_next s =
     (let deliverable = ss_pending s AND NOT (ss_blocked s)
      in case find (\<lambda>signal. deliverable AND signal_bit signal \<noteq> 0) (map of_nat [1..<65]) of
           None \<Rightarrow> (s, 0)
         | Some signal \<Rightarrow> (s\<lparr>ss_pending := ss_pending s AND NOT (signal_bit signal)\<rparr>, signal))"

definition signal_has_deliverable :: "signal_state \<Rightarrow> bool" where
  "signal_has_deliverable s \<longleftrightarrow> ss_pending s AND NOT (ss_blocked s) \<noteq> 0"

definition signal_default_for :: "u8 \<Rightarrow> signal_default" where
  "signal_default_for signal =
     (if signal = signal_child \<or> signal = signal_urgent \<or> signal = signal_window_change
      then Default_ignore
      else if signal = signal_continue then Default_resume
      else if signal = signal_stop \<or> signal = signal_tty_stop \<or> signal = signal_tty_input \<or>
              signal = signal_tty_output
      then Default_stop
      else Default_terminate)"

section \<open>Signals as bits\<close>

lemma signal_valid_unat: "signal_valid n \<longleftrightarrow> 0 < unat n \<and> unat n \<le> 64"
  by (auto simp: signal_valid_def word_le_nat_alt unat_gt_0)

lemma and_signal_bit:
  assumes "signal_valid n"
  shows "w AND signal_bit n \<noteq> 0 \<longleftrightarrow> bit w (unat n - 1)"
proof -
  have "unat (n - 1) = unat n - 1"
    using assms by (simp add: signal_valid_def unat_minus_one)
  then show ?thesis
    using assms by (simp add: signal_bit_def push_bit_of_1 and_exp_eq_0_iff_not_bit)
qed

lemma bit_signal_bit:
  assumes "signal_valid n"
  shows "bit (signal_bit n) k \<longleftrightarrow> k = unat n - 1"
proof -
  have "unat (n - 1) = unat n - 1"
    using assms by (simp add: signal_valid_def unat_minus_one)
  moreover have "unat n - 1 < 64" using assms by (auto simp: signal_valid_unat)
  ultimately show ?thesis
    using assms by (auto simp: signal_bit_def push_bit_of_1 bit_exp_iff)
qed

lemma bit_uncatchable_mask: "bit uncatchable_mask k \<longleftrightarrow> k = 8 \<or> k = 18"
proof -
  have "signal_valid signal_kill" "signal_valid signal_stop" by (simp_all add: signal_valid_def)
  from this [THEN bit_signal_bit, of k] show ?thesis
    by (simp add: uncatchable_mask_def bit_or_iff)
qed

text \<open>The deliverable signals: pending and not blocked, by number.\<close>

definition deliverable :: "signal_state \<Rightarrow> nat \<Rightarrow> bool" where
  "deliverable s n \<longleftrightarrow> 1 \<le> n \<and> n \<le> 64 \<and> bit (ss_pending s) (n - 1) \<and> \<not> bit (ss_blocked s) (n - 1)"

lemma of_nat_signal:
  assumes "1 \<le> n" and "n \<le> 64"
  shows "unat (of_nat n :: u8) = n" and "signal_valid (of_nat n)"
proof -
  show *: "unat (of_nat n :: u8) = n" using assms by (simp add: unat_of_nat_u8)
  show "signal_valid (of_nat n)" using assms by (simp add: signal_valid_unat *)
qed

lemma deliverable_bit:
  assumes "1 \<le> n" and "n \<le> 64"
  shows "(ss_pending s AND NOT (ss_blocked s)) AND signal_bit (of_nat n) \<noteq> 0 \<longleftrightarrow> deliverable s n"
  using assms by (auto simp: and_signal_bit of_nat_signal bit_and_iff bit_not_iff deliverable_def)

lemma has_deliverable_iff: "signal_has_deliverable s \<longleftrightarrow> (\<exists>n. deliverable s n)"
proof
  assume "signal_has_deliverable s"
  then obtain k where k: "bit (ss_pending s AND NOT (ss_blocked s)) k"
    by (auto simp: signal_has_deliverable_def bit_eq_iff)
  then have "k < 64" using bit_imp_le_length [OF k] by simp
  with k have "deliverable s (Suc k)"
    by (simp add: deliverable_def bit_and_iff bit_not_iff)
  then show "\<exists>n. deliverable s n" ..
next
  assume "\<exists>n. deliverable s n"
  then obtain n where "deliverable s n" ..
  then have "bit (ss_pending s AND NOT (ss_blocked s)) (n - 1)"
    by (auto simp: deliverable_def bit_and_iff bit_not_iff)
  then show "signal_has_deliverable s"
    by (auto simp: signal_has_deliverable_def)
qed

section \<open>Delivery\<close>

lemma signal_next_None:
  assumes "\<not> signal_has_deliverable s"
  shows "signal_next s = (s, 0)"
proof -
  have "find (\<lambda>signal. (ss_pending s AND NOT (ss_blocked s)) AND signal_bit signal \<noteq> 0)
      (map of_nat [1..<65]) = None"
    using assms by (simp add: signal_has_deliverable_def find_None_iff)
  then show ?thesis by (simp add: signal_next_def)
qed

lemma find_signal_least:
  assumes "deliverable s n" and "\<And>m. m < n \<Longrightarrow> \<not> deliverable s m"
  shows "find (\<lambda>signal. (ss_pending s AND NOT (ss_blocked s)) AND signal_bit signal \<noteq> 0)
      (map of_nat [1..<65]) = Some (of_nat n)"
proof -
  have n: "1 \<le> n" "n \<le> 64" using assms(1) by (simp_all add: deliverable_def)
  have "map of_nat [1..<65] ! (n - 1) = (of_nat n :: u8)"
    using n by simp
  moreover have "(ss_pending s AND NOT (ss_blocked s)) AND signal_bit (of_nat n) \<noteq> 0"
    using deliverable_bit [OF n, of s] assms(1) by blast
  moreover have "\<not> (ss_pending s AND NOT (ss_blocked s)) AND signal_bit (map of_nat [1..<65] ! j) \<noteq> 0"
    if "j < n - 1" for j
  proof -
    have j: "1 \<le> Suc j" "Suc j \<le> 64" "Suc j < n" using that n by auto
    have "map of_nat [1..<65] ! j = (of_nat (Suc j) :: u8)" using j(2) by simp
    with deliverable_bit [OF j(1,2), of s] assms(2) [OF j(3)] show ?thesis by metis
  qed
  moreover have "n - 1 < length (map (of_nat :: nat \<Rightarrow> u8) [1..<65])" using n by simp
  ultimately show ?thesis
    unfolding find_Some_iff by (intro exI [of _ "n - 1"]) auto
qed

text \<open>Delivering removes exactly the delivered signal.\<close>

lemma deliverable_clear:
  assumes "1 \<le> n" and "n \<le> 64"
  shows "deliverable (s\<lparr>ss_pending := ss_pending s AND NOT (signal_bit (of_nat n))\<rparr>) m \<longleftrightarrow>
    deliverable s m \<and> m \<noteq> n"
proof -
  have "bit (signal_bit (of_nat n)) (m - 1) \<longleftrightarrow> m - 1 = n - 1"
    using bit_signal_bit [OF of_nat_signal(2) [OF assms]] of_nat_signal(1) [OF assms] by simp
  then show ?thesis
    using assms by (auto simp: deliverable_def bit_and_iff bit_not_iff)
qed

lemma signal_next_Some:
  assumes "deliverable s n" and "\<And>m. m < n \<Longrightarrow> \<not> deliverable s m"
  shows "snd (signal_next s) = of_nat n"
    and "deliverable (fst (signal_next s)) m \<longleftrightarrow> deliverable s m \<and> m \<noteq> n"
    and "ss_blocked (fst (signal_next s)) = ss_blocked s"
    and "ss_actions (fst (signal_next s)) = ss_actions s"
proof -
  have n: "1 \<le> n" "n \<le> 64" using assms(1) by (simp_all add: deliverable_def)
  have eq: "signal_next s = (s\<lparr>ss_pending := ss_pending s AND NOT (signal_bit (of_nat n))\<rparr>, of_nat n)"
    by (simp only: signal_next_def Let_def find_signal_least [OF assms] option.case)
  then show "snd (signal_next s) = of_nat n" "ss_blocked (fst (signal_next s)) = ss_blocked s"
    "ss_actions (fst (signal_next s)) = ss_actions s"
    by simp_all
  show "deliverable (fst (signal_next s)) m \<longleftrightarrow> deliverable s m \<and> m \<noteq> n"
    using deliverable_clear [OF n, of s m] by (simp add: eq)
qed

lemma deliverable_least:
  assumes "deliverable s k"
  obtains n where "deliverable s n" "\<And>m. m < n \<Longrightarrow> \<not> deliverable s m" "n \<le> k"
  using assms LeastI [of "deliverable s" k] not_less_Least [of _ "deliverable s"] Least_le [of "deliverable s" k]
  by blast

text \<open>Repeated delivery, as the trap return path does it: call \<open>next\<close> until it returns 0.
  There are 64 signals, so 65 calls are enough.\<close>

fun signal_drain :: "nat \<Rightarrow> signal_state \<Rightarrow> u8 list" where
  "signal_drain 0 s = []"
| "signal_drain (Suc fuel) s =
     (let (s', signal) = signal_next s in if signal = 0 then [] else signal # signal_drain fuel s')"

definition deliverables :: "signal_state \<Rightarrow> nat list" where
  "deliverables s = filter (deliverable s) [1..<65]"

lemma deliverables_next:
  assumes "deliverable s n" and "\<And>m. m < n \<Longrightarrow> \<not> deliverable s m"
  shows "deliverables s = n # deliverables (fst (signal_next s))"
proof -
  have n: "1 \<le> n" "n < 65" using assms(1) by (simp_all add: deliverable_def)
  have split: "[1..<65] = [1..<n] @ n # [Suc n..<65]"
    using n upt_add_eq_append [of 1 n "65 - n"] by (simp add: upt_conv_Cons)
  have "filter (deliverable s) [1..<n] = []" "filter (deliverable (fst (signal_next s))) [1..<n] = []"
    using assms(2) by (auto simp: filter_empty_conv signal_next_Some(2) [OF assms])
  moreover have "filter (deliverable (fst (signal_next s))) [Suc n..<65] = filter (deliverable s) [Suc n..<65]"
    by (rule filter_cong) (auto simp: signal_next_Some(2) [OF assms])
  moreover have "\<not> deliverable (fst (signal_next s)) n" by (simp add: signal_next_Some(2) [OF assms])
  ultimately show ?thesis
    using assms(1) by (simp only: deliverables_def split) simp
qed

lemma signal_drain_eq:
  "length (deliverables s) < fuel \<Longrightarrow> signal_drain fuel s = map of_nat (deliverables s)"
proof (induction fuel arbitrary: s)
  case 0
  then show ?case by simp
next
  case (Suc fuel)
  show ?case
  proof (cases "signal_has_deliverable s")
    case False
    then have "deliverables s = []"
      by (auto simp: deliverables_def filter_empty_conv has_deliverable_iff)
    with False show ?thesis by (simp add: signal_next_None)
  next
    case True
    then obtain n where n: "deliverable s n" "\<And>m. m < n \<Longrightarrow> \<not> deliverable s m"
      by (metis deliverable_least has_deliverable_iff)
    have "(of_nat n :: u8) \<noteq> 0"
      using n(1) of_nat_signal(1) [of n] by (auto simp: deliverable_def)
    then show ?thesis
      using Suc deliverables_next [OF n] signal_next_Some(1) [OF n]
      by (simp add: case_prod_beta)
  qed
qed

lemma length_deliverables: "length (deliverables s) \<le> 64"
  using length_filter_le [of "deliverable s" "[1..<65]"] by (simp add: deliverables_def)

section \<open>Uncatchable signals\<close>

definition signal_state_ok :: "signal_state \<Rightarrow> bool" where
  "signal_state_ok s \<longleftrightarrow>
     length (ss_actions s) = 65 \<and> ss_blocked s AND uncatchable_mask = 0 \<and>
     list_all (\<lambda>a. sa_mask a AND uncatchable_mask = 0) (ss_actions s) \<and>
     ss_actions s ! 9 = signal_action_empty \<and> ss_actions s ! 19 = signal_action_empty"

datatype signal_op =
    Set_action u8 signal_action
  | Change_mask signal_mask_operation u64
  | Queue u8
  | Next

fun signal_exec :: "signal_state \<Rightarrow> signal_op \<Rightarrow> signal_state" where
  "signal_exec s (Set_action n a) = fst (signal_set_action s n a)"
| "signal_exec s (Change_mask op v) = fst (signal_change_mask s op v)"
| "signal_exec s (Queue n) = fst (signal_queue s n)"
| "signal_exec s Next = fst (signal_next s)"

lemma and_not_and_zero: "((w :: 'a :: len word) AND NOT m) AND m = 0"
  by (rule bit_word_eqI) (auto simp: bit_and_iff bit_not_iff)

lemma signal_state_init_ok: "signal_state_ok signal_state_init"
  by (simp add: signal_state_ok_def signal_state_init_def signal_action_empty_def list_all_length)

lemma signal_next_frame:
  "ss_blocked (fst (signal_next s)) = ss_blocked s" "ss_actions (fst (signal_next s)) = ss_actions s"
  by (simp_all add: signal_next_def Let_def split: option.splits)

lemma signal_exec_ok: "signal_state_ok s \<Longrightarrow> signal_state_ok (signal_exec s op)"
proof (cases op)
  case (Set_action n a)
  assume ok: "signal_state_ok s"
  have "signal_valid n \<Longrightarrow> n \<noteq> signal_kill \<Longrightarrow> unat n \<noteq> 9"
    "signal_valid n \<Longrightarrow> n \<noteq> signal_stop \<Longrightarrow> unat n \<noteq> 19"
    by (simp_all add: word_unat_eq_iff)
  with ok Set_action show ?thesis
    by (auto simp: signal_state_ok_def signal_set_action_def Let_def and_not_and_zero
        intro!: list_all_update)
next
  case (Change_mask op v)
  assume "signal_state_ok s"
  with Change_mask show ?thesis
    by (simp add: signal_state_ok_def signal_change_mask_def Let_def and_not_and_zero)
next
  case (Queue n)
  assume "signal_state_ok s"
  with Queue show ?thesis by (simp add: signal_state_ok_def signal_queue_def)
next
  case Next
  assume "signal_state_ok s"
  with Next show ?thesis by (simp add: signal_state_ok_def signal_next_frame)
qed

definition signal_run :: "signal_op list \<Rightarrow> signal_state" where
  "signal_run ops = foldl signal_exec signal_state_init ops"

lemma signal_run_ok: "signal_state_ok (signal_run ops)"
proof -
  have "signal_state_ok s \<Longrightarrow> signal_state_ok (foldl signal_exec s ops)" for s
    by (induction ops arbitrary: s) (simp_all add: signal_exec_ok)
  then show ?thesis by (simp add: signal_run_def signal_state_init_ok)
qed

lemma signal_state_ok_unblocked:
  assumes "signal_state_ok s" and "k = 8 \<or> k = 18"
  shows "\<not> bit (ss_blocked s) k"
proof
  assume "bit (ss_blocked s) k"
  with assms(2) have "bit (ss_blocked s AND uncatchable_mask) k"
    by (auto simp: bit_and_iff bit_uncatchable_mask)
  with assms(1) show False by (simp add: signal_state_ok_def)
qed

section \<open>Properties\<close>

text \<open>C14: Calling \<open>next\<close> repeatedly delivers exactly the signals that are pending and not
  blocked, each once and in ascending order of signal number, and then reports that none is
  left; 65 calls are always enough.\<close>

theorem signal_drain_sorted:
  "signal_drain 65 s = map of_nat (filter (deliverable s) [1..<65]) \<and>
   (signal_has_deliverable s \<longleftrightarrow> snd (signal_next s) \<noteq> 0)"
proof
  show "signal_drain 65 s = map of_nat (filter (deliverable s) [1..<65])"
    using signal_drain_eq [of s 65] length_deliverables [of s] by (simp add: deliverables_def)
  show "signal_has_deliverable s \<longleftrightarrow> snd (signal_next s) \<noteq> 0"
  proof (cases "signal_has_deliverable s")
    case True
    then obtain n where n: "deliverable s n" "\<And>m. m < n \<Longrightarrow> \<not> deliverable s m"
      by (metis deliverable_least has_deliverable_iff)
    then show ?thesis
      using True of_nat_signal(1) [of n] by (auto simp: signal_next_Some(1) [OF n] deliverable_def)
  next
    case False
    then show ?thesis by (simp add: signal_next_None)
  qed
qed

text \<open>C15: SIGKILL and SIGSTOP cannot be caught, ignored or blocked: after any sequence of
  \<open>sigaction\<close>, mask, queue and delivery calls from the initial state, both still have the
  default disposition, neither is in the blocked mask or in the mask of any installed
  action, and once queued they are deliverable at once.\<close>

theorem signal_uncatchable:
  assumes "n = signal_kill \<or> n = signal_stop"
  shows "signal_action_of (signal_run ops) n = signal_action_empty \<and>
    ss_blocked (signal_run ops) AND uncatchable_mask = 0 \<and>
    (\<forall>k < 65. sa_mask (ss_actions (signal_run ops) ! k) AND uncatchable_mask = 0) \<and>
    deliverable (fst (signal_queue (signal_run ops) n)) (unat n)"
proof -
  have ok: "signal_state_ok (signal_run ops)" by (rule signal_run_ok)
  have v: "signal_valid n" using assms by (auto simp: signal_valid_def)
  have "unat n - 1 = 8 \<or> unat n - 1 = 18" using assms by auto
  then have "\<not> bit (ss_blocked (signal_run ops)) (unat n - 1)"
    by (rule signal_state_ok_unblocked [OF ok])
  moreover have "bit (ss_pending (signal_run ops) OR signal_bit n) (unat n - 1)"
    using bit_signal_bit [OF v] by (simp add: bit_or_iff)
  ultimately have "deliverable (fst (signal_queue (signal_run ops) n)) (unat n)"
    using v by (simp add: deliverable_def signal_queue_def signal_valid_unat)
  then show ?thesis
    using ok v assms by (auto simp: signal_state_ok_def signal_action_of_def list_all_length)
qed

theorem signal_uncatchable_witness:
  "signal_action_of (signal_run [Set_action 9 \<lparr>sa_handler = 4096, sa_flags = 0, sa_mask = 0\<rparr>]) 9
     = signal_action_empty"
  using signal_uncatchable
    [of 9 "[Set_action 9 \<lparr>sa_handler = 4096, sa_flags = 0, sa_mask = 0\<rparr>]"] by simp

end
