(* ===== verification/Pty.thy ===== *)
theory Pty
  imports Ring_Buffer Handle_Table Signal
begin

text \<open>
  \<^verbatim>\<open>include/mikos/process/pty.hpp\<close>: the fixed table of pseudo-terminals, with the output
  discipline of the slave side (line feed to carriage return, line feed) and the input
  discipline of the master side (signal characters, flushing and echo). The template
  arguments are \<open>length ts\<close> (\<open>TableCapacity\<close>) and \<open>bcap\<close> (\<open>BufferCapacity\<close>).
\<close>

unbundle bit_operations_syntax

section \<open>Definitions\<close>

datatype pty_end = Pty_master | Pty_slave

record pty_handle =
  th_generation :: u16
  th_slot :: u8

datatype pty_status =
    Pty_success
  | Pty_would_block
  | Pty_end_of_file
  | Pty_io_error
  | Pty_bad_handle
  | Pty_locked
  | Pty_no_space
  | Pty_permission_denied
  | Pty_invalid_argument

record termios_state =
  tm_input_flags :: u32
  tm_output_flags :: u32
  tm_control_flags :: u32
  tm_local_flags :: u32
  tm_line :: u8
  tm_control :: "u8 list"

record window_size =
  ws_rows :: u16
  ws_columns :: u16
  ws_horizontal_pixels :: u16
  ws_vertical_pixels :: u16

record pty =
  ty_master_to_slave :: ring_buffer
  ty_slave_to_master :: ring_buffer
  ty_termios :: termios_state
  ty_window :: window_size
  ty_session :: u32
  ty_foreground_group :: u32
  ty_generation :: u16
  ty_masters :: u16
  ty_slaves :: u16
  ty_mode :: u16
  ty_used :: bool
  ty_locked :: bool

definition termios_default :: termios_state where
  "termios_default = \<lparr>tm_input_flags = 0x500, tm_output_flags = 0x5, tm_control_flags = 0xbf,
     tm_local_flags = 0x803b, tm_line = 0,
     tm_control = [3, 28, 127, 21, 4, 0, 1, 0, 17, 19, 26, 0, 18, 15, 23, 22, 0, 0, 0]\<rparr>"

definition window_default :: window_size where
  "window_default = \<lparr>ws_rows = 24, ws_columns = 80, ws_horizontal_pixels = 0, ws_vertical_pixels = 0\<rparr>"

definition pty_empty :: "u32 \<Rightarrow> pty" where
  "pty_empty bcap = \<lparr>ty_master_to_slave = rb_init bcap, ty_slave_to_master = rb_init bcap,
     ty_termios = termios_default, ty_window = window_default, ty_session = 0,
     ty_foreground_group = 0, ty_generation = 0, ty_masters = 0, ty_slaves = 0, ty_mode = 438,
     ty_used = False, ty_locked = False\<rparr>"

definition invalid_pty_handle :: pty_handle where
  "invalid_pty_handle = \<lparr>th_generation = 0, th_slot = 0xff\<rparr>"

definition pty_table_init :: "u32 \<Rightarrow> nat \<Rightarrow> pty list" where
  "pty_table_init bcap tcap = replicate tcap (pty_empty bcap)"

definition pty_find :: "pty list \<Rightarrow> pty_handle \<Rightarrow> nat option" where
  "pty_find ts h =
     (if length ts \<le> unat (th_slot h) then None
      else let p = ts ! unat (th_slot h)
           in if ty_used p \<and> ty_generation p = th_generation h then Some (unat (th_slot h)) else None)"

fun pty_count :: "pty_end \<Rightarrow> pty \<Rightarrow> u16" where
  "pty_count Pty_master p = ty_masters p"
| "pty_count Pty_slave p = ty_slaves p"

fun set_pty_count :: "pty_end \<Rightarrow> u16 \<Rightarrow> pty \<Rightarrow> pty" where
  "set_pty_count Pty_master n p = p\<lparr>ty_masters := n\<rparr>"
| "set_pty_count Pty_slave n p = p\<lparr>ty_slaves := n\<rparr>"

definition pty_open_master :: "u32 \<Rightarrow> pty list \<Rightarrow> pty list \<times> pty_status \<times> pty_handle" where
  "pty_open_master bcap ts =
     (case first_index (\<lambda>p. \<not> ty_used p) ts of
        None \<Rightarrow> (ts, Pty_no_space, invalid_pty_handle)
      | Some i \<Rightarrow>
          let generation = next_generation (ty_generation (ts ! i))
          in (upd_nth i (\<lambda>_. (pty_empty bcap)\<lparr>ty_used := True, ty_locked := True,
                ty_generation := generation, ty_masters := 1\<rparr>) ts,
              Pty_success, \<lparr>th_generation = generation, th_slot = of_nat i\<rparr>))"

definition pty_set_locked :: "pty list \<Rightarrow> pty_handle \<Rightarrow> bool \<Rightarrow> pty list \<times> pty_status" where
  "pty_set_locked ts h locked =
     (case pty_find ts h of
        None \<Rightarrow> (ts, Pty_bad_handle)
      | Some i \<Rightarrow> if ty_masters (ts ! i) = 0 then (ts, Pty_bad_handle)
                  else (upd_nth i (\<lambda>p. p\<lparr>ty_locked := locked\<rparr>) ts, Pty_success))"

text \<open>The common tail of both ways to open a slave.\<close>

definition pty_open_slot :: "pty list \<Rightarrow> nat \<Rightarrow> pty list \<times> pty_status \<times> pty_handle" where
  "pty_open_slot ts i =
     (if ty_locked (ts ! i) then (ts, Pty_locked, invalid_pty_handle)
      else if ty_slaves (ts ! i) = 0xffff then (ts, Pty_no_space, invalid_pty_handle)
      else (upd_nth i (\<lambda>p. p\<lparr>ty_slaves := ty_slaves p + 1\<rparr>) ts, Pty_success,
            \<lparr>th_generation = ty_generation (ts ! i), th_slot = of_nat i\<rparr>))"

definition pty_open_slave :: "pty list \<Rightarrow> u8 \<Rightarrow> pty list \<times> pty_status \<times> pty_handle" where
  "pty_open_slave ts number =
     (if length ts \<le> unat number \<or> \<not> ty_used (ts ! unat number)
      then (ts, Pty_bad_handle, invalid_pty_handle)
      else pty_open_slot ts (unat number))"

definition pty_open_controlling_slave :: "pty list \<Rightarrow> u32 \<Rightarrow> pty list \<times> pty_status \<times> pty_handle" where
  "pty_open_controlling_slave ts session =
     (if session = 0 then (ts, Pty_bad_handle, invalid_pty_handle)
      else case first_index (\<lambda>p. ty_used p \<and> ty_session p = session) ts of
             None \<Rightarrow> (ts, Pty_bad_handle, invalid_pty_handle)
           | Some i \<Rightarrow> pty_open_slot ts i)"

definition pty_retain :: "pty list \<Rightarrow> pty_handle \<Rightarrow> pty_end \<Rightarrow> pty list \<times> pty_status" where
  "pty_retain ts h e =
     (case pty_find ts h of
        None \<Rightarrow> (ts, Pty_bad_handle)
      | Some i \<Rightarrow>
          let references = pty_count e (ts ! i)
          in if references = 0 \<or> references = 0xffff
             then (ts, if references = 0 then Pty_bad_handle else Pty_no_space)
             else (upd_nth i (\<lambda>p. set_pty_count e (references + 1) p) ts, Pty_success))"

definition pty_drop :: "u32 \<Rightarrow> pty_end \<Rightarrow> pty \<Rightarrow> pty" where
  "pty_drop bcap e p =
     (let q = set_pty_count e (pty_count e p - 1) p
      in if ty_masters q = 0 \<and> ty_slaves q = 0
         then (pty_empty bcap)\<lparr>ty_generation := ty_generation p\<rparr> else q)"

definition pty_release :: "u32 \<Rightarrow> pty list \<Rightarrow> pty_handle \<Rightarrow> pty_end \<Rightarrow> pty list \<times> pty_status" where
  "pty_release bcap ts h e =
     (case pty_find ts h of
        None \<Rightarrow> (ts, Pty_bad_handle)
      | Some i \<Rightarrow>
          if pty_count e (ts ! i) = 0 then (ts, Pty_bad_handle)
          else (upd_nth i (pty_drop bcap e) ts, Pty_success))"

text \<open>The ring an end reads from, the ring it writes to, and whether its peer is closed.\<close>

fun pty_in :: "pty_end \<Rightarrow> pty \<Rightarrow> ring_buffer" where
  "pty_in Pty_master p = ty_slave_to_master p"
| "pty_in Pty_slave p = ty_master_to_slave p"

fun set_pty_in :: "pty_end \<Rightarrow> ring_buffer \<Rightarrow> pty \<Rightarrow> pty" where
  "set_pty_in Pty_master rb p = p\<lparr>ty_slave_to_master := rb\<rparr>"
| "set_pty_in Pty_slave rb p = p\<lparr>ty_master_to_slave := rb\<rparr>"

fun pty_out :: "pty_end \<Rightarrow> pty \<Rightarrow> ring_buffer" where
  "pty_out Pty_master p = ty_master_to_slave p"
| "pty_out Pty_slave p = ty_slave_to_master p"

fun pty_peer_closed :: "pty_end \<Rightarrow> pty \<Rightarrow> bool" where
  "pty_peer_closed Pty_master p \<longleftrightarrow> ty_slaves p = 0"
| "pty_peer_closed Pty_slave p \<longleftrightarrow> ty_masters p = 0"

definition pty_read ::
  "u32 \<Rightarrow> pty list \<Rightarrow> pty_handle \<Rightarrow> pty_end \<Rightarrow> u32 \<Rightarrow> pty list \<times> pty_status \<times> u8 list" where
  "pty_read bcap ts h e count =
     (case pty_find ts h of
        None \<Rightarrow> (ts, Pty_bad_handle, [])
      | Some i \<Rightarrow>
          if pty_count e (ts ! i) = 0 then (ts, Pty_bad_handle, [])
          else if count = 0 then (ts, Pty_success, [])
          else if \<not> rb_empty (pty_in e (ts ! i)) then
            (let (rb, output) = rb_read bcap (pty_in e (ts ! i)) count
             in (upd_nth i (set_pty_in e rb) ts, Pty_success, output))
          else if pty_peer_closed e (ts ! i) then (ts, Pty_end_of_file, [])
          else (ts, Pty_would_block, []))"

text \<open>The output loop: a translated line feed is stored as two bytes or not at all.\<close>

fun slave_output :: "u32 \<Rightarrow> bool \<Rightarrow> ring_buffer \<Rightarrow> u8 list \<Rightarrow> ring_buffer \<times> u32" where
  "slave_output bcap translate rb [] = (rb, 0)"
| "slave_output bcap translate rb (c # cs) =
     (if translate \<and> c = 10 then
        (if rb_free_space bcap rb < 2 then (rb, 0)
         else let (rb', n) = slave_output bcap translate (fst (rb_write bcap rb [13, 10])) cs in (rb', n + 1))
      else if rb_full bcap rb then (rb, 0)
      else let (rb', n) = slave_output bcap translate (fst (rb_write bcap rb [c])) cs in (rb', n + 1))"

definition termios_translates :: "termios_state \<Rightarrow> bool" where
  "termios_translates t \<longleftrightarrow> tm_output_flags t AND (0x1 OR 0x4) = 0x1 OR 0x4"

text \<open>The signal a character generates under \<open>ISIG\<close>, zero for none.\<close>

definition termios_signal :: "termios_state \<Rightarrow> u8 \<Rightarrow> u8" where
  "termios_signal t c =
     (if tm_local_flags t AND 0x1 \<noteq> 0 then
        (if tm_control t ! 0 \<noteq> 0 \<and> c = tm_control t ! 0 then signal_interrupt
         else if tm_control t ! 1 \<noteq> 0 \<and> c = tm_control t ! 1 then signal_quit
         else if tm_control t ! 10 \<noteq> 0 \<and> c = tm_control t ! 10 then signal_tty_stop
         else 0)
      else 0)"

definition master_signal :: "u32 \<Rightarrow> termios_state \<Rightarrow> u8 \<Rightarrow> ring_buffer \<times> ring_buffer \<Rightarrow> ring_buffer \<times> ring_buffer"
  where
  "master_signal bcap t c rings =
     (let (m2s, s2m) = (if tm_local_flags t AND 0x80 = 0
                        then (rb_clear (fst rings), rb_clear (snd rings)) else rings)
      in if tm_local_flags t AND 0x8 \<noteq> 0 then
           (if tm_local_flags t AND 0x200 \<noteq> 0 \<and> c < 32
            then (m2s, fst (rb_write bcap s2m [94, c + 64]))
            else (m2s, fst (rb_write bcap s2m [c])))
         else (m2s, s2m))"

fun master_input ::
  "u32 \<Rightarrow> termios_state \<Rightarrow> ring_buffer \<times> ring_buffer \<Rightarrow> u8 list \<Rightarrow> (ring_buffer \<times> ring_buffer) \<times> u32 \<times> u64"
  where
  "master_input bcap t rings [] = (rings, 0, 0)"
| "master_input bcap t rings (c # cs) =
     (if termios_signal t c = 0 then
        (if rb_full bcap (fst rings) then (rings, 0, 0)
         else let (rings', n, g) = master_input bcap t (fst (rb_write bcap (fst rings) [c]), snd rings) cs
              in (rings', n + 1, g))
      else let (rings', n, g) = master_input bcap t (master_signal bcap t c rings) cs
           in (rings', n + 1, signal_bit (termios_signal t c) OR g))"

definition pty_write ::
  "u32 \<Rightarrow> pty list \<Rightarrow> pty_handle \<Rightarrow> pty_end \<Rightarrow> u8 list \<Rightarrow> pty list \<times> pty_status \<times> u32 \<times> u64" where
  "pty_write bcap ts h e input =
     (case pty_find ts h of
        None \<Rightarrow> (ts, Pty_bad_handle, 0, 0)
      | Some i \<Rightarrow>
          let p = ts ! i
          in if pty_count e p = 0 then (ts, Pty_bad_handle, 0, 0)
             else if (of_nat (length input) :: u32) = 0 then (ts, Pty_success, 0, 0)
             else if pty_peer_closed e p then (ts, Pty_io_error, 0, 0)
             else (case e of
                 Pty_slave \<Rightarrow>
                   (let (rb, consumed) = slave_output bcap (termios_translates (ty_termios p))
                                           (ty_slave_to_master p) input;
                        ts' = upd_nth i (\<lambda>p. p\<lparr>ty_slave_to_master := rb\<rparr>) ts
                    in if consumed = 0 then (ts', Pty_would_block, 0, 0)
                       else (ts', Pty_success, consumed, 0))
               | Pty_master \<Rightarrow>
                   (let (rings, consumed, signals) = master_input bcap (ty_termios p)
                                           (ty_master_to_slave p, ty_slave_to_master p) input;
                        ts' = upd_nth i (\<lambda>p. p\<lparr>ty_master_to_slave := fst rings,
                                                ty_slave_to_master := snd rings\<rparr>) ts
                    in if consumed = 0 then (ts', Pty_would_block, 0, signals)
                       else (ts', Pty_success, consumed, signals))))"

definition pty_acquire_controlling_terminal ::
  "pty list \<Rightarrow> pty_handle \<Rightarrow> u32 \<Rightarrow> u32 \<Rightarrow> u32 \<Rightarrow> bool \<Rightarrow> pty list \<times> pty_status" where
  "pty_acquire_controlling_terminal ts h pid process_group session force =
     (case pty_find ts h of
        None \<Rightarrow> (ts, Pty_bad_handle)
      | Some i \<Rightarrow>
          if ty_slaves (ts ! i) = 0 then (ts, Pty_bad_handle)
          else if pid \<noteq> session then (ts, Pty_permission_denied)
          else if ty_session (ts ! i) \<noteq> 0 \<and> ty_session (ts ! i) \<noteq> session \<and> \<not> force
          then (ts, Pty_permission_denied)
          else (upd_nth i (\<lambda>p. p\<lparr>ty_session := session, ty_foreground_group := process_group\<rparr>) ts,
                Pty_success))"

definition pty_detach :: "pty list \<Rightarrow> pty_handle \<Rightarrow> u32 \<Rightarrow> pty list \<times> pty_status" where
  "pty_detach ts h session =
     (case pty_find ts h of
        None \<Rightarrow> (ts, Pty_bad_handle)
      | Some i \<Rightarrow>
          if ty_session (ts ! i) \<noteq> session then (ts, Pty_permission_denied)
          else (upd_nth i (\<lambda>p. p\<lparr>ty_session := 0, ty_foreground_group := 0\<rparr>) ts, Pty_success))"

definition pty_set_foreground_group :: "pty list \<Rightarrow> pty_handle \<Rightarrow> u32 \<Rightarrow> u32 \<Rightarrow> pty list \<times> pty_status"
  where
  "pty_set_foreground_group ts h session grp =
     (case pty_find ts h of
        None \<Rightarrow> (ts, Pty_bad_handle)
      | Some i \<Rightarrow>
          if grp = 0 then (ts, Pty_invalid_argument)
          else if ty_session (ts ! i) = 0 \<or> ty_session (ts ! i) \<noteq> session then (ts, Pty_permission_denied)
          else (upd_nth i (\<lambda>p. p\<lparr>ty_foreground_group := grp\<rparr>) ts, Pty_success))"

definition pty_foreground_group :: "pty list \<Rightarrow> pty_handle \<Rightarrow> u32" where
  "pty_foreground_group ts h =
     (case pty_find ts h of None \<Rightarrow> 0 | Some i \<Rightarrow> ty_foreground_group (ts ! i))"

definition pty_session :: "pty list \<Rightarrow> pty_handle \<Rightarrow> u32" where
  "pty_session ts h = (case pty_find ts h of None \<Rightarrow> 0 | Some i \<Rightarrow> ty_session (ts ! i))"

definition pty_set_termios :: "pty list \<Rightarrow> pty_handle \<Rightarrow> termios_state \<Rightarrow> pty list \<times> pty_status" where
  "pty_set_termios ts h value =
     (case pty_find ts h of
        None \<Rightarrow> (ts, Pty_bad_handle)
      | Some i \<Rightarrow> (upd_nth i (\<lambda>p. p\<lparr>ty_termios := value\<rparr>) ts, Pty_success))"

definition pty_termios :: "pty list \<Rightarrow> pty_handle \<Rightarrow> termios_state option" where
  "pty_termios ts h = map_option (\<lambda>i. ty_termios (ts ! i)) (pty_find ts h)"

definition pty_set_window :: "pty list \<Rightarrow> pty_handle \<Rightarrow> window_size \<Rightarrow> pty list \<times> pty_status \<times> bool option"
  where
  "pty_set_window ts h value =
     (case pty_find ts h of
        None \<Rightarrow> (ts, Pty_bad_handle, None)
      | Some i \<Rightarrow> (upd_nth i (\<lambda>p. p\<lparr>ty_window := value\<rparr>) ts, Pty_success,
                   Some (ty_window (ts ! i) \<noteq> value)))"

definition pty_window :: "pty list \<Rightarrow> pty_handle \<Rightarrow> window_size option" where
  "pty_window ts h = map_option (\<lambda>i. ty_window (ts ! i)) (pty_find ts h)"

definition pty_readable :: "pty list \<Rightarrow> pty_handle \<Rightarrow> pty_end \<Rightarrow> bool" where
  "pty_readable ts h e =
     (case pty_find ts h of
        None \<Rightarrow> False
      | Some i \<Rightarrow> pty_count e (ts ! i) \<noteq> 0 \<and>
                  (\<not> rb_empty (pty_in e (ts ! i)) \<or> pty_peer_closed e (ts ! i)))"

definition pty_writable :: "u32 \<Rightarrow> pty list \<Rightarrow> pty_handle \<Rightarrow> pty_end \<Rightarrow> bool" where
  "pty_writable bcap ts h e =
     (case pty_find ts h of
        None \<Rightarrow> False
      | Some i \<Rightarrow> pty_count e (ts ! i) \<noteq> 0 \<and> \<not> pty_peer_closed e (ts ! i) \<and>
                  \<not> rb_full bcap (pty_out e (ts ! i)))"

definition pty_used :: "pty list \<Rightarrow> u32" where
  "pty_used ts = of_nat (length (filter ty_used ts))"

definition pty_active :: "pty list \<Rightarrow> u8 \<Rightarrow> bool" where
  "pty_active ts number \<longleftrightarrow> unat number < length ts \<and> ty_used (ts ! unat number)"

definition pty_mode :: "pty list \<Rightarrow> u8 \<Rightarrow> u16" where
  "pty_mode ts number = (if pty_active ts number then ty_mode (ts ! unat number) else 0)"

definition pty_set_mode :: "pty list \<Rightarrow> u8 \<Rightarrow> u16 \<Rightarrow> pty list \<times> pty_status" where
  "pty_set_mode ts number mode =
     (if \<not> pty_active ts number then (ts, Pty_bad_handle)
      else (upd_nth (unat number) (\<lambda>p. p\<lparr>ty_mode := mode AND 0xfff\<rparr>) ts, Pty_success))"

section \<open>Well-formed tables\<close>

definition pty_ok :: "u32 \<Rightarrow> pty \<Rightarrow> bool" where
  "pty_ok bcap p \<longleftrightarrow>
     rb_invar bcap (ty_master_to_slave p) \<and> rb_invar bcap (ty_slave_to_master p) \<and>
     (if ty_used p then ty_generation p \<noteq> 0 \<and> (ty_masters p \<noteq> 0 \<or> ty_slaves p \<noteq> 0)
      else ty_masters p = 0 \<and> ty_slaves p = 0 \<and> ty_session p = 0)"

definition pty_table_ok :: "u32 \<Rightarrow> pty list \<Rightarrow> bool" where
  "pty_table_ok bcap ts \<longleftrightarrow>
     0 < unat bcap \<and> unat bcap \<le> 2 ^ 31 \<and> ts \<noteq> [] \<and> length ts \<le> 255 \<and> list_all (pty_ok bcap) ts"

interpretation ptys: handle_table pty_find ty_used ty_generation th_slot th_generation
  by unfold_locales (auto simp: pty_find_def Let_def)

lemma pty_table_ok_nth: "pty_table_ok bcap ts \<Longrightarrow> i < length ts \<Longrightarrow> pty_ok bcap (ts ! i)"
  by (simp add: pty_table_ok_def list_all_length)

lemma pty_table_ok_found:
  "pty_table_ok bcap ts \<Longrightarrow> pty_find ts h = Some i \<Longrightarrow> pty_ok bcap (ts ! i) \<and> ty_used (ts ! i)"
  by (auto simp: ptys.tfind_Some_iff pty_table_ok_nth)

lemma pty_table_ok_upd:
  "pty_table_ok bcap ts \<Longrightarrow> (i < length ts \<Longrightarrow> pty_ok bcap (f (ts ! i))) \<Longrightarrow>
   pty_table_ok bcap (upd_nth i f ts)"
  by (auto simp: pty_table_ok_def intro: list_all_upd_nth)

lemma pty_empty_ok:
  "pty_table_ok bcap ts \<Longrightarrow> pty_ok bcap ((pty_empty bcap)\<lparr>ty_generation := g\<rparr>)"
  by (simp add: pty_ok_def pty_table_ok_def pty_empty_def rb_init_invar)

lemma pty_table_init_ok:
  "0 < unat bcap \<Longrightarrow> unat bcap \<le> 2 ^ 31 \<Longrightarrow> 0 < tcap \<Longrightarrow> tcap \<le> 255 \<Longrightarrow>
   pty_table_ok bcap (pty_table_init bcap tcap)"
  by (simp add: pty_table_ok_def pty_table_init_def list_all_length pty_ok_def pty_empty_def rb_init_invar)

section \<open>Output discipline\<close>

text \<open>The reference translation: every line feed becomes carriage return, line feed.\<close>

definition onlcr :: "bool \<Rightarrow> u8 list \<Rightarrow> u8 list" where
  "onlcr translate xs = (if translate then concat (map (\<lambda>c. if c = 10 then [13, 10] else [c]) xs) else xs)"

lemma onlcr_append: "onlcr t (xs @ ys) = onlcr t xs @ onlcr t ys"
  by (simp add: onlcr_def)

lemma onlcr_Cons: "onlcr t (c # cs) = (if t \<and> c = 10 then [13, 10] else [c]) @ onlcr t cs"
  by (simp add: onlcr_def)

lemma onlcr_Nil [simp]: "onlcr t [] = []"
  by (simp add: onlcr_def)

lemma unat_inc_le: "unat (n :: u32) \<le> k \<Longrightarrow> Suc k < 2 ^ 32 \<Longrightarrow> unat (n + 1) = Suc (unat n)"
  using unat_add_u32 [of n 1] by simp

text \<open>Storing one expansion: it goes in whole when it fits.\<close>

lemma rb_write_fits:
  assumes "rb_invar bcap rb" and "length (rb_list bcap rb) + length xs \<le> unat bcap"
  shows "rb_invar bcap (fst (rb_write bcap rb xs))"
    and "rb_list bcap (fst (rb_write bcap rb xs)) = rb_list bcap rb @ xs"
proof -
  have "length xs \<le> unat (rb_free_space bcap rb)"
    using ring.free_list [OF assms(1)] assms(2) by simp
  then show "rb_list bcap (fst (rb_write bcap rb xs)) = rb_list bcap rb @ xs"
    and "rb_invar bcap (fst (rb_write bcap rb xs))"
    using ring.write_all(1) [OF assms(1)] ring.write_invar [OF assms(1) le_unat_u32] by blast+
qed

definition slave_output_spec :: "u32 \<Rightarrow> bool \<Rightarrow> u8 list \<Rightarrow> u8 list \<Rightarrow> ring_buffer \<Rightarrow> u32 \<Rightarrow> bool" where
  "slave_output_spec bcap t before input rb n \<longleftrightarrow>
     rb_invar bcap rb \<and> unat n \<le> length input \<and>
     rb_list bcap rb = before @ onlcr t (take (unat n) input) \<and>
     (unat n < length input \<longrightarrow>
       unat bcap < length (rb_list bcap rb) + length (onlcr t [input ! unat n]))"

lemma slave_output_step:
  assumes "slave_output_spec bcap t (before @ onlcr t [c]) cs rb n" and "length (c # cs) < 2 ^ 32"
  shows "slave_output_spec bcap t before (c # cs) rb (n + 1)"
proof -
  have "unat n \<le> length cs" using assms(1) by (simp add: slave_output_spec_def)
  then have "unat (n + 1) = Suc (unat n)" using assms(2) by (intro unat_inc_le) auto
  then show ?thesis
    using assms(1) onlcr_append [of t "[c]" "take (unat n) cs"]
    by (auto simp: slave_output_spec_def simp del: length_rb_list)
qed

lemma slave_output_correct:
  "rb_invar bcap rb \<Longrightarrow> length input < 2 ^ 32 \<Longrightarrow> slave_output bcap t rb input = (rb', n) \<Longrightarrow>
   slave_output_spec bcap t (rb_list bcap rb) input rb' n"
proof (induction input arbitrary: rb rb' n)
  case Nil
  then show ?case by (simp add: slave_output_spec_def)
next
  case (Cons c cs)
  define out where "out = onlcr t [c]"
  let ?store = "fst (rb_write bcap rb out)"
  show ?case
  proof (cases "length (rb_list bcap rb) + length out \<le> unat bcap")
    case True
    note stored = rb_write_fits [OF Cons.prems(1) True]
    obtain rb1 n1 where rec: "slave_output bcap t ?store cs = (rb1, n1)" by force
    have "slave_output bcap t rb (c # cs) = (rb1, n1 + 1)"
      using True rec Cons.prems(1) rb_full_list [OF Cons.prems(1)] rb_free_space_nat [OF Cons.prems(1)]
      by (auto simp: out_def onlcr_Cons word_less_nat_alt split: if_splits)
    then have res: "rb' = rb1" "n = n1 + 1" using Cons.prems(3) by auto
    have "slave_output_spec bcap t (rb_list bcap rb @ onlcr t [c]) cs rb1 n1"
      using Cons.IH [OF stored(1) _ rec] Cons.prems(2) stored(2) by (simp add: out_def)
    with Cons.prems(2) show ?thesis by (simp only: res slave_output_step)
  next
    case False
    have "slave_output bcap t rb (c # cs) = (rb, 0)"
      using False ring.list_bound [OF Cons.prems(1)] rb_full_list [OF Cons.prems(1)]
        rb_free_space_nat [OF Cons.prems(1)]
      by (auto simp: out_def onlcr_Cons word_less_nat_alt split: if_splits)
    with False Cons.prems show ?thesis by (auto simp: slave_output_spec_def out_def)
  qed
qed

section \<open>Input discipline\<close>

text \<open>The reference input queue: ordinary bytes are appended; a signal character empties the
  queue unless \<open>NOFLSH\<close> is set.\<close>

definition noflsh :: "termios_state \<Rightarrow> bool" where
  "noflsh t \<longleftrightarrow> tm_local_flags t AND 0x80 \<noteq> 0"

definition ordinary :: "termios_state \<Rightarrow> u8 \<Rightarrow> bool" where
  "ordinary t c \<longleftrightarrow> termios_signal t c = 0"

definition master_queue :: "termios_state \<Rightarrow> u8 list \<Rightarrow> u8 list \<Rightarrow> u8 list" where
  "master_queue t q xs =
     (if noflsh t \<or> list_all (ordinary t) xs then q @ filter (ordinary t) xs
      else rev (takeWhile (ordinary t) (rev xs)))"

lemma master_queue_Nil [simp]: "master_queue t q [] = q"
  by (simp add: master_queue_def)

lemma takeWhile_rev_Cons:
  "rev (takeWhile P (rev (c # cs))) =
     (if list_all P cs then (if P c then c # cs else cs) else rev (takeWhile P (rev cs)))"
proof (cases "list_all P cs")
  case True
  then have "takeWhile P (rev cs @ [c]) = rev cs @ takeWhile P [c]"
    by (intro takeWhile_append2) (simp add: list_all_iff)
  with True show ?thesis by simp
next
  case False
  then obtain x where "x \<in> set (rev cs)" "\<not> P x" by (auto simp: list_all_iff)
  then have "takeWhile P (rev cs @ [c]) = takeWhile P (rev cs)" by (rule takeWhile_append1)
  with False show ?thesis by simp
qed

lemma filter_all: "list_all P xs \<Longrightarrow> filter P xs = xs"
  by (simp add: list_all_iff)

lemma master_queue_ordinary: "ordinary t c \<Longrightarrow> master_queue t q (c # cs) = master_queue t (q @ [c]) cs"
  by (auto simp: master_queue_def takeWhile_rev_Cons simp del: rev.simps)

lemma master_queue_signal:
  "\<not> ordinary t c \<Longrightarrow> master_queue t q (c # cs) = master_queue t (if noflsh t then q else []) cs"
  by (auto simp: master_queue_def takeWhile_rev_Cons filter_all simp del: rev.simps)

definition generated :: "termios_state \<Rightarrow> u8 list \<Rightarrow> u64" where
  "generated t xs = foldr (\<lambda>c g. (if ordinary t c then 0 else signal_bit (termios_signal t c)) OR g) xs 0"

lemma generated_simps [simp]:
  "generated t [] = 0"
  "generated t (c # cs) = (if ordinary t c then 0 else signal_bit (termios_signal t c)) OR generated t cs"
  by (simp_all add: generated_def)

text \<open>The reference echo: a consumed signal character is echoed behind what the master has not read yet,
  or behind nothing unless \<open>NOFLSH\<close> is set, as far as the capacity allows; with \<open>ECHOCTL\<close> a control character is
  echoed as a caret and a letter.\<close>

definition echo_bytes :: "termios_state \<Rightarrow> u8 \<Rightarrow> u8 list" where
  "echo_bytes t c =
     (if tm_local_flags t AND 0x8 = 0 then []
      else if tm_local_flags t AND 0x200 \<noteq> 0 \<and> c < 32 then [94, c + 64] else [c])"

fun echo_queue :: "nat \<Rightarrow> termios_state \<Rightarrow> u8 list \<Rightarrow> u8 list \<Rightarrow> u8 list" where
  "echo_queue cap t q [] = q"
| "echo_queue cap t q (c # cs) =
     echo_queue cap t (if ordinary t c then q else take cap ((if noflsh t then q else []) @ echo_bytes t c)) cs"

lemma rb_write_list_take:
  assumes "rb_invar cap rb" and "length xs < 2 ^ 32"
  shows "rb_list cap (fst (rb_write cap rb xs)) = take (unat cap) (rb_list cap rb @ xs)"
proof -
  have "length (rb_list cap rb) \<le> unat cap" by (rule ring.list_bound [OF assms(1)])
  with rb_write_list [OF assms] show ?thesis
    by (simp add: rb_amount_def min_def del: length_rb_list)
qed

lemma master_signal_rings:
  assumes "rb_invar bcap (fst r)" and "rb_invar bcap (snd r)"
  shows "rb_invar bcap (fst (master_signal bcap t c r))" and "rb_invar bcap (snd (master_signal bcap t c r))"
    and "rb_list bcap (fst (master_signal bcap t c r)) = (if noflsh t then rb_list bcap (fst r) else [])"
    and "rb_list bcap (snd (master_signal bcap t c r)) =
      take (unat bcap) ((if noflsh t then rb_list bcap (snd r) else []) @ echo_bytes t c)"
proof -
  show "rb_invar bcap (fst (master_signal bcap t c r))" "rb_invar bcap (snd (master_signal bcap t c r))"
    "rb_list bcap (fst (master_signal bcap t c r)) = (if noflsh t then rb_list bcap (fst r) else [])"
    using assms
    by (cases r; auto simp: master_signal_def noflsh_def Let_def intro!: ring.write_invar ring.clear_invar)+
  have "length (rb_list bcap (snd r)) \<le> unat bcap" by (rule ring.list_bound [OF assms(2)])
  then show "rb_list bcap (snd (master_signal bcap t c r)) =
      take (unat bcap) ((if noflsh t then rb_list bcap (snd r) else []) @ echo_bytes t c)"
    using assms
    by (cases r; auto simp: master_signal_def noflsh_def echo_bytes_def Let_def rb_write_list_take rb_clear_invar
        simp del: length_rb_list)
qed

definition master_input_spec ::
  "u32 \<Rightarrow> termios_state \<Rightarrow> u8 list \<Rightarrow> u8 list \<Rightarrow> u8 list \<Rightarrow> ring_buffer \<times> ring_buffer \<Rightarrow> u32 \<Rightarrow> u64 \<Rightarrow> bool" where
  "master_input_spec bcap t before echo input rings n g \<longleftrightarrow>
     rb_invar bcap (fst rings) \<and> rb_invar bcap (snd rings) \<and> unat n \<le> length input \<and>
     rb_list bcap (fst rings) = master_queue t before (take (unat n) input) \<and>
     rb_list bcap (snd rings) = echo_queue (unat bcap) t echo (take (unat n) input) \<and>
     g = generated t (take (unat n) input) \<and>
     (unat n < length input \<longrightarrow>
       ordinary t (input ! unat n) \<and> length (rb_list bcap (fst rings)) = unat bcap)"

lemma master_input_step:
  assumes "master_input_spec bcap t (master_queue t before [c]) (echo_queue (unat bcap) t echo [c]) cs r n g"
    and "length (c # cs) < 2 ^ 32"
  shows "master_input_spec bcap t before echo (c # cs) r (n + 1)
     ((if ordinary t c then 0 else signal_bit (termios_signal t c)) OR g)"
proof -
  have "unat n \<le> length cs" using assms(1) by (simp add: master_input_spec_def)
  then have "unat (n + 1) = Suc (unat n)" using assms(2) by (intro unat_inc_le) auto
  then show ?thesis
    using assms(1)
    by (cases "ordinary t c")
      (auto simp: master_input_spec_def master_queue_ordinary master_queue_signal
        simp del: length_rb_list)
qed

lemma master_input_correct:
  "rb_invar bcap (fst r) \<Longrightarrow> rb_invar bcap (snd r) \<Longrightarrow> length input < 2 ^ 32 \<Longrightarrow>
   master_input bcap t r input = (r', n, g) \<Longrightarrow>
   master_input_spec bcap t (rb_list bcap (fst r)) (rb_list bcap (snd r)) input r' n g"
proof (induction input arbitrary: r r' n g)
  case Nil
  then show ?case by (simp add: master_input_spec_def)
next
  case (Cons c cs)
  have full: "rb_full bcap (fst r) \<longleftrightarrow> length (rb_list bcap (fst r)) = unat bcap"
    using rb_full_list [OF Cons.prems(1)] .
  consider (sig) "\<not> ordinary t c" | (stop) "ordinary t c" "rb_full bcap (fst r)"
    | (store) "ordinary t c" "\<not> rb_full bcap (fst r)" by blast
  then show ?case
  proof cases
    case sig
    obtain r1 n1 g1 where rec: "master_input bcap t (master_signal bcap t c r) cs = (r1, n1, g1)"
      by (metis prod_cases3)
    have res: "r' = r1" "n = n1 + 1" "g = signal_bit (termios_signal t c) OR g1"
      using sig rec Cons.prems(4) by (auto simp: ordinary_def)
    have "master_input_spec bcap t (master_queue t (rb_list bcap (fst r)) [c])
        (echo_queue (unat bcap) t (rb_list bcap (snd r)) [c]) cs r1 n1 g1"
      using Cons.IH [OF master_signal_rings(1,2) [OF Cons.prems(1,2)] _ rec] Cons.prems(3) sig
      by (simp add: master_signal_rings(3,4) [OF Cons.prems(1,2)] master_queue_signal)
    from master_input_step [OF this Cons.prems(3)] sig show ?thesis by (simp add: res)
  next
    case stop
    then have "r' = r" "n = 0" "g = 0" using Cons.prems(4) by (auto simp: ordinary_def)
    with stop full Cons.prems show ?thesis by (simp add: master_input_spec_def)
  next
    case store
    let ?r = "(fst (rb_write bcap (fst r) [c]), snd r)"
    have "length (rb_list bcap (fst r)) + length [c] \<le> unat bcap"
      using store(2) full ring.list_bound [OF Cons.prems(1)] by simp
    note stored = rb_write_fits [OF Cons.prems(1) this]
    obtain r1 n1 g1 where rec: "master_input bcap t ?r cs = (r1, n1, g1)" by (metis prod_cases3)
    have res: "r' = r1" "n = n1 + 1" "g = g1"
      using store rec Cons.prems(4) by (auto simp: ordinary_def)
    have "master_input_spec bcap t (master_queue t (rb_list bcap (fst r)) [c])
        (echo_queue (unat bcap) t (rb_list bcap (snd r)) [c]) cs r1 n1 g1"
      using Cons.IH [OF _ _ _ rec] stored Cons.prems(2,3) store(1)
      by (simp add: master_queue_ordinary)
    from master_input_step [OF this Cons.prems(3)] store show ?thesis by (simp add: res)
  qed
qed

section \<open>Operations as steps\<close>

datatype pty_op =
    Pty_open_master_op
  | Pty_set_locked_op pty_handle bool
  | Pty_open_slave_op u8
  | Pty_open_controlling_op u32
  | Pty_retain_op pty_handle pty_end
  | Pty_release_op pty_handle pty_end
  | Pty_read_op pty_handle pty_end u32
  | Pty_write_op pty_handle pty_end "u8 list"
  | Pty_acquire_op pty_handle u32 u32 u32 bool
  | Pty_detach_op pty_handle u32
  | Pty_foreground_op pty_handle u32 u32
  | Pty_termios_op pty_handle termios_state
  | Pty_window_op pty_handle window_size
  | Pty_mode_op u8 u16

fun pty_exec :: "u32 \<Rightarrow> pty list \<Rightarrow> pty_op \<Rightarrow> pty list" where
  "pty_exec bcap ts Pty_open_master_op = fst (pty_open_master bcap ts)"
| "pty_exec bcap ts (Pty_set_locked_op h b) = fst (pty_set_locked ts h b)"
| "pty_exec bcap ts (Pty_open_slave_op n) = fst (pty_open_slave ts n)"
| "pty_exec bcap ts (Pty_open_controlling_op session) = fst (pty_open_controlling_slave ts session)"
| "pty_exec bcap ts (Pty_retain_op h e) = fst (pty_retain ts h e)"
| "pty_exec bcap ts (Pty_release_op h e) = fst (pty_release bcap ts h e)"
| "pty_exec bcap ts (Pty_read_op h e n) = fst (pty_read bcap ts h e n)"
| "pty_exec bcap ts (Pty_write_op h e bs) = fst (pty_write bcap ts h e bs)"
| "pty_exec bcap ts (Pty_acquire_op h pid pg session force) =
     fst (pty_acquire_controlling_terminal ts h pid pg session force)"
| "pty_exec bcap ts (Pty_detach_op h session) = fst (pty_detach ts h session)"
| "pty_exec bcap ts (Pty_foreground_op h session grp) = fst (pty_set_foreground_group ts h session grp)"
| "pty_exec bcap ts (Pty_termios_op h t) = fst (pty_set_termios ts h t)"
| "pty_exec bcap ts (Pty_window_op h w) = fst (pty_set_window ts h w)"
| "pty_exec bcap ts (Pty_mode_op n m) = fst (pty_set_mode ts n m)"

fun pty_op_ok :: "pty_op \<Rightarrow> bool" where
  "pty_op_ok (Pty_write_op h e bs) \<longleftrightarrow> length bs < 2 ^ 32"
| "pty_op_ok _ \<longleftrightarrow> True"

inductive pty_reachable :: "u32 \<Rightarrow> nat \<Rightarrow> pty list \<Rightarrow> bool" for bcap :: u32 and tcap :: nat where
  pty_start: "pty_reachable bcap tcap (pty_table_init bcap tcap)"
| pty_step: "pty_reachable bcap tcap ts \<Longrightarrow> pty_op_ok op \<Longrightarrow> pty_reachable bcap tcap (pty_exec bcap ts op)"

lemma pty_open_slot_ok:
  assumes "pty_table_ok bcap ts" and "i < length ts" and "ty_used (ts ! i)"
  shows "pty_table_ok bcap (fst (pty_open_slot ts i))"
  using assms pty_table_ok_nth [OF assms(1,2)]
  by (auto simp: pty_open_slot_def pty_ok_def u16_inc_nonzero intro!: pty_table_ok_upd)

lemma pty_open_ok:
  assumes "pty_table_ok bcap ts"
  shows "pty_table_ok bcap (fst (pty_open_master bcap ts))"
    and "pty_table_ok bcap (fst (pty_open_slave ts n))"
    and "pty_table_ok bcap (fst (pty_open_controlling_slave ts session))"
proof -
  show "pty_table_ok bcap (fst (pty_open_master bcap ts))"
    using assms pty_empty_ok [OF assms]
    by (auto simp: pty_open_master_def Let_def pty_ok_def pty_empty_def
        split: option.splits intro!: pty_table_ok_upd)
  show "pty_table_ok bcap (fst (pty_open_slave ts n))"
    using assms by (auto simp: pty_open_slave_def intro!: pty_open_slot_ok)
  show "pty_table_ok bcap (fst (pty_open_controlling_slave ts session))"
    using assms
    by (auto simp: pty_open_controlling_slave_def split: option.splits
        dest!: first_index_SomeD intro!: pty_open_slot_ok)
qed

lemma pty_drop_ok:
  assumes "pty_table_ok bcap ts" and "pty_ok bcap p" and "ty_used p"
  shows "pty_ok bcap (pty_drop bcap e p)"
  using assms pty_empty_ok [OF assms(1)]
  by (cases e) (auto simp: pty_drop_def Let_def pty_ok_def)

lemma pty_references_ok:
  assumes "pty_table_ok bcap ts"
  shows "pty_table_ok bcap (fst (pty_retain ts h e))" and "pty_table_ok bcap (fst (pty_release bcap ts h e))"
proof -
  show "pty_table_ok bcap (fst (pty_retain ts h e))"
    using assms pty_table_ok_found [OF assms, of h]
    by (cases e) (auto simp: pty_retain_def Let_def pty_ok_def u16_inc_nonzero
        split: option.splits intro!: pty_table_ok_upd)
  show "pty_table_ok bcap (fst (pty_release bcap ts h e))"
    using assms pty_table_ok_found [OF assms, of h] pty_drop_ok [OF assms]
    by (auto simp: pty_release_def split: option.splits intro!: pty_table_ok_upd)
qed

lemma pty_read_ok:
  assumes "pty_table_ok bcap ts"
  shows "pty_table_ok bcap (fst (pty_read bcap ts h e n))"
  using assms pty_table_ok_found [OF assms, of h]
  by (cases e) (auto simp: pty_read_def Let_def case_prod_beta pty_ok_def
      split: option.splits intro!: pty_table_ok_upd ring.read_invar)

lemma pty_write_ok:
  assumes "pty_table_ok bcap ts" and "length bs < 2 ^ 32"
  shows "pty_table_ok bcap (fst (pty_write bcap ts h e bs))"
proof (cases "pty_find ts h")
  case None
  with assms show ?thesis by (simp add: pty_write_def)
next
  case (Some i)
  with pty_table_ok_found [OF assms(1)] have ok: "pty_ok bcap (ts ! i)" "ty_used (ts ! i)" by auto
  obtain rb n where so: "slave_output bcap (termios_translates (ty_termios (ts ! i)))
      (ty_slave_to_master (ts ! i)) bs = (rb, n)" by force
  obtain r m g where mi: "master_input bcap (ty_termios (ts ! i))
      (ty_master_to_slave (ts ! i), ty_slave_to_master (ts ! i)) bs = (r, m, g)" by (metis prod_cases3)
  have "rb_invar bcap rb"
    using slave_output_correct [OF _ assms(2) so] ok by (simp add: slave_output_spec_def pty_ok_def)
  moreover have "rb_invar bcap (fst r)" "rb_invar bcap (snd r)"
    using master_input_correct [OF _ _ assms(2) mi] ok by (auto simp: master_input_spec_def pty_ok_def)
  ultimately show ?thesis
    using Some ok assms(1)
    by (cases e) (auto simp: pty_write_def Let_def so mi pty_ok_def intro!: pty_table_ok_upd)
qed

lemma pty_fields_ok:
  assumes "pty_table_ok bcap ts"
  shows "pty_table_ok bcap (fst (pty_set_locked ts h b))"
    and "pty_table_ok bcap (fst (pty_acquire_controlling_terminal ts h pid pg session force))"
    and "pty_table_ok bcap (fst (pty_detach ts h session))"
    and "pty_table_ok bcap (fst (pty_set_foreground_group ts h session grp))"
    and "pty_table_ok bcap (fst (pty_set_termios ts h t))"
    and "pty_table_ok bcap (fst (pty_set_window ts h w))"
    and "pty_table_ok bcap (fst (pty_set_mode ts number mode))"
  using assms pty_table_ok_found [OF assms, of h] pty_table_ok_nth [OF assms, of "unat number"]
  by (auto simp: pty_set_locked_def pty_acquire_controlling_terminal_def pty_detach_def
      pty_set_foreground_group_def pty_set_termios_def pty_set_window_def pty_set_mode_def
      pty_active_def pty_ok_def split: option.splits intro!: pty_table_ok_upd)

lemma pty_exec_ok: "pty_table_ok bcap ts \<Longrightarrow> pty_op_ok op \<Longrightarrow> pty_table_ok bcap (pty_exec bcap ts op)"
  by (cases op)
    (simp_all add: pty_open_ok pty_references_ok pty_read_ok pty_write_ok pty_fields_ok)

section \<open>Properties\<close>

text \<open>A table with one pseudo-terminal, unlocked and open on both sides.\<close>

definition demo_pty :: pty_handle where
  "demo_pty = \<lparr>th_generation = 1, th_slot = 0\<rparr>"

definition demo_ptys :: "pty list" where
  "demo_ptys = foldl (pty_exec 8) (pty_table_init 8 1)
     [Pty_open_master_op, Pty_set_locked_op demo_pty False, Pty_open_slave_op 0]"

lemma demo_ptys_ok: "pty_table_ok 8 demo_ptys"
  by (simp add: demo_ptys_def pty_table_init_ok pty_open_ok pty_fields_ok)

lemma demo_ptys_find: "pty_find demo_ptys demo_pty = Some 0"
  by code_simp

lemma demo_ptys_fields:
  "ty_masters (demo_ptys ! 0) = 1" "ty_slaves (demo_ptys ! 0) = 1"
  "rb_list 8 (ty_slave_to_master (demo_ptys ! 0)) = []"
  "rb_list 8 (ty_master_to_slave (demo_ptys ! 0)) = []"
  "termios_translates (ty_termios (demo_ptys ! 0)) = True"
  "ty_session (demo_ptys ! 0) = 0"
  by code_simp+

text \<open>C9: Every table of pseudo-terminals reached by any sequence of the fourteen table
  operations is well formed: both ring buffers of every slot keep their indices in range, a
  slot in use has a non-zero generation and an open end, and a free slot has no references
  and belongs to no session.\<close>

theorem pty_reachable_ok:
  assumes "pty_reachable bcap tcap ts"
    and "0 < unat bcap" and "unat bcap \<le> 2 ^ 31" and "0 < tcap" and "tcap \<le> 255"
  shows "pty_table_ok bcap ts"
  using assms(1)
proof (induction rule: pty_reachable.induct)
  case pty_start
  show ?case by (rule pty_table_init_ok [OF assms(2-5)])
next
  case (pty_step ts op)
  then show ?case by (simp add: pty_exec_ok)
qed

theorem pty_reachable_ok_witness:
  "pty_table_ok 8 (pty_exec 8 (pty_table_init 8 1) Pty_open_master_op)"
proof -
  have "pty_reachable 8 1 (pty_exec 8 (pty_table_init 8 1) Pty_open_master_op)"
    by (intro pty_reachable.intros) simp
  then show ?thesis by (rule pty_reachable_ok) simp_all
qed

text \<open>C7: The terminal output discipline: a slave write with both ends open stores exactly the
  translation of the consumed prefix of its input behind what the master has not read yet
  (every line feed as carriage return, line feed when \<open>OPOST\<close> and \<open>ONLCR\<close> are set), never
  half of a translated line feed, and stops early only where the next byte's translation does
  not fit.\<close>

theorem pty_slave_write:
  assumes "pty_table_ok bcap ts" and "pty_find ts h = Some i" and "input \<noteq> []"
    and "length input < 2 ^ 32" and "ty_slaves (ts ! i) \<noteq> 0" and "ty_masters (ts ! i) \<noteq> 0"
    and "pty_write bcap ts h Pty_slave input = (ts', status, n, signals)"
  defines "translate \<equiv> termios_translates (ty_termios (ts ! i))"
  shows "rb_list bcap (ty_slave_to_master (ts' ! i)) =
       rb_list bcap (ty_slave_to_master (ts ! i)) @ onlcr translate (take (unat n) input) \<and>
    (unat n < length input \<longrightarrow>
       unat bcap < length (rb_list bcap (ty_slave_to_master (ts' ! i))) +
         length (onlcr translate [input ! unat n])) \<and>
    status = (if n = 0 then Pty_would_block else Pty_success) \<and> unat n \<le> length input \<and> signals = 0"
proof -
  have ok: "rb_invar bcap (ty_slave_to_master (ts ! i))" and i: "i < length ts"
    using pty_table_ok_found [OF assms(1,2)] ptys.tfind_bound [OF assms(2)] by (auto simp: pty_ok_def)
  have nz: "(of_nat (length input) :: u32) \<noteq> 0"
    using assms(3,4) by (auto simp: word_unat_eq_iff unat_of_nat)
  obtain rb k where so: "slave_output bcap translate (ty_slave_to_master (ts ! i)) input = (rb, k)"
    by force
  have spec: "slave_output_spec bcap translate (rb_list bcap (ty_slave_to_master (ts ! i))) input rb k"
    by (rule slave_output_correct [OF ok assms(4) so])
  have "ts' = upd_nth i (\<lambda>p. p\<lparr>ty_slave_to_master := rb\<rparr>) ts" "n = k" "signals = 0"
    "status = (if n = 0 then Pty_would_block else Pty_success)"
    using assms(2,5,6,7) nz so [unfolded translate_def]
    by (auto simp: pty_write_def Let_def split: if_splits)
  with spec i show ?thesis by (auto simp: slave_output_spec_def simp del: length_rb_list)
qed

theorem pty_slave_write_witness:
  "\<exists>ts'. pty_write 8 demo_ptys demo_pty Pty_slave [104, 10] = (ts', Pty_success, 2, 0) \<and>
     rb_list 8 (ty_slave_to_master (ts' ! 0)) = [104, 13, 10]"
proof -
  have "snd (pty_write 8 demo_ptys demo_pty Pty_slave [104, 10]) = (Pty_success, 2, 0)"
    by code_simp
  then obtain ts' where w: "pty_write 8 demo_ptys demo_pty Pty_slave [104, 10] = (ts', Pty_success, 2, 0)"
    by (metis prod.collapse)
  from pty_slave_write [OF demo_ptys_ok demo_ptys_find _ _ _ _ w] w show ?thesis
    by (auto simp: demo_ptys_fields onlcr_def)
qed

text \<open>C8: The terminal input discipline: a master write with both ends open leaves in the
  slave's input queue exactly what the reference queue holds after the consumed bytes (the
  ordinary bytes in order; after a signal character, unless \<open>NOFLSH\<close> is set, only the
  bytes after the last one), leaves in the master's input queue exactly the reference echo of the consumed
  signal characters (ordinary bytes are not echoed), reports exactly the signals of the consumed signal
  characters, and stops early only at an ordinary byte that finds the queue full.\<close>

theorem pty_master_write:
  assumes "pty_table_ok bcap ts" and "pty_find ts h = Some i" and "input \<noteq> []"
    and "length input < 2 ^ 32" and "ty_slaves (ts ! i) \<noteq> 0" and "ty_masters (ts ! i) \<noteq> 0"
    and "pty_write bcap ts h Pty_master input = (ts', status, n, signals)"
  defines "t \<equiv> ty_termios (ts ! i)"
  shows "rb_list bcap (ty_master_to_slave (ts' ! i)) =
       master_queue t (rb_list bcap (ty_master_to_slave (ts ! i))) (take (unat n) input) \<and>
    rb_list bcap (ty_slave_to_master (ts' ! i)) =
       echo_queue (unat bcap) t (rb_list bcap (ty_slave_to_master (ts ! i))) (take (unat n) input) \<and>
    signals = generated t (take (unat n) input) \<and>
    (unat n < length input \<longrightarrow> ordinary t (input ! unat n) \<and>
       length (rb_list bcap (ty_master_to_slave (ts' ! i))) = unat bcap) \<and>
    status = (if n = 0 then Pty_would_block else Pty_success) \<and> unat n \<le> length input"
proof -
  have ok: "rb_invar bcap (ty_master_to_slave (ts ! i))" "rb_invar bcap (ty_slave_to_master (ts ! i))"
    and i: "i < length ts"
    using pty_table_ok_found [OF assms(1,2)] ptys.tfind_bound [OF assms(2)] by (auto simp: pty_ok_def)
  have nz: "(of_nat (length input) :: u32) \<noteq> 0"
    using assms(3,4) by (auto simp: word_unat_eq_iff unat_of_nat)
  let ?r = "(ty_master_to_slave (ts ! i), ty_slave_to_master (ts ! i))"
  obtain r k g where mi: "master_input bcap t ?r input = (r, k, g)" by (metis prod_cases3)
  have spec: "master_input_spec bcap t (rb_list bcap (ty_master_to_slave (ts ! i)))
      (rb_list bcap (ty_slave_to_master (ts ! i))) input r k g"
    using master_input_correct [OF _ _ assms(4) mi] ok by simp
  have "ts' = upd_nth i (\<lambda>p. p\<lparr>ty_master_to_slave := fst r, ty_slave_to_master := snd r\<rparr>) ts"
    "n = k" "signals = g" "status = (if n = 0 then Pty_would_block else Pty_success)"
    using assms(2,5,6,7) nz mi [unfolded t_def]
    by (auto simp: pty_write_def Let_def split: if_splits)
  with spec i show ?thesis by (auto simp: master_input_spec_def simp del: length_rb_list)
qed

theorem pty_master_write_witness:
  "\<exists>ts'. pty_write 8 demo_ptys demo_pty Pty_master [97, 3, 98] = (ts', Pty_success, 3, 2) \<and>
     rb_list 8 (ty_master_to_slave (ts' ! 0)) = [98] \<and> rb_list 8 (ty_slave_to_master (ts' ! 0)) = [3]"
proof -
  have "snd (pty_write 8 demo_ptys demo_pty Pty_master [97, 3, 98]) = (Pty_success, 3, 2)"
    by code_simp
  then obtain ts' where w:
    "pty_write 8 demo_ptys demo_pty Pty_master [97, 3, 98] = (ts', Pty_success, 3, 2)"
    by (metis prod.collapse)
  have q: "master_queue (ty_termios (demo_ptys ! 0)) [] [97, 3, 98] = [98]"
    "echo_queue 8 (ty_termios (demo_ptys ! 0)) [] [97, 3, 98] = [3]" by code_simp+
  have "rb_list 8 (ty_master_to_slave (ts' ! 0)) = [98]" "rb_list 8 (ty_slave_to_master (ts' ! 0)) = [3]"
    using pty_master_write [OF demo_ptys_ok demo_ptys_find _ _ _ _ w] q by (simp_all add: demo_ptys_fields)
  with w show ?thesis by blast
qed

text \<open>C10: A pseudo-terminal of a session \<open>s \<noteq> 0\<close> leaves it in three ways only: \<open>s\<close> itself
  detaches it and it then belongs to no session; a session leader acquires it by force and it then belongs to the
  session of that leader; or its last end is released and the slot is free. No other operation, an acquisition that
  is not forced included, moves it to another session.\<close>

theorem pty_session_kept:
  assumes "i < length ts" and "ty_used (ts ! i)" and "ty_session (ts ! i) = s" and "s \<noteq> 0"
    and "ty_session (pty_exec bcap ts op ! i) \<noteq> s"
  shows "(\<exists>h. op = Pty_detach_op h s \<and> pty_find ts h = Some i \<and> ty_session (pty_exec bcap ts op ! i) = 0) \<or>
    (\<exists>h pg leader. op = Pty_acquire_op h leader pg leader True \<and> pty_find ts h = Some i \<and>
       ty_session (pty_exec bcap ts op ! i) = leader) \<or>
    (\<exists>h e. op = Pty_release_op h e \<and> pty_find ts h = Some i \<and> \<not> ty_used (pty_exec bcap ts op ! i))"
proof -
  have free: "first_index (\<lambda>p. \<not> ty_used p) ts = Some j \<Longrightarrow> i \<noteq> j" for j
    using assms(2) by (auto dest: first_index_SomeD)
  have dropped: "ty_session (pty_drop bcap e p) = ty_session p \<or> \<not> ty_used (pty_drop bcap e p)" for e p
    by (cases e) (auto simp: pty_drop_def Let_def pty_empty_def)
  show ?thesis
  proof (cases op)
    case (Pty_release_op h e)
    with assms dropped show ?thesis
      by (fastforce simp: pty_release_def nth_upd_nth split: option.splits if_splits)
  next
    case (Pty_retain_op h e)
    with assms show ?thesis
      by (cases e) (auto simp: pty_retain_def Let_def nth_upd_nth split: option.splits if_splits)
  next
    case (Pty_read_op h e n)
    with assms show ?thesis
      by (cases e) (auto simp: pty_read_def Let_def case_prod_beta nth_upd_nth split: option.splits if_splits)
  next
    case (Pty_write_op h e bs)
    with assms show ?thesis
      by (cases e) (auto simp: pty_write_def Let_def case_prod_beta nth_upd_nth
          split: option.splits if_splits)
  next
    case (Pty_acquire_op h pid pg session force)
    with assms show ?thesis
      by (cases force) (auto simp: pty_acquire_controlling_terminal_def nth_upd_nth split: option.splits if_splits)
  qed (use assms free in \<open>auto simp: pty_open_master_def pty_open_slave_def pty_open_controlling_slave_def
      pty_open_slot_def pty_set_locked_def pty_detach_def pty_set_foreground_group_def
      pty_set_termios_def pty_set_window_def pty_set_mode_def Let_def nth_upd_nth
      split: option.splits if_splits\<close>)
qed

theorem pty_session_kept_witness:
  "let ts = pty_exec 8 demo_ptys (Pty_acquire_op demo_pty 7 7 7 False)
   in ty_session (ts ! 0) = 7 \<and>
      ty_session (pty_exec 8 ts (Pty_acquire_op demo_pty 9 9 9 True) ! 0) = 9 \<and>
      ty_session (pty_exec 8 ts (Pty_acquire_op demo_pty 9 9 9 False) ! 0) = 7"
proof -
  let ?ts = "pty_exec 8 demo_ptys (Pty_acquire_op demo_pty 7 7 7 False)"
  have ts: "0 < length ?ts" "ty_used (?ts ! 0)" "ty_session (?ts ! 0) = 7" "(7 :: u32) \<noteq> 0"
    "ty_session (pty_exec 8 ?ts (Pty_acquire_op demo_pty 9 9 9 True) ! 0) \<noteq> 7"
    by code_simp+
  from pty_session_kept [OF ts]
  have "ty_session (pty_exec 8 ?ts (Pty_acquire_op demo_pty 9 9 9 True) ! 0) = 9" by auto
  moreover have "ty_session (pty_exec 8 ?ts (Pty_acquire_op demo_pty 9 9 9 False) ! 0) = 7"
    using pty_session_kept [OF ts(1-4), of 8 "Pty_acquire_op demo_pty 9 9 9 False"] by auto
  ultimately show ?thesis using ts(3) unfolding Let_def by blast
qed

text \<open>A byte that takes one place in the queue it is written to: the translated line feed takes two and a
  signal character none.\<close>

fun plain_byte :: "pty_end \<Rightarrow> pty \<Rightarrow> u8 \<Rightarrow> bool" where
  "plain_byte Pty_master p b \<longleftrightarrow> ordinary (ty_termios p) b"
| "plain_byte Pty_slave p b \<longleftrightarrow> \<not> (termios_translates (ty_termios p) \<and> b = 10)"

lemma pty_write_byte_status:
  assumes ok: "pty_table_ok bcap ts" and h: "pty_find ts h = Some i" "pty_count e (ts ! i) \<noteq> 0"
    and out: "e = Pty_slave \<or> ordinary (ty_termios (ts ! i)) b"
  shows "fst (snd (pty_write bcap ts h e [b])) =
    (if pty_peer_closed e (ts ! i) then Pty_io_error
     else if length (rb_list bcap (pty_out e (ts ! i))) + (if plain_byte e (ts ! i) b then 1 else 2) \<le> unat bcap
     then Pty_success else Pty_would_block)"
proof -
  have inv: "rb_invar bcap (ty_master_to_slave (ts ! i))" "rb_invar bcap (ty_slave_to_master (ts ! i))"
    using pty_table_ok_found [OF ok h(1)] by (auto simp: pty_ok_def)
  note full = rb_full_list [OF inv(1)] rb_full_list [OF inv(2)]
  note le = ring.list_bound [OF inv(1)] ring.list_bound [OF inv(2)]
  show ?thesis
    using h out full le rb_free_space_nat [OF inv(2)]
    by (cases e) (auto simp: pty_write_def Let_def ordinary_def word_less_nat_alt simp del: length_rb_list)
qed

text \<open>C17: Opening a slave fails while the master keeps the pseudo-terminal locked. A poll of either end says
  readable exactly when a non-empty read returns at once, and a read reports end of file exactly when nothing is
  queued and the other side is closed. A poll of either end says writable exactly when writing one more byte that
  takes one place succeeds; a line feed the slave writes with translation on succeeds exactly when the other
  side is open and two places are free, so for it a poll may say writable although the write blocks.\<close>

theorem pty_lock_and_poll:
  assumes "pty_table_ok bcap ts" and "pty_find ts h = Some i" and "pty_count e (ts ! i) \<noteq> 0" and "n \<noteq> 0"
  shows "(ty_locked (ts ! i) \<longrightarrow> pty_open_slave ts (th_slot h) = (ts, Pty_locked, invalid_pty_handle)) \<and>
    (pty_readable ts h e \<longleftrightarrow> fst (snd (pty_read bcap ts h e n)) \<noteq> Pty_would_block) \<and>
    (fst (snd (pty_read bcap ts h e n)) = Pty_end_of_file \<longleftrightarrow>
      rb_list bcap (pty_in e (ts ! i)) = [] \<and> pty_peer_closed e (ts ! i)) \<and>
    (\<forall>b. plain_byte e (ts ! i) b \<longrightarrow>
      (pty_writable bcap ts h e \<longleftrightarrow> fst (snd (pty_write bcap ts h e [b])) = Pty_success)) \<and>
    (e = Pty_slave \<and> termios_translates (ty_termios (ts ! i)) \<longrightarrow>
      (fst (snd (pty_write bcap ts h e [10])) = Pty_success \<longleftrightarrow>
        \<not> pty_peer_closed e (ts ! i) \<and> length (rb_list bcap (pty_out e (ts ! i))) + 2 \<le> unat bcap))"
proof -
  have i: "i = unat (th_slot h)" "i < length ts" "ty_used (ts ! i)"
    using assms(2) by (auto simp: ptys.tfind_Some_iff)
  have "rb_invar bcap (pty_out e (ts ! i))"
    using pty_table_ok_found [OF assms(1,2)] by (cases e) (auto simp: pty_ok_def)
  then have writable: "pty_writable bcap ts h e \<longleftrightarrow> \<not> pty_peer_closed e (ts ! i) \<and>
      length (rb_list bcap (pty_out e (ts ! i))) + 1 \<le> unat bcap"
    using assms(2,3) rb_full_list ring.list_bound by (fastforce simp: pty_writable_def simp del: length_rb_list)
  have plain: "e = Pty_slave \<or> ordinary (ty_termios (ts ! i)) b" if "plain_byte e (ts ! i) b" for b
    using that by (cases e) auto
  have "fst (snd (pty_write bcap ts h e [b])) = Pty_success \<longleftrightarrow> pty_writable bcap ts h e"
    if "plain_byte e (ts ! i) b" for b
    using pty_write_byte_status [OF assms(1-3) plain [OF that]] that writable by (auto simp del: length_rb_list)
  moreover have "e = Pty_slave \<and> termios_translates (ty_termios (ts ! i)) \<longrightarrow>
      (fst (snd (pty_write bcap ts h e [10])) = Pty_success \<longleftrightarrow>
        \<not> pty_peer_closed e (ts ! i) \<and> length (rb_list bcap (pty_out e (ts ! i))) + 2 \<le> unat bcap)"
    using pty_write_byte_status [OF assms(1-3), of 10] by (auto simp del: length_rb_list split: if_splits)
  moreover have "ty_locked (ts ! i) \<longrightarrow> pty_open_slave ts (th_slot h) = (ts, Pty_locked, invalid_pty_handle)"
    using i by (simp add: pty_open_slave_def pty_open_slot_def)
  moreover have "pty_readable ts h e \<longleftrightarrow> fst (snd (pty_read bcap ts h e n)) \<noteq> Pty_would_block"
    "fst (snd (pty_read bcap ts h e n)) = Pty_end_of_file \<longleftrightarrow>
      rb_list bcap (pty_in e (ts ! i)) = [] \<and> pty_peer_closed e (ts ! i)"
    using assms i by (auto simp: pty_readable_def pty_read_def Let_def case_prod_beta rb_empty_list [of _ bcap])
  ultimately show ?thesis by blast
qed

theorem pty_lock_and_poll_witness:
  "\<not> pty_readable demo_ptys demo_pty Pty_master \<and>
   fst (snd (pty_read 8 demo_ptys demo_pty Pty_master 4)) = Pty_would_block \<and>
   pty_writable 8 demo_ptys demo_pty Pty_master \<and>
   fst (snd (pty_write 8 demo_ptys demo_pty Pty_master [97])) = Pty_success"
proof -
  have demo: "pty_count Pty_master (demo_ptys ! 0) \<noteq> 0" "\<not> pty_readable demo_ptys demo_pty Pty_master"
    "pty_writable 8 demo_ptys demo_pty Pty_master" "plain_byte Pty_master (demo_ptys ! 0) 97" "(4 :: u32) \<noteq> 0"
    by code_simp+
  from pty_lock_and_poll [OF demo_ptys_ok demo_ptys_find demo(1,5)] demo show ?thesis by blast
qed

end
