(* ===== verification/Process_Table.thy ===== *)
theory Process_Table
  imports Signal
begin

text \<open>
  \<^verbatim>\<open>include/mikos/process/model.hpp\<close>: the fixed process table with fork and vfork, exec,
  exit and wait, process groups and sessions, stop and resume, and the round-robin choice of
  the next runnable process. A pointer into \<open>records_\<close> is an index; an assignment through
  it is \<open>upd_nth\<close>. The template argument \<open>Capacity\<close> is the length of the record list.
\<close>

section \<open>Definitions\<close>

abbreviation invalid_pid :: u32 where "invalid_pid \<equiv> 0"

datatype process_state =
    Proc_free
  | Proc_runnable
  | Proc_running
  | Proc_waiting
  | Proc_vfork_wait
  | Proc_stopped
  | Proc_zombie

datatype process_status =
    Proc_success
  | Proc_no_process
  | Proc_no_child
  | Proc_would_block
  | Proc_no_space
  | Proc_invalid_argument
  | Proc_permission_denied

datatype wait_selector = Wait_any | Wait_pid u32 | Wait_process_group u32

record process_record =
  pr_state :: process_state
  pr_pid :: u32
  pr_parent :: u32
  pr_process_group :: u32
  pr_session :: u32
  pr_exit_status :: u32
  pr_vfork_parent :: u32
  pr_executed :: bool
  pr_address_space :: bool
  pr_signals :: signal_state

record process_table =
  pt_records :: "process_record list"
  pt_next_pid :: u32

record fork_result =
  fr_status :: process_status
  fr_parent_result :: u32
  fr_child_result :: u32
  fr_child :: u32

record wait_result =
  wr_status :: process_status
  wr_pid :: u32
  wr_status_word :: u32

record process_lineage =
  pl_pid :: u32
  pl_parent_pid :: u32

definition fork_lineage :: "process_lineage \<Rightarrow> u32 \<Rightarrow> process_lineage" where
  "fork_lineage parent child_pid = \<lparr>pl_pid = child_pid, pl_parent_pid = pl_pid parent\<rparr>"

definition connection_wait_can_yield_to_uart :: "u32 \<Rightarrow> bool" where
  "connection_wait_can_yield_to_uart nested_depth \<longleftrightarrow> nested_depth = 0"

definition pty_child_can_park :: "bool \<Rightarrow> bool \<Rightarrow> bool \<Rightarrow> bool" where
  "pty_child_can_park child_already_parked parent_active slave_endpoint \<longleftrightarrow>
     \<not> child_already_parked \<and> parent_active \<and> slave_endpoint"

definition pty_child_can_resume :: "bool \<Rightarrow> u32 \<Rightarrow> u32 \<Rightarrow> bool \<Rightarrow> bool \<Rightarrow> bool \<Rightarrow> u32 \<Rightarrow> bool" where
  "pty_child_can_resume child_parked current_pid child_parent_pid parent_active slave_readable
     wait_interrupted relay_service_pid \<longleftrightarrow>
     child_parked \<and>
     (current_pid = child_parent_pid \<or>
      (relay_service_pid \<noteq> invalid_pid \<and> current_pid = relay_service_pid)) \<and>
     \<not> parent_active \<and> (slave_readable \<or> wait_interrupted)"

definition record_empty :: process_record where
  "record_empty = \<lparr>pr_state = Proc_free, pr_pid = 0, pr_parent = 0, pr_process_group = 0,
     pr_session = 0, pr_exit_status = 0, pr_vfork_parent = 0, pr_executed = False,
     pr_address_space = False, pr_signals = signal_state_init\<rparr>"

definition process_table_init :: "nat \<Rightarrow> process_table" where
  "process_table_init capacity =
     \<lparr>pt_records = replicate capacity record_empty, pt_next_pid = 1\<rparr>"

definition live :: "process_record \<Rightarrow> bool" where
  "live r \<longleftrightarrow> pr_state r \<noteq> Proc_free"

definition proc_find :: "process_record list \<Rightarrow> u32 \<Rightarrow> nat option" where
  "proc_find rs pid = first_index (\<lambda>r. live r \<and> pr_pid r = pid) rs"

definition free_slot :: "process_record list \<Rightarrow> nat option" where
  "free_slot rs = first_index (\<lambda>r. \<not> live r) rs"

definition proc_used :: "process_record list \<Rightarrow> u32" where
  "proc_used rs = of_nat (length (filter live rs))"

definition address_spaces :: "process_record list \<Rightarrow> u32" where
  "address_spaces rs = of_nat (length (filter pr_address_space rs))"

definition proc_initialize :: "process_table \<Rightarrow> u32 \<Rightarrow> process_table \<times> process_status" where
  "proc_initialize pt pid =
     (if pid = invalid_pid \<or> proc_used (pt_records pt) \<noteq> 0 then (pt, Proc_invalid_argument)
      else (\<lparr>pt_records = (pt_records pt)[0 :=
               \<lparr>pr_state = Proc_running, pr_pid = pid, pr_parent = invalid_pid,
                pr_process_group = pid, pr_session = pid, pr_exit_status = 0,
                pr_vfork_parent = 0, pr_executed = False, pr_address_space = True,
                pr_signals = signal_state_init\<rparr>],
             pt_next_pid = pid + 1\<rparr>, Proc_success))"

definition proc_fork :: "process_table \<Rightarrow> u32 \<Rightarrow> bool \<Rightarrow> process_table \<times> fork_result" where
  "proc_fork pt parent_pid vfork =
     (case proc_find (pt_records pt) parent_pid of
        None \<Rightarrow> (pt, \<lparr>fr_status = Proc_no_process, fr_parent_result = 0, fr_child_result = 0, fr_child = 0\<rparr>)
      | Some i \<Rightarrow>
          let parent = pt_records pt ! i
          in if pr_state parent = Proc_zombie \<or> pr_state parent = Proc_free
             then (pt, \<lparr>fr_status = Proc_no_process, fr_parent_result = 0, fr_child_result = 0, fr_child = 0\<rparr>)
             else case free_slot (pt_records pt) of
                 None \<Rightarrow> (pt, \<lparr>fr_status = Proc_no_space, fr_parent_result = 0, fr_child_result = 0, fr_child = 0\<rparr>)
               | Some k \<Rightarrow>
                   if pt_next_pid pt = invalid_pid then (pt, \<lparr>fr_status = Proc_no_space, fr_parent_result = 0, fr_child_result = 0, fr_child = 0\<rparr>)
                   else let pid = pt_next_pid pt;
                            child = parent\<lparr>pr_state := Proc_runnable, pr_pid := pid,
                              pr_parent := parent_pid, pr_exit_status := 0,
                              pr_vfork_parent := (if vfork then parent_pid else 0),
                              pr_executed := False, pr_address_space := True,
                              pr_signals := pr_signals parent\<rparr>;
                            rs = (pt_records pt)[k := child];
                            rs' = (if vfork then upd_nth i (\<lambda>r. r\<lparr>pr_state := Proc_vfork_wait\<rparr>) rs else rs)
                        in (\<lparr>pt_records = rs', pt_next_pid = pid + 1\<rparr>,
                            \<lparr>fr_status = Proc_success, fr_parent_result = pid, fr_child_result = 0,
                             fr_child = pid\<rparr>))"

definition wake_vfork_parent :: "nat \<Rightarrow> process_record list \<Rightarrow> process_record list" where
  "wake_vfork_parent child rs =
     (if pr_vfork_parent (rs ! child) = 0 then rs
      else let rs' = (case proc_find rs (pr_vfork_parent (rs ! child)) of
                        None \<Rightarrow> rs
                      | Some j \<Rightarrow> if pr_state (rs ! j) = Proc_vfork_wait
                                  then upd_nth j (\<lambda>r. r\<lparr>pr_state := Proc_runnable\<rparr>) rs else rs)
           in upd_nth child (\<lambda>r. r\<lparr>pr_vfork_parent := 0\<rparr>) rs')"

definition mark_exec :: "process_table \<Rightarrow> u32 \<Rightarrow> process_table \<times> process_status" where
  "mark_exec pt pid =
     (case proc_find (pt_records pt) pid of
        None \<Rightarrow> (pt, Proc_no_process)
      | Some i \<Rightarrow>
          if pr_state (pt_records pt ! i) = Proc_zombie then (pt, Proc_no_process)
          else (pt\<lparr>pt_records := wake_vfork_parent i
                    (upd_nth i (\<lambda>r. r\<lparr>pr_executed := True\<rparr>) (pt_records pt))\<rparr>, Proc_success))"

definition reparent_children :: "u32 \<Rightarrow> process_record list \<Rightarrow> process_record list" where
  "reparent_children exiting rs =
     (let adopter = (if list_ex (\<lambda>r. live r \<and> pr_pid r = 1 \<and> pr_pid r \<noteq> exiting) rs then 1 else 0)
      in map (\<lambda>r. if live r \<and> pr_parent r = exiting then r\<lparr>pr_parent := adopter\<rparr> else r) rs)"

definition wake_waiting_parent :: "nat \<Rightarrow> process_record list \<Rightarrow> process_record list" where
  "wake_waiting_parent i rs =
     (case proc_find rs (pr_parent (rs ! i)) of
        None \<Rightarrow> rs
      | Some j \<Rightarrow> if pr_state (rs ! j) = Proc_waiting
                  then upd_nth j (\<lambda>r. r\<lparr>pr_state := Proc_runnable\<rparr>) rs else rs)"

definition proc_exit :: "process_table \<Rightarrow> u32 \<Rightarrow> u32 \<Rightarrow> process_table \<times> process_status" where
  "proc_exit pt pid status =
     (case proc_find (pt_records pt) pid of
        None \<Rightarrow> (pt, Proc_no_process)
      | Some i \<Rightarrow>
          if pr_state (pt_records pt ! i) = Proc_zombie then (pt, Proc_no_process)
          else let rs = upd_nth i (\<lambda>r. r\<lparr>pr_exit_status := status, pr_state := Proc_zombie,
                                         pr_address_space := False\<rparr>) (pt_records pt)
               in (pt\<lparr>pt_records := reparent_children pid
                        (wake_waiting_parent i (wake_vfork_parent i rs))\<rparr>, Proc_success))"

fun wait_matches :: "process_record \<Rightarrow> process_record \<Rightarrow> wait_selector \<Rightarrow> bool" where
  "wait_matches parent child Wait_any \<longleftrightarrow> True"
| "wait_matches parent child (Wait_pid v) \<longleftrightarrow> pr_pid child = v"
| "wait_matches parent child (Wait_process_group v) \<longleftrightarrow>
     pr_process_group child = (if v = 0 then pr_process_group parent else v)"

definition wait_candidate :: "process_record \<Rightarrow> u32 \<Rightarrow> wait_selector \<Rightarrow> process_record \<Rightarrow> bool" where
  "wait_candidate parent parent_pid selector r \<longleftrightarrow>
     live r \<and> pr_parent r = parent_pid \<and> wait_matches parent r selector"

definition proc_wait ::
  "process_table \<Rightarrow> u32 \<Rightarrow> wait_selector \<Rightarrow> bool \<Rightarrow> process_table \<times> wait_result" where
  "proc_wait pt parent_pid selector no_hang =
     (case proc_find (pt_records pt) parent_pid of
        None \<Rightarrow> (pt, \<lparr>wr_status = Proc_no_process, wr_pid = 0, wr_status_word = 0\<rparr>)
      | Some i \<Rightarrow>
          let parent = pt_records pt ! i; rs = pt_records pt;
              candidate = wait_candidate parent parent_pid selector
          in if pr_state parent = Proc_zombie then (pt, \<lparr>wr_status = Proc_no_process, wr_pid = 0, wr_status_word = 0\<rparr>)
             else case first_index (\<lambda>r. candidate r \<and> pr_state r = Proc_zombie) rs of
                 Some k \<Rightarrow> (pt\<lparr>pt_records := rs[k := record_empty]\<rparr>,
                   \<lparr>wr_status = Proc_success, wr_pid = pr_pid (rs ! k), wr_status_word = pr_exit_status (rs ! k)\<rparr>)
               | None \<Rightarrow>
                   if \<not> list_ex candidate rs then (pt, \<lparr>wr_status = Proc_no_child, wr_pid = 0, wr_status_word = 0\<rparr>)
                   else if no_hang then (pt, \<lparr>wr_status = Proc_success, wr_pid = 0, wr_status_word = 0\<rparr>)
                   else (pt\<lparr>pt_records := upd_nth i (\<lambda>r. r\<lparr>pr_state := Proc_waiting\<rparr>) rs\<rparr>,
                         \<lparr>wr_status = Proc_would_block, wr_pid = 0, wr_status_word = 0\<rparr>))"

definition set_process_group ::
  "process_table \<Rightarrow> u32 \<Rightarrow> u32 \<Rightarrow> u32 \<Rightarrow> process_table \<times> process_status" where
  "set_process_group pt caller_pid target_pid0 group0 =
     (let rs = pt_records pt
      in case proc_find rs caller_pid of
           None \<Rightarrow> (pt, Proc_no_process)
         | Some c \<Rightarrow>
             let target_pid = (if target_pid0 = 0 then caller_pid else target_pid0)
             in case proc_find rs target_pid of
                  None \<Rightarrow> (pt, Proc_no_process)
                | Some t \<Rightarrow>
                    if target_pid \<noteq> caller_pid \<and> pr_parent (rs ! t) \<noteq> caller_pid then (pt, Proc_no_process)
                    else if pr_session (rs ! t) = pr_pid (rs ! t) \<or>
                            (target_pid \<noteq> caller_pid \<and> pr_executed (rs ! t))
                    then (pt, Proc_permission_denied)
                    else let g = (if group0 = 0 then target_pid else group0);
                             allowed = (g = target_pid \<or>
                               (case proc_find rs g of
                                  None \<Rightarrow> False
                                | Some l \<Rightarrow> pr_process_group (rs ! l) = g \<and>
                                            pr_session (rs ! l) = pr_session (rs ! t)))
                         in if \<not> allowed then (pt, Proc_permission_denied)
                            else (pt\<lparr>pt_records := upd_nth t (\<lambda>r. r\<lparr>pr_process_group := g\<rparr>) rs\<rparr>,
                                  Proc_success))"

definition create_session :: "process_table \<Rightarrow> u32 \<Rightarrow> process_table \<times> process_status" where
  "create_session pt pid =
     (case proc_find (pt_records pt) pid of
        None \<Rightarrow> (pt, Proc_no_process)
      | Some i \<Rightarrow>
          if pr_process_group (pt_records pt ! i) = pid then (pt, Proc_permission_denied)
          else (pt\<lparr>pt_records := upd_nth i (\<lambda>r. r\<lparr>pr_session := pid, pr_process_group := pid\<rparr>)
                    (pt_records pt)\<rparr>, Proc_success))"

definition proc_stop :: "process_table \<Rightarrow> u32 \<Rightarrow> process_table \<times> process_status" where
  "proc_stop pt pid =
     (case proc_find (pt_records pt) pid of
        None \<Rightarrow> (pt, Proc_no_process)
      | Some i \<Rightarrow>
          if pr_state (pt_records pt ! i) = Proc_zombie then (pt, Proc_no_process)
          else (pt\<lparr>pt_records := upd_nth i (\<lambda>r. r\<lparr>pr_state := Proc_stopped\<rparr>) (pt_records pt)\<rparr>,
                Proc_success))"

definition proc_resume :: "process_table \<Rightarrow> u32 \<Rightarrow> process_table \<times> process_status" where
  "proc_resume pt pid =
     (case proc_find (pt_records pt) pid of
        None \<Rightarrow> (pt, Proc_no_process)
      | Some i \<Rightarrow>
          if pr_state (pt_records pt ! i) = Proc_zombie then (pt, Proc_no_process)
          else (pt\<lparr>pt_records := upd_nth i (\<lambda>r. if pr_state r = Proc_stopped
                      then r\<lparr>pr_state := Proc_runnable\<rparr> else r) (pt_records pt)\<rparr>, Proc_success))"

definition can_run :: "process_state \<Rightarrow> bool" where
  "can_run s \<longleftrightarrow> s = Proc_runnable \<or> s = Proc_running"

text \<open>The slots visited by the search loop of \<open>next_runnable\<close>, in order.\<close>

definition rotation :: "nat \<Rightarrow> nat \<Rightarrow> nat list" where
  "rotation capacity after = map (\<lambda>offset. (after + offset) mod capacity) [1..<Suc capacity]"

definition next_runnable :: "process_record list \<Rightarrow> u32 \<Rightarrow> u32" where
  "next_runnable rs after_pid =
     (let located = first_index (\<lambda>r. pr_pid r = after_pid \<and> live r) rs;
          after_slot = (case located of None \<Rightarrow> 0 | Some i \<Rightarrow> i)
      in case find (\<lambda>i. can_run (pr_state (rs ! i))) (rotation (length rs) after_slot) of
           Some i \<Rightarrow> pr_pid (rs ! i)
         | None \<Rightarrow> if located = None \<and> can_run (pr_state (rs ! 0)) then pr_pid (rs ! 0) else invalid_pid)"

text \<open>The class's own consistency check, \<open>invariant()\<close>.\<close>

fun records_invariant :: "process_record list \<Rightarrow> bool" where
  "records_invariant [] \<longleftrightarrow> True"
| "records_invariant (r # rs) \<longleftrightarrow>
     (if \<not> live r then pr_pid r = 0 \<and> \<not> pr_address_space r
      else pr_pid r \<noteq> 0 \<and> pr_process_group r \<noteq> 0 \<and> pr_session r \<noteq> 0 \<and>
           \<not> (pr_state r = Proc_zombie \<and> pr_address_space r) \<and>
           list_all (\<lambda>s. \<not> (live s \<and> pr_pid s = pr_pid r)) rs) \<and>
     records_invariant rs"

section \<open>Well-formed tables\<close>

text \<open>
  What the operations keep: besides the class's own check, pids are handed out in
  increasing order, a parent link is 0 or names a record of the table, it points to a
  smaller pid (so the parent links form a forest), and a zombie whose pid is outside \<open>X\<close>
  has no children. Between operations \<open>X\<close> holds only the adopter, process 1.
\<close>

definition rec_ok :: "process_record \<Rightarrow> bool" where
  "rec_ok r \<longleftrightarrow>
     (if live r then pr_pid r \<noteq> 0 \<and> pr_process_group r \<noteq> 0 \<and> pr_session r \<noteq> 0 \<and>
                     \<not> (pr_state r = Proc_zombie \<and> pr_address_space r) \<and> pr_parent r < pr_pid r
      else pr_pid r = 0 \<and> \<not> pr_address_space r)"

definition pids_distinct :: "process_record list \<Rightarrow> bool" where
  "pids_distinct rs \<longleftrightarrow>
     (\<forall>i j. i < length rs \<and> j < length rs \<and> live (rs ! i) \<and> live (rs ! j) \<and>
            pr_pid (rs ! i) = pr_pid (rs ! j) \<longrightarrow> i = j)"

definition pids_below :: "u32 \<Rightarrow> process_record list \<Rightarrow> bool" where
  "pids_below n rs \<longleftrightarrow> n = 0 \<or> (\<forall>r \<in> set rs. live r \<longrightarrow> pr_pid r < n)"

definition parents_ok :: "process_record list \<Rightarrow> bool" where
  "parents_ok rs \<longleftrightarrow>
     (\<forall>r \<in> set rs. live r \<and> pr_parent r \<noteq> 0 \<longrightarrow> (\<exists>q \<in> set rs. live q \<and> pr_pid q = pr_parent r))"

definition zombies_ok :: "u32 set \<Rightarrow> process_record list \<Rightarrow> bool" where
  "zombies_ok X rs \<longleftrightarrow>
     (\<forall>r \<in> set rs. \<forall>q \<in> set rs. live r \<and> pr_state q = Proc_zombie \<and> pr_parent r = pr_pid q \<longrightarrow> pr_pid q \<in> X)"

definition proc_inv :: "u32 set \<Rightarrow> process_table \<Rightarrow> bool" where
  "proc_inv X pt \<longleftrightarrow>
     2 \<le> length (pt_records pt) \<and> length (pt_records pt) < 2 ^ 32 \<and>
     list_all rec_ok (pt_records pt) \<and> pids_distinct (pt_records pt) \<and>
     pids_below (pt_next_pid pt) (pt_records pt) \<and> parents_ok (pt_records pt) \<and>
     zombies_ok X (pt_records pt)"

abbreviation proc_ok :: "process_table \<Rightarrow> bool" where
  "proc_ok \<equiv> proc_inv {1}"

lemmas proc_ok_defs = proc_inv_def pids_below_def parents_ok_def zombies_ok_def

lemma zombie_live [simp]: "pr_state r = Proc_zombie \<Longrightarrow> live r"
  by (simp add: live_def)

lemma pids_distinctD:
  "pids_distinct rs \<Longrightarrow> i < length rs \<Longrightarrow> j < length rs \<Longrightarrow> live (rs ! i) \<Longrightarrow> live (rs ! j) \<Longrightarrow>
   pr_pid (rs ! i) = pr_pid (rs ! j) \<Longrightarrow> i = j"
  unfolding pids_distinct_def by blast

lemma records_invariant_if_ok:
  "list_all rec_ok rs \<Longrightarrow> pids_distinct rs \<Longrightarrow> records_invariant rs"
proof (induction rs)
  case (Cons r rs)
  from Cons.prems(2) have "pids_distinct rs"
    unfolding pids_distinct_def by (metis Suc_inject Suc_less_eq length_Cons nth_Cons_Suc)
  moreover have "\<not> (live s \<and> pr_pid s = pr_pid r)" if "live r" "s \<in> set rs" for s
  proof -
    from that(2) obtain j where "j < length rs" "rs ! j = s" by (auto simp: in_set_conv_nth)
    with that(1) show ?thesis
      using pids_distinctD [OF Cons.prems(2), of 0 "Suc j"] by auto
  qed
  ultimately show ?case
    using Cons by (auto simp: rec_ok_def list_all_iff)
qed simp

lemma proc_find_SomeD:
  "proc_find rs pid = Some i \<Longrightarrow> i < length rs \<and> live (rs ! i) \<and> pr_pid (rs ! i) = pid"
  unfolding proc_find_def by (drule first_index_SomeD) simp

lemma proc_find_eqI:
  assumes "pids_distinct rs" "i < length rs" "live (rs ! i)" "pr_pid (rs ! i) = pid"
  shows "proc_find rs pid = Some i"
  unfolding proc_find_def
proof (rule first_index_eqI)
  fix j
  assume "j < i"
  then show "\<not> (live (rs ! j) \<and> pr_pid (rs ! j) = pid)"
    using pids_distinctD [OF assms(1,2) _ assms(3), of j] assms(2,4) by auto
qed (use assms in auto)

lemma proc_find_None: "proc_find rs pid = None \<longleftrightarrow> (\<forall>r \<in> set rs. \<not> (live r \<and> pr_pid r = pid))"
  by (simp add: proc_find_def first_index_None)

lemma proc_ok_find:
  "proc_inv X pt \<Longrightarrow> proc_find (pt_records pt) pid = Some i \<longleftrightarrow>
     i < length (pt_records pt) \<and> live (pt_records pt ! i) \<and> pr_pid (pt_records pt ! i) = pid"
  using proc_find_SomeD proc_find_eqI unfolding proc_inv_def by blast

subsection \<open>Updates that keep the shape\<close>

text \<open>
  Most operations change only states and attributes of records. They keep the table
  well formed because they keep liveness, pids, parents and zombies.
\<close>

definition same_rec :: "process_record \<Rightarrow> process_record \<Rightarrow> bool" where
  "same_rec r r' \<longleftrightarrow>
     live r' = live r \<and> pr_pid r' = pr_pid r \<and> pr_parent r' = pr_parent r \<and>
     (pr_state r' = Proc_zombie) = (pr_state r = Proc_zombie) \<and> (rec_ok r \<longrightarrow> rec_ok r')"

definition same_shape :: "process_record list \<Rightarrow> process_record list \<Rightarrow> bool" where
  "same_shape = list_all2 same_rec"

lemma same_rec_refl [simp]: "same_rec r r"
  by (simp add: same_rec_def)

lemma same_shape_refl [simp]: "same_shape rs rs"
  by (simp add: same_shape_def list_all2_refl)

lemma same_shape_trans: "same_shape rs rs' \<Longrightarrow> same_shape rs' rs'' \<Longrightarrow> same_shape rs rs''"
  unfolding same_shape_def by (rule list_all2_trans [where ?P1.0 = same_rec and ?P2.0 = same_rec])
    (auto simp: same_rec_def)

lemma same_shape_length: "same_shape rs rs' \<Longrightarrow> length rs' = length rs"
  unfolding same_shape_def by (simp add: list_all2_lengthD)

lemma same_shape_nth: "same_shape rs rs' \<Longrightarrow> i < length rs \<Longrightarrow> same_rec (rs ! i) (rs' ! i)"
  unfolding same_shape_def by (simp add: list_all2_nthD)

lemma same_shape_in: "same_shape rs rs' \<Longrightarrow> r' \<in> set rs' \<Longrightarrow> \<exists>r \<in> set rs. same_rec r r'"
  by (metis in_set_conv_nth same_shape_length same_shape_nth)

lemma same_shape_in': "same_shape rs rs' \<Longrightarrow> r \<in> set rs \<Longrightarrow> \<exists>r' \<in> set rs'. same_rec r r'"
  by (metis in_set_conv_nth same_shape_length same_shape_nth)

lemma same_shape_upd:
  "(i < length rs \<Longrightarrow> same_rec (rs ! i) (f (rs ! i))) \<Longrightarrow> same_shape rs (upd_nth i f rs)"
  unfolding same_shape_def by (auto simp: list_all2_conv_all_nth nth_upd_nth)

lemma same_shape_ok:
  assumes "same_shape (pt_records pt) rs" "proc_inv X pt"
  shows "proc_inv X (pt\<lparr>pt_records := rs\<rparr>)"
proof -
  note D = same_shape_in [OF assms(1)] same_shape_in' [OF assms(1)]
  from assms(2) have *: "list_all rec_ok (pt_records pt)" "pids_distinct (pt_records pt)"
    "pids_below (pt_next_pid pt) (pt_records pt)" "parents_ok (pt_records pt)" "zombies_ok X (pt_records pt)"
    by (auto simp: proc_inv_def)
  have "list_all rec_ok rs"
    using *(1) D(1) unfolding list_all_iff same_rec_def by metis
  moreover have "pids_distinct rs"
    using *(2) same_shape_nth [OF assms(1)] same_shape_length [OF assms(1)]
    unfolding pids_distinct_def same_rec_def by metis
  moreover have "pids_below (pt_next_pid pt) rs"
    using *(3) D(1) unfolding pids_below_def same_rec_def by metis
  moreover have "parents_ok rs"
    using *(4) D unfolding parents_ok_def same_rec_def by metis
  moreover have "zombies_ok X rs"
    using *(5) D(1) unfolding zombies_ok_def same_rec_def by metis
  ultimately show ?thesis
    using assms(2) same_shape_length [OF assms(1)] by (simp add: proc_inv_def)
qed

lemma wake_vfork_parent_shape: "same_shape rs (wake_vfork_parent i rs)"
  unfolding wake_vfork_parent_def Let_def
  by (auto split: option.splits intro!: same_shape_upd same_shape_trans [OF same_shape_upd same_shape_upd]
      simp: same_rec_def rec_ok_def live_def)

lemma wake_waiting_parent_shape: "same_shape rs (wake_waiting_parent i rs)"
  unfolding wake_waiting_parent_def
  by (auto split: option.splits intro!: same_shape_upd simp: same_rec_def rec_ok_def live_def)

subsection \<open>The operations keep the table well formed\<close>

lemma proc_ok_init: "2 \<le> capacity \<Longrightarrow> capacity < 2 ^ 32 \<Longrightarrow> proc_ok (process_table_init capacity)"
  by (auto simp: proc_ok_defs process_table_init_def list_all_length rec_ok_def record_empty_def live_def
      pids_distinct_def)

lemma proc_used_eq_0:
  "length rs < 2 ^ 32 \<Longrightarrow> proc_used rs = 0 \<longleftrightarrow> (\<forall>r \<in> set rs. \<not> live r)"
proof -
  assume "length rs < 2 ^ 32"
  then have "unat (proc_used rs) = length (filter live rs)"
    unfolding proc_used_def
    by (intro unat_of_nat_u32 le_less_trans [OF length_filter_le]) simp
  then show ?thesis
    by (metis filter_empty_conv length_0_conv unat_0 unat_eq_zero)
qed

lemma proc_initialize_ok:
  assumes "proc_ok pt" shows "proc_ok (fst (proc_initialize pt pid))"
proof (cases "pid = 0 \<or> proc_used (pt_records pt) \<noteq> 0")
  case False
  let ?r = "\<lparr>pr_state = Proc_running, pr_pid = pid, pr_parent = 0, pr_process_group = pid, pr_session = pid,
    pr_exit_status = 0, pr_vfork_parent = 0, pr_executed = False, pr_address_space = True,
    pr_signals = signal_state_init\<rparr>"
  let ?rs = "(pt_records pt)[0 := ?r]"
  from False have dead: "\<forall>r \<in> set (pt_records pt). \<not> live r"
    using assms proc_used_eq_0 unfolding proc_inv_def by blast
  have r: "live ?r" "rec_ok ?r" using False by (auto simp: live_def rec_ok_def word_neq_0_conv)
  have only: "pr_pid r = pid \<and> pr_parent r = 0 \<and> pr_state r = Proc_running" if "r \<in> set ?rs" "live r" for r
    using that dead set_update_subset_insert by fastforce
  have only_nth: "i = 0" if "i < length ?rs" "live (?rs ! i)" for i
    using that dead by (cases i) auto
  have "list_all rec_ok ?rs"
    using assms r(2) by (simp add: proc_inv_def list_all_update)
  moreover have "pids_distinct ?rs" unfolding pids_distinct_def using only_nth by metis
  moreover have "pids_below (pid + 1) ?rs"
    unfolding pids_below_def using only by (metis word_less_inc)
  moreover have "parents_ok ?rs" unfolding parents_ok_def using only by metis
  moreover have "zombies_ok {1} ?rs" unfolding zombies_ok_def
  proof (intro ballI impI, elim conjE)
    fix r q
    assume "q \<in> set ?rs" "pr_state q = Proc_zombie"
    with only [of q] show "pr_pid q \<in> {1}" by simp
  qed
  ultimately show ?thesis
    using False assms by (simp add: proc_initialize_def proc_inv_def)
qed (auto simp: proc_initialize_def assms)

lemma free_slot_SomeD: "free_slot rs = Some k \<Longrightarrow> k < length rs \<and> \<not> live (rs ! k)"
  unfolding free_slot_def by (drule first_index_SomeD) simp

lemma pids_distinct_in:
  "pids_distinct rs \<Longrightarrow> q \<in> set rs \<Longrightarrow> r \<in> set rs \<Longrightarrow> live q \<Longrightarrow> live r \<Longrightarrow> pr_pid q = pr_pid r \<Longrightarrow> q = r"
  by (metis in_set_conv_nth pids_distinctD)

text \<open>A new record in a free slot, with the next pid and an existing parent.\<close>

lemma proc_ok_insert:
  assumes ok: "proc_ok pt" and k: "k < length (pt_records pt)" "\<not> live (pt_records pt ! k)"
    and nz: "pt_next_pid pt \<noteq> 0"
    and i: "i < length (pt_records pt)" "live (pt_records pt ! i)" "pr_state (pt_records pt ! i) \<noteq> Proc_zombie"
    and c: "pr_state c = Proc_runnable" "pr_pid c = pt_next_pid pt" "pr_parent c = pr_pid (pt_records pt ! i)"
      "pr_process_group c = pr_process_group (pt_records pt ! i)" "pr_session c = pr_session (pt_records pt ! i)"
  shows "proc_ok \<lparr>pt_records = (pt_records pt)[k := c], pt_next_pid = pt_next_pid pt + 1\<rparr>"
proof -
  let ?rs = "pt_records pt" and ?n = "pt_next_pid pt"
  let ?rs' = "?rs[k := c]"
  note parts = ok [unfolded proc_inv_def]
  have below: "pr_pid r < ?n" if "r \<in> set ?rs" "live r" for r
    using parts that nz unfolding pids_below_def by blast
  have live_c: "live c" using c(1) by (simp add: live_def)
  have mem: "r = c \<or> r \<in> set ?rs" if "r \<in> set ?rs'" for r
    using that set_update_subset_insert by fastforce
  have keep: "r \<in> set ?rs'" if "r \<in> set ?rs" "live r" for r
    using that k by (metis in_set_conv_nth length_list_update nth_list_update_neq)
  have c_in: "c \<in> set ?rs'" using k by (simp add: set_update_memI)
  have i_ok: "rec_ok (?rs ! i)" using parts i(1) by (simp add: list_all_length)
  have i_in: "?rs ! i \<in> set ?rs" using i(1) by simp
  have "rec_ok c"
    using i_ok i live_c c nz below [OF i_in i(2)] by (simp add: rec_ok_def)
  then have "list_all rec_ok ?rs'"
    using parts by (simp add: list_all_update)
  moreover have "pids_distinct ?rs'"
    unfolding pids_distinct_def
  proof (intro allI impI, elim conjE)
    fix a b
    assume ab: "a < length ?rs'" "b < length ?rs'" "live (?rs' ! a)" "live (?rs' ! b)"
      "pr_pid (?rs' ! a) = pr_pid (?rs' ! b)"
    have "pr_pid (?rs ! j) \<noteq> ?n" if "j < length ?rs" "live (?rs ! j)" for j
      using below [of "?rs ! j"] that by auto
    with ab pids_distinctD [of ?rs a b] parts c(2) show "a = b"
      by (cases "a = k"; cases "b = k") (simp_all, metis)
  qed
  moreover have "pids_below (?n + 1) ?rs'"
    unfolding pids_below_def using below c(2) mem by (metis order_less_trans word_less_inc)
  moreover have "parents_ok ?rs'"
    unfolding parents_ok_def
  proof (intro ballI impI, elim conjE)
    fix r
    assume r: "r \<in> set ?rs'" "live r" "pr_parent r \<noteq> 0"
    show "\<exists>q \<in> set ?rs'. live q \<and> pr_pid q = pr_parent r"
    proof (cases "r = c")
      case True
      with keep [OF i_in i(2)] i(2) c(3) show ?thesis by auto
    next
      case False
      with mem r parts obtain q where "q \<in> set ?rs" "live q" "pr_pid q = pr_parent r"
        unfolding parents_ok_def by blast
      with keep show ?thesis by blast
    qed
  qed
  moreover have "zombies_ok {1} ?rs'"
    unfolding zombies_ok_def
  proof (intro ballI impI, elim conjE)
    fix r q
    assume rq: "r \<in> set ?rs'" "q \<in> set ?rs'" "live r" "pr_state q = Proc_zombie" "pr_parent r = pr_pid q"
    with c(1) have q: "q \<in> set ?rs" using mem by fastforce
    have "r \<noteq> c"
      using pids_distinct_in [of ?rs q "?rs ! i"] parts q i_in i c(3) rq(4,5) by auto
    with mem rq(1) have "r \<in> set ?rs" by blast
    with rq q parts show "pr_pid q \<in> {1}" unfolding zombies_ok_def by blast
  qed
  ultimately show ?thesis using parts by (simp add: proc_inv_def)
qed

lemma proc_ok_shape_next:
  assumes "proc_ok \<lparr>pt_records = rs, pt_next_pid = n\<rparr>" "same_shape rs rs'"
  shows "proc_ok \<lparr>pt_records = rs', pt_next_pid = n\<rparr>"
  using same_shape_ok [of "\<lparr>pt_records = rs, pt_next_pid = n\<rparr>" rs'] assms by simp

lemma proc_fork_ok:
  assumes "proc_ok pt" shows "proc_ok (fst (proc_fork pt parent_pid vfork))"
proof (cases "proc_find (pt_records pt) parent_pid")
  case (Some i)
  note i = proc_find_SomeD [OF Some]
  show ?thesis
  proof (cases "pr_state (pt_records pt ! i) = Proc_zombie \<or> free_slot (pt_records pt) = None \<or> pt_next_pid pt = 0")
    case False
    then obtain k where k: "free_slot (pt_records pt) = Some k" by auto
    let ?p = "pt_records pt ! i"
    let ?c = "?p\<lparr>pr_state := Proc_runnable, pr_pid := pt_next_pid pt, pr_parent := parent_pid, pr_exit_status := 0,
      pr_vfork_parent := (if vfork then parent_pid else 0), pr_executed := False, pr_address_space := True,
      pr_signals := pr_signals ?p\<rparr>"
    have ins: "proc_ok \<lparr>pt_records = (pt_records pt)[k := ?c], pt_next_pid = pt_next_pid pt + 1\<rparr>"
      by (rule proc_ok_insert [OF assms, of k i]) (use i False free_slot_SomeD [OF k] in auto)
    from i free_slot_SomeD [OF k] have "i \<noteq> k" by auto
    with i False have "same_shape ((pt_records pt)[k := ?c])
        (upd_nth i (\<lambda>r. r\<lparr>pr_state := Proc_vfork_wait\<rparr>) ((pt_records pt)[k := ?c]))"
      by (intro same_shape_upd) (auto simp: same_rec_def rec_ok_def live_def)
    from ins proc_ok_shape_next [OF ins this] False i Some k show ?thesis
      by (cases vfork) (simp_all add: proc_fork_def Let_def live_def)
  qed (use Some assms i in \<open>auto simp: proc_fork_def Let_def live_def split: option.split\<close>)
qed (simp add: proc_fork_def assms)

lemma mark_exec_ok: assumes "proc_ok pt" shows "proc_ok (fst (mark_exec pt pid))"
proof -
  have "same_shape rs (wake_vfork_parent i (upd_nth i (\<lambda>r. r\<lparr>pr_executed := True\<rparr>) rs))" for i rs
    by (rule same_shape_trans [OF same_shape_upd wake_vfork_parent_shape])
      (auto simp: same_rec_def rec_ok_def live_def)
  with assms show ?thesis
    by (auto simp: mark_exec_def split: option.split intro: same_shape_ok)
qed

lemma set_process_group_cases:
  "fst (set_process_group pt caller target grp) = pt \<or>
   (\<exists>t g x. proc_find (pt_records pt) x = Some t \<and> g = (if grp = 0 then x else grp) \<and>
      fst (set_process_group pt caller target grp) =
        pt\<lparr>pt_records := upd_nth t (\<lambda>r. r\<lparr>pr_process_group := g\<rparr>) (pt_records pt)\<rparr>)"
proof -
  define tp where "tp = (if target = 0 then caller else target)"
  define g where "g = (if grp = 0 then tp else grp)"
  show ?thesis
  proof (cases "proc_find (pt_records pt) caller = None \<or> proc_find (pt_records pt) tp = None")
    case False
    then obtain c t where ct: "proc_find (pt_records pt) caller = Some c" "proc_find (pt_records pt) tp = Some t"
      by auto
    have "fst (set_process_group pt caller target grp) \<in>
      {pt, pt\<lparr>pt_records := upd_nth t (\<lambda>r. r\<lparr>pr_process_group := g\<rparr>) (pt_records pt)\<rparr>}"
      unfolding set_process_group_def Let_def ct option.case tp_def [symmetric] g_def [symmetric]
      by (simp only: fst_conv insert_iff if_True if_cancel simp_thms split: if_split)
    with ct(2) g_def show ?thesis by blast
  next
    case True
    then show ?thesis
      unfolding set_process_group_def Let_def tp_def [symmetric]
      by (cases "proc_find (pt_records pt) caller") (simp_all only: option.case fst_conv option.distinct simp_thms)
  qed
qed

lemma set_process_group_ok:
  assumes "proc_ok pt" shows "proc_ok (fst (set_process_group pt caller target grp))"
proof -
  have nz: "x \<noteq> 0" if "proc_find (pt_records pt) x = Some t" for x t
    using assms proc_find_SomeD [OF that] by (auto simp: proc_inv_def list_all_length rec_ok_def)
  have "same_shape (pt_records pt) (upd_nth t (\<lambda>r. r\<lparr>pr_process_group := g\<rparr>) (pt_records pt))"
    if "g \<noteq> 0" for t g
    using that by (intro same_shape_upd) (auto simp: same_rec_def rec_ok_def live_def)
  from same_shape_ok [OF this assms] set_process_group_cases [of pt caller target grp] nz assms
  show ?thesis by metis
qed

lemma create_session_ok: assumes "proc_ok pt" shows "proc_ok (fst (create_session pt pid))"
proof (cases "proc_find (pt_records pt) pid")
  case (Some i)
  have "same_shape (pt_records pt) (upd_nth i (\<lambda>r. r\<lparr>pr_session := pid, pr_process_group := pid\<rparr>) (pt_records pt))"
    using proc_find_SomeD [OF Some] by (intro same_shape_upd) (auto simp: same_rec_def rec_ok_def live_def)
  from same_shape_ok [OF this assms] Some assms show ?thesis
    by (auto simp: create_session_def)
qed (simp add: create_session_def assms)

lemma state_change_shape:
  "live (rs ! i) \<Longrightarrow> pr_state (rs ! i) \<noteq> Proc_zombie \<Longrightarrow> s \<noteq> Proc_free \<Longrightarrow> s \<noteq> Proc_zombie \<Longrightarrow>
   same_shape rs (upd_nth i (\<lambda>r. r\<lparr>pr_state := s\<rparr>) rs)"
  by (intro same_shape_upd) (auto simp: same_rec_def rec_ok_def live_def)

lemma proc_stop_ok: "proc_ok pt \<Longrightarrow> proc_ok (fst (proc_stop pt pid))"
  by (auto simp: proc_stop_def split: option.split dest: proc_find_SomeD
      intro!: same_shape_ok state_change_shape)

lemma proc_resume_ok: "proc_ok pt \<Longrightarrow> proc_ok (fst (proc_resume pt pid))"
  by (auto simp: proc_resume_def same_rec_def rec_ok_def live_def split: option.split
      intro!: same_shape_ok same_shape_upd)

lemma proc_ok_remove:
  assumes ok: "proc_ok pt" and k: "k < length (pt_records pt)" "pr_state (pt_records pt ! k) = Proc_zombie"
    and p: "pr_parent (pt_records pt ! k) \<noteq> 0"
  shows "proc_ok (pt\<lparr>pt_records := (pt_records pt)[k := record_empty]\<rparr>)"
proof -
  let ?rs = "pt_records pt"
  let ?rs' = "?rs[k := record_empty]"
  note parts = ok [unfolded proc_inv_def]
  have dead: "\<not> live record_empty" by (simp add: live_def record_empty_def)
  have mem: "r \<in> set ?rs" if "r \<in> set ?rs'" "live r" for r
    using that dead set_update_subset_insert by fastforce
  have keep: "r \<in> set ?rs'" if "r \<in> set ?rs" "r \<noteq> ?rs ! k" for r
    using that by (metis in_set_conv_nth length_list_update nth_list_update_neq)
  have "rec_ok (?rs ! k)" using parts k(1) by (simp add: list_all_length)
  then have not1: "pr_pid (?rs ! k) \<noteq> 1"
    using p k(2) by (auto simp: rec_ok_def)
  have orphan: "pr_parent r \<noteq> pr_pid (?rs ! k)" if "r \<in> set ?rs" "live r" for r
    using parts that k not1 unfolding zombies_ok_def by (metis nth_mem singletonD)
  have "list_all rec_ok ?rs'"
    using parts by (intro list_all_update) (auto simp: rec_ok_def live_def record_empty_def)
  moreover have "pids_distinct ?rs'"
    unfolding pids_distinct_def
  proof (intro allI impI, elim conjE)
    fix a b
    assume ab: "a < length ?rs'" "b < length ?rs'" "live (?rs' ! a)" "live (?rs' ! b)"
      "pr_pid (?rs' ! a) = pr_pid (?rs' ! b)"
    with dead have "a \<noteq> k" "b \<noteq> k" by auto
    with ab show "a = b" using pids_distinctD [of ?rs a b] parts by simp
  qed
  moreover have "pids_below (pt_next_pid pt) ?rs'"
    using parts mem unfolding pids_below_def by blast
  moreover have "parents_ok ?rs'"
    using parts mem keep orphan unfolding parents_ok_def by metis
  moreover have "zombies_ok {1} ?rs'"
    using parts mem zombie_live unfolding zombies_ok_def by blast
  ultimately show ?thesis using parts by (simp add: proc_inv_def)
qed

lemma proc_find_nonzero: "proc_ok pt \<Longrightarrow> proc_find (pt_records pt) pid = Some i \<Longrightarrow> pid \<noteq> 0"
  by (auto simp: proc_inv_def list_all_length rec_ok_def dest!: proc_find_SomeD)

lemma proc_wait_ok:
  assumes "proc_ok pt" shows "proc_ok (fst (proc_wait pt parent_pid selector no_hang))"
proof (cases "proc_find (pt_records pt) parent_pid")
  case (Some i)
  let ?z = "first_index (\<lambda>r. wait_candidate (pt_records pt ! i) parent_pid selector r \<and>
    pr_state r = Proc_zombie) (pt_records pt)"
  have "proc_ok (pt\<lparr>pt_records := (pt_records pt)[k := record_empty]\<rparr>)" if "?z = Some k" for k
    using first_index_SomeD [OF that] proc_find_nonzero [OF assms Some]
    by (intro proc_ok_remove [OF assms]) (auto simp: wait_candidate_def)
  moreover have "proc_ok (pt\<lparr>pt_records := upd_nth i (\<lambda>r. r\<lparr>pr_state := Proc_waiting\<rparr>) (pt_records pt)\<rparr>)"
    if "pr_state (pt_records pt ! i) \<noteq> Proc_zombie"
    using proc_find_SomeD [OF Some] that by (intro same_shape_ok [OF _ assms] state_change_shape) auto
  ultimately show ?thesis
    using Some assms by (simp add: proc_wait_def Let_def split: option.split)
qed (simp add: proc_wait_def assms)

lemma pids_distinct_cong:
  assumes "pids_distinct rs" "length rs' = length rs"
    "\<And>i. i < length rs \<Longrightarrow> live (rs' ! i) = live (rs ! i) \<and> pr_pid (rs' ! i) = pr_pid (rs ! i)"
  shows "pids_distinct rs'"
  using assms unfolding pids_distinct_def by metis

lemma mark_zombie_inv:
  assumes ok: "proc_ok pt" and i: "i < length (pt_records pt)" "live (pt_records pt ! i)"
  shows "proc_inv {1, pr_pid (pt_records pt ! i)} (pt\<lparr>pt_records := upd_nth i (\<lambda>r. r\<lparr>pr_exit_status := status,
    pr_state := Proc_zombie, pr_address_space := False\<rparr>) (pt_records pt)\<rparr>)"
  (is "proc_inv _ (pt\<lparr>pt_records := upd_nth i ?f ?rs\<rparr>)")
proof -
  let ?rs' = "upd_nth i ?f ?rs" and ?z = "?f (?rs ! i)"
  note parts = ok [unfolded proc_inv_def]
  have z: "live ?z" "pr_pid ?z = pr_pid (?rs ! i)" "pr_parent ?z = pr_parent (?rs ! i)"
    by (simp_all add: live_def)
  have mem: "r = ?z \<or> r \<in> set ?rs" if "r \<in> set ?rs'" for r
    using that set_update_subset_insert unfolding upd_nth_def by fastforce
  have keep: "\<exists>q' \<in> set ?rs'. live q' \<and> pr_pid q' = pr_pid q" if "q \<in> set ?rs" "live q" for q
    using that i z by (metis in_set_conv_nth length_upd_nth nth_upd_nth)
  have i_in: "?rs ! i \<in> set ?rs" using i(1) by simp
  have "rec_ok ?z" using parts i by (auto simp: rec_ok_def live_def list_all_length)
  then have "list_all rec_ok ?rs'" using parts by (simp add: list_all_upd_nth)
  moreover have "pids_distinct ?rs'"
    by (rule pids_distinct_cong [of ?rs]) (use parts i z in \<open>auto simp: nth_upd_nth\<close>)
  moreover have "pids_below (pt_next_pid pt) ?rs'"
    using parts mem z i_in i(2) unfolding pids_below_def by metis
  moreover have "parents_ok ?rs'"
    using parts mem keep z i_in i(2) unfolding parents_ok_def by metis
  moreover have "zombies_ok {1, pr_pid (?rs ! i)} ?rs'"
    unfolding zombies_ok_def
  proof (intro ballI impI, elim conjE)
    fix r q
    assume rq: "r \<in> set ?rs'" "q \<in> set ?rs'" "live r" "pr_state q = Proc_zombie" "pr_parent r = pr_pid q"
    from mem rq(1,3) z i_in i(2) obtain r0 where "r0 \<in> set ?rs" "live r0" "pr_parent r0 = pr_parent r" by metis
    with mem [OF rq(2)] rq(4,5) parts z(2) show "pr_pid q \<in> {1, pr_pid (?rs ! i)}"
      unfolding zombies_ok_def by fastforce
  qed
  ultimately show ?thesis using parts by (simp add: proc_inv_def)
qed

lemma reparent_children_ok:
  assumes inv: "proc_inv {1, e} pt" and e: "e \<noteq> 0"
  shows "proc_ok (pt\<lparr>pt_records := reparent_children e (pt_records pt)\<rparr>)"
proof -
  let ?rs = "pt_records pt"
  define adopter :: u32 where
    "adopter = (if list_ex (\<lambda>r. live r \<and> pr_pid r = 1 \<and> pr_pid r \<noteq> e) ?rs then 1 else 0)"
  define f where "f = (\<lambda>r. if live r \<and> pr_parent r = e then r\<lparr>pr_parent := adopter\<rparr> else r)"
  have eq: "reparent_children e ?rs = map f ?rs"
    by (simp add: reparent_children_def Let_def f_def adopter_def)
  note parts = inv [unfolded proc_inv_def]
  have f: "live (f r) = live r" "pr_pid (f r) = pr_pid r" "pr_state (f r) = pr_state r"
    "pr_parent (f r) = (if live r \<and> pr_parent r = e then adopter else pr_parent r)" for r
    by (auto simp: f_def live_def)
  have a01: "adopter = 0 \<or> adopter = 1 \<and> (\<exists>q \<in> set ?rs. live q \<and> pr_pid q = 1)"
    by (auto simp: adopter_def list_ex_iff)
  have "rec_ok (f r)" if "rec_ok r" for r
  proof -
    have "adopter < pr_pid r" if "live r" "pr_parent r = e"
      using \<open>rec_ok r\<close> that e a01 by (auto simp: rec_ok_def word_less_nat_alt unat_eq_0 [symmetric] simp del: unat_eq_0)
    with that show ?thesis by (auto simp: f_def rec_ok_def live_def)
  qed
  then have "list_all rec_ok (map f ?rs)" using parts by (simp add: list_all_iff)
  moreover have "pids_distinct (map f ?rs)"
    by (rule pids_distinct_cong [of ?rs]) (use parts f in auto)
  moreover have "pids_below (pt_next_pid pt) (map f ?rs)"
    using parts unfolding pids_below_def by (auto simp: f)
  moreover have "parents_ok (map f ?rs)"
    using parts a01 unfolding parents_ok_def by (auto simp: f)
  moreover have "zombies_ok {1} (map f ?rs)"
  proof -
    have "pr_pid q = 1"
      if "r \<in> set ?rs" "q \<in> set ?rs" "live r" "pr_state q = Proc_zombie" "pr_parent (f r) = pr_pid q" for r q
    proof (cases "pr_parent r = e")
      case True
      have "pr_pid q \<noteq> 0" using that(2,4) parts by (auto simp: list_all_iff rec_ok_def)
      with True that f(4) a01 show ?thesis by auto
    next
      case False
      with that f(4) parts show ?thesis unfolding zombies_ok_def by fastforce
    qed
    then show ?thesis unfolding zombies_ok_def by (auto simp: f(1-3))
  qed
  ultimately show ?thesis using parts by (simp add: proc_inv_def eq)
qed

lemma proc_exit_ok:
  assumes "proc_ok pt" shows "proc_ok (fst (proc_exit pt pid status))"
proof (cases "proc_find (pt_records pt) pid")
  case (Some i)
  note i = proc_find_SomeD [OF Some]
  let ?rs = "upd_nth i (\<lambda>r. r\<lparr>pr_exit_status := status, pr_state := Proc_zombie, pr_address_space := False\<rparr>)
    (pt_records pt)"
  have "same_shape ?rs (wake_waiting_parent i (wake_vfork_parent i ?rs))"
    by (rule same_shape_trans [OF wake_vfork_parent_shape wake_waiting_parent_shape])
  from same_shape_ok [OF _ mark_zombie_inv [OF assms]] this i
  have "proc_inv {1, pid} (pt\<lparr>pt_records := wake_waiting_parent i (wake_vfork_parent i ?rs)\<rparr>)"
    by fastforce
  from reparent_children_ok [OF this] proc_find_nonzero [OF assms Some] Some assms show ?thesis
    by (auto simp: proc_exit_def Let_def)
qed (simp add: proc_exit_def assms)

section \<open>Runs of operations\<close>

datatype proc_op =
    Op_initialize u32
  | Op_fork u32 bool
  | Op_exec u32
  | Op_exit u32 u32
  | Op_wait u32 wait_selector bool
  | Op_setpgid u32 u32 u32
  | Op_setsid u32
  | Op_stop u32
  | Op_resume u32

fun proc_step :: "proc_op \<Rightarrow> process_table \<Rightarrow> process_table" where
  "proc_step (Op_initialize pid) pt = fst (proc_initialize pt pid)"
| "proc_step (Op_fork parent vfork) pt = fst (proc_fork pt parent vfork)"
| "proc_step (Op_exec pid) pt = fst (mark_exec pt pid)"
| "proc_step (Op_exit pid status) pt = fst (proc_exit pt pid status)"
| "proc_step (Op_wait parent selector no_hang) pt = fst (proc_wait pt parent selector no_hang)"
| "proc_step (Op_setpgid caller target grp) pt = fst (set_process_group pt caller target grp)"
| "proc_step (Op_setsid pid) pt = fst (create_session pt pid)"
| "proc_step (Op_stop pid) pt = fst (proc_stop pt pid)"
| "proc_step (Op_resume pid) pt = fst (proc_resume pt pid)"

definition proc_run :: "proc_op list \<Rightarrow> process_table \<Rightarrow> process_table" where
  "proc_run ops pt = fold proc_step ops pt"

lemma proc_run_simps [simp]:
  "proc_run [] pt = pt" "proc_run (a # ops) pt = proc_run ops (proc_step a pt)"
  by (simp_all add: proc_run_def)

lemma proc_step_ok: "proc_ok pt \<Longrightarrow> proc_ok (proc_step a pt)"
  by (cases a) (simp_all add: proc_initialize_ok proc_fork_ok mark_exec_ok proc_exit_ok proc_wait_ok
      set_process_group_ok create_session_ok proc_stop_ok proc_resume_ok)

lemma proc_run_ok: "proc_ok pt \<Longrightarrow> proc_ok (proc_run ops pt)"
  by (induction ops arbitrary: pt) (simp_all add: proc_step_ok)

text \<open>The parent of a process, and the chain of its ancestors.\<close>

definition parent_of :: "process_record list \<Rightarrow> (u32 \<times> u32) set" where
  "parent_of rs = {(pr_parent r, pr_pid r) | r. r \<in> set rs \<and> live r \<and> pr_parent r \<noteq> 0}"

lemma parent_of_acyclic: "list_all rec_ok rs \<Longrightarrow> acyclic (parent_of rs)"
proof -
  assume ok: "list_all rec_ok rs"
  have "parent_of rs \<subseteq> {(a, b). a < b}"
    using ok by (auto simp: parent_of_def list_all_iff rec_ok_def)
  moreover have "acyclic {(a, b). (a :: u32) < b}"
    using acyclic_subset [OF wf_acyclic [OF wf_measure [of unat]]] by (auto simp: word_less_nat_alt measure_def inv_image_def)
  ultimately show ?thesis by (rule acyclic_subset [rotated])
qed

text \<open>
  C2: whatever operations are run on a fresh table, the class's \<open>invariant()\<close> check succeeds:
  live pids are non-zero and pairwise different, groups and sessions are set, free slots are
  blank and zombies have given up their address space. Beyond that check, the parent links
  name live records and form a forest.
\<close>

theorem process_table_invariant:
  assumes "2 \<le> capacity" "capacity < 2 ^ 32"
  shows "let rs = pt_records (proc_run ops (process_table_init capacity))
         in records_invariant rs \<and> acyclic (parent_of rs) \<and>
            (\<forall>p. p \<in> Domain (parent_of rs) \<longrightarrow> proc_find rs p \<noteq> None)"
proof -
  let ?pt = "proc_run ops (process_table_init capacity)"
  note parts = proc_run_ok [OF proc_ok_init [OF assms], of ops, unfolded proc_inv_def]
  have "\<forall>p. p \<in> Domain (parent_of (pt_records ?pt)) \<longrightarrow> proc_find (pt_records ?pt) p \<noteq> None"
    using parts by (auto simp: parents_ok_def parent_of_def proc_find_None)
  with parts records_invariant_if_ok parent_of_acyclic show ?thesis
    by (simp add: Let_def)
qed

theorem process_table_invariant_witness:
  "let rs = pt_records (proc_run [Op_initialize 1, Op_fork 1 False, Op_fork 2 True, Op_exit 2 7] (process_table_init 4))
   in (map pr_pid rs = [1, 2, 3, 0] \<and> map pr_parent rs = [0, 1, 1, 0]) \<and>
      records_invariant rs \<and> acyclic (parent_of rs)"
proof -
  have "map pr_pid (pt_records (proc_run [Op_initialize 1, Op_fork 1 False, Op_fork 2 True, Op_exit 2 7]
      (process_table_init 4))) = [1, 2, 3, 0]"
    "map pr_parent (pt_records (proc_run [Op_initialize 1, Op_fork 1 False, Op_fork 2 True, Op_exit 2 7]
      (process_table_init 4))) = [0, 1, 1, 0]"
    by code_simp+
  then show ?thesis
    using process_table_invariant [of 4 "[Op_initialize 1, Op_fork 1 False, Op_fork 2 True, Op_exit 2 7]"]
    unfolding Let_def by simp
qed

section \<open>Exit, wait and vfork\<close>

subsection \<open>Exit and exec, slot by slot\<close>

text \<open>Waking the process with a given pid if it is in a given state.\<close>

definition woken :: "u32 \<Rightarrow> process_state \<Rightarrow> process_record \<Rightarrow> process_record" where
  "woken p s r = (if live r \<and> pr_pid r = p \<and> pr_state r = s then r\<lparr>pr_state := Proc_runnable\<rparr> else r)"

lemma woken_simps [simp]:
  "pr_pid (woken p s r) = pr_pid r" "pr_parent (woken p s r) = pr_parent r"
  "pr_process_group (woken p s r) = pr_process_group r" "pr_exit_status (woken p s r) = pr_exit_status r"
  "pr_vfork_parent (woken p s r) = pr_vfork_parent r" "live (woken p s r) = live r"
  by (auto simp: woken_def live_def)

lemma wake_nth:
  assumes "pids_distinct rs" "j < length rs"
  shows "(case proc_find rs p of None \<Rightarrow> rs
          | Some k \<Rightarrow> if pr_state (rs ! k) = s then upd_nth k (\<lambda>r. r\<lparr>pr_state := Proc_runnable\<rparr>) rs else rs) ! j
         = woken p s (rs ! j)"
proof (cases "proc_find rs p")
  case None
  then have "\<not> (live (rs ! j) \<and> pr_pid (rs ! j) = p)" using assms(2) by (auto simp: proc_find_None)
  with None show ?thesis by (auto simp: woken_def)
next
  case (Some k)
  note k = proc_find_SomeD [OF Some]
  show ?thesis
  proof (cases "j = k")
    case False
    with pids_distinctD [OF assms(1), of j k] assms(2) k have "\<not> (live (rs ! j) \<and> pr_pid (rs ! j) = p)" by auto
    with Some False show ?thesis by (auto simp: woken_def)
  qed (use Some k in \<open>auto simp: woken_def\<close>)
qed

lemma wake_waiting_parent_nth:
  "pids_distinct rs \<Longrightarrow> j < length rs \<Longrightarrow>
   wake_waiting_parent i rs ! j = woken (pr_parent (rs ! i)) Proc_waiting (rs ! j)"
  unfolding wake_waiting_parent_def by (rule wake_nth)

lemma length_wakes [simp]:
  "length (wake_vfork_parent i rs) = length rs" "length (wake_waiting_parent i rs) = length rs"
  using same_shape_length [OF wake_vfork_parent_shape] same_shape_length [OF wake_waiting_parent_shape] by auto

lemma wake_vfork_parent_nth:
  assumes "pids_distinct rs" "j < length rs" "list_all rec_ok rs"
  shows "wake_vfork_parent i rs ! j =
    (if j = i then (woken (pr_vfork_parent (rs ! i)) Proc_vfork_wait (rs ! j))\<lparr>pr_vfork_parent := 0\<rparr>
     else woken (pr_vfork_parent (rs ! i)) Proc_vfork_wait (rs ! j))"
proof (cases "pr_vfork_parent (rs ! i) = 0")
  case True
  have "rec_ok (rs ! j)" using assms(2,3) by (simp add: list_all_length)
  then have w: "woken 0 Proc_vfork_wait (rs ! j) = rs ! j" by (auto simp: woken_def rec_ok_def)
  have "(rs ! i)\<lparr>pr_vfork_parent := 0\<rparr> = rs ! i" using True by (cases "rs ! i") simp
  with True w show ?thesis by (auto simp: wake_vfork_parent_def)
next
  case False
  let ?p = "pr_vfork_parent (rs ! i)"
  let ?rs = "case proc_find rs ?p of None \<Rightarrow> rs | Some k \<Rightarrow>
    if pr_state (rs ! k) = Proc_vfork_wait then upd_nth k (\<lambda>r. r\<lparr>pr_state := Proc_runnable\<rparr>) rs else rs"
  have "length ?rs = length rs" by (simp split: option.split)
  then show ?thesis
    using False wake_nth [OF assms(1,2), where p = ?p and s = Proc_vfork_wait] assms(2)
    by (cases "j = i") (simp_all add: wake_vfork_parent_def nth_upd_nth)
qed

lemma nth_reparent:
  "j < length rs \<Longrightarrow> \<exists>a. (a = 0 \<or> a = 1) \<and> reparent_children e rs ! j =
     (if live (rs ! j) \<and> pr_parent (rs ! j) = e then (rs ! j)\<lparr>pr_parent := a\<rparr> else rs ! j)"
  unfolding reparent_children_def Let_def by auto

lemma length_reparent [simp]: "length (reparent_children e rs) = length rs"
  by (simp add: reparent_children_def Let_def)

text \<open>What an exit does to the exiting record and to every other one.\<close>

definition exit_table :: "process_table \<Rightarrow> nat \<Rightarrow> u32 \<Rightarrow> u32 \<Rightarrow> process_record list" where
  "exit_table pt i pid status = reparent_children pid (wake_waiting_parent i (wake_vfork_parent i
     (upd_nth i (\<lambda>r. r\<lparr>pr_exit_status := status, pr_state := Proc_zombie, pr_address_space := False\<rparr>)
       (pt_records pt))))"

lemma proc_exit_eq:
  "proc_find (pt_records pt) pid = Some i \<Longrightarrow> pr_state (pt_records pt ! i) \<noteq> Proc_zombie \<Longrightarrow>
   proc_exit pt pid status = (pt\<lparr>pt_records := exit_table pt i pid status\<rparr>, Proc_success)"
  by (simp add: proc_exit_def exit_table_def Let_def)

lemma exit_table_nth:
  fixes status :: u32
  assumes ok: "proc_ok pt" and i: "proc_find (pt_records pt) pid = Some i" and j: "j < length (pt_records pt)"
  defines "r \<equiv> pt_records pt ! i" and "q \<equiv> exit_table pt i pid status ! j"
  shows "length (exit_table pt i pid status) = length (pt_records pt)"
    and "live q = live (pt_records pt ! j)" and "pr_pid q = pr_pid (pt_records pt ! j)"
    and "pr_process_group q = pr_process_group (pt_records pt ! j)"
    and "j = i \<Longrightarrow> pr_state q = Proc_zombie \<and> pr_exit_status q = status \<and> pr_parent q = pr_parent r \<and>
           pr_vfork_parent q = 0"
    and "j \<noteq> i \<Longrightarrow> pr_state q = pr_state (woken (pr_parent r) Proc_waiting
           (woken (pr_vfork_parent r) Proc_vfork_wait (pt_records pt ! j))) \<and>
           pr_vfork_parent q = pr_vfork_parent (pt_records pt ! j)"
    and "pr_parent (pt_records pt ! j) \<noteq> pid \<Longrightarrow> pr_parent q = pr_parent (pt_records pt ! j)"
    and "live (pt_records pt ! j) \<Longrightarrow> pr_parent (pt_records pt ! j) = pid \<Longrightarrow> pr_parent q = 0 \<or> pr_parent q = 1"
    and "j \<noteq> i \<Longrightarrow> pr_exit_status q = pr_exit_status (pt_records pt ! j)"
proof -
  let ?f = "\<lambda>r. r\<lparr>pr_exit_status := status, pr_state := Proc_zombie, pr_address_space := False\<rparr>"
  let ?rs1 = "upd_nth i ?f (pt_records pt)"
  let ?rs2 = "wake_vfork_parent i ?rs1"
  let ?rs3 = "wake_waiting_parent i ?rs2"
  note i' = proc_find_SomeD [OF i]
  note parts = ok [unfolded proc_inv_def]
  from i' parts have "rec_ok r" "live r" by (auto simp: r_def list_all_length)
  then have less: "pr_parent r < pid" using i' by (simp add: rec_ok_def r_def)
  have inv1: "list_all rec_ok ?rs1" "pids_distinct ?rs1"
    using mark_zombie_inv [OF ok, of i status] i' by (auto simp: proc_inv_def)
  have inv2: "pids_distinct ?rs2"
    by (rule pids_distinct_cong [OF inv1(2)])
      (use same_shape_nth [OF wake_vfork_parent_shape [of ?rs1 i]] in \<open>auto simp: same_rec_def\<close>)
  have j1: "j < length ?rs1" "j < length ?rs2" "i < length ?rs1" "i < length ?rs2" "j < length ?rs3"
    using j i' by auto
  note nth = wake_waiting_parent_nth [OF inv2 j1(2), of i] wake_vfork_parent_nth [OF inv1(2) j1(1) inv1(1), of i]
    wake_vfork_parent_nth [OF inv1(2) j1(3) inv1(1), of i]
  obtain a where a: "a = 0 \<or> a = 1"
    and q: "q = (if live (?rs3 ! j) \<and> pr_parent (?rs3 ! j) = pid then (?rs3 ! j)\<lparr>pr_parent := a\<rparr> else ?rs3 ! j)"
    using nth_reparent [OF j1(5), of pid] by (auto simp: q_def exit_table_def)
  have z: "woken p s (?f r) = ?f r" if "s \<noteq> Proc_zombie" for p s
    using that by (auto simp: woken_def)
  have ri: "?rs1 ! i = ?f r" using i' by (simp add: r_def)
  have rs2_i: "?rs2 ! i = (?f r)\<lparr>pr_vfork_parent := 0\<rparr>" using nth(3) z ri by simp
  have rs3_i: "?rs3 ! j = (?f r)\<lparr>pr_vfork_parent := 0\<rparr>" if "j = i"
    using nth(1) rs2_i that by (simp add: woken_def)
  have rs3_j: "?rs3 ! j = woken (pr_parent r) Proc_waiting (woken (pr_vfork_parent r) Proc_vfork_wait (pt_records pt ! j))"
    if "j \<noteq> i"
    using nth(1,2) rs2_i ri that by simp
  show "length (exit_table pt i pid status) = length (pt_records pt)"
    by (simp add: exit_table_def)
  have lp: "live (r\<lparr>pr_parent := a\<rparr>) = live r" for r by (simp add: live_def)
  have "live q = live (pt_records pt ! j) \<and> pr_pid q = pr_pid (pt_records pt ! j) \<and>
    pr_process_group q = pr_process_group (pt_records pt ! j)"
  proof (cases "j = i")
    case True
    with q rs3_i [OF True] i' show ?thesis by (simp add: r_def live_def)
  next
    case False
    with q rs3_j [OF False] show ?thesis by (simp add: lp)
  qed
  then show "live q = live (pt_records pt ! j)" "pr_pid q = pr_pid (pt_records pt ! j)"
    "pr_process_group q = pr_process_group (pt_records pt ! j)" by auto
  show "j = i \<Longrightarrow> pr_state q = Proc_zombie \<and> pr_exit_status q = status \<and> pr_parent q = pr_parent r \<and>
           pr_vfork_parent q = 0"
    using q rs3_i less by auto
  show "j \<noteq> i \<Longrightarrow> pr_state q = pr_state (woken (pr_parent r) Proc_waiting
           (woken (pr_vfork_parent r) Proc_vfork_wait (pt_records pt ! j))) \<and>
           pr_vfork_parent q = pr_vfork_parent (pt_records pt ! j)"
    using q rs3_j by auto
  show "pr_parent (pt_records pt ! j) \<noteq> pid \<Longrightarrow> pr_parent q = pr_parent (pt_records pt ! j)"
    using q rs3_i rs3_j by (cases "j = i") (auto simp: r_def)
  show "live (pt_records pt ! j) \<Longrightarrow> pr_parent (pt_records pt ! j) = pid \<Longrightarrow> pr_parent q = 0 \<or> pr_parent q = 1"
    using q a rs3_j less by (cases "j = i") (auto simp: r_def)
  show "j \<noteq> i \<Longrightarrow> pr_exit_status q = pr_exit_status (pt_records pt ! j)"
    using q rs3_j by (auto simp: woken_def)
qed

subsection \<open>A blocked wait is answered by the exit of the child\<close>

lemma wait_would_blockD:
  assumes "proc_wait pt p sel False = (pt1, res)" "wr_status res = Proc_would_block"
    and "proc_find (pt_records pt) p = Some j"
  shows "pr_state (pt_records pt ! j) \<noteq> Proc_zombie"
    "\<forall>k < length (pt_records pt). wait_candidate (pt_records pt ! j) p sel (pt_records pt ! k) \<longrightarrow>
       pr_state (pt_records pt ! k) \<noteq> Proc_zombie"
    "pt1 = pt\<lparr>pt_records := upd_nth j (\<lambda>r. r\<lparr>pr_state := Proc_waiting\<rparr>) (pt_records pt)\<rparr>"
  using assms by (auto simp: proc_wait_def Let_def first_index_None_nth split: option.splits if_splits)

lemma wait_reaps:
  assumes p: "proc_find (pt_records pt) p = Some j" "pr_state (pt_records pt ! j) \<noteq> Proc_zombie"
    and i: "i < length (pt_records pt)" "wait_candidate (pt_records pt ! j) p sel (pt_records pt ! i)"
      "pr_state (pt_records pt ! i) = Proc_zombie"
  shows "\<exists>k < length (pt_records pt). wait_candidate (pt_records pt ! j) p sel (pt_records pt ! k) \<and>
    pr_state (pt_records pt ! k) = Proc_zombie \<and>
    proc_wait pt p sel no_hang = (pt\<lparr>pt_records := (pt_records pt)[k := record_empty]\<rparr>,
      \<lparr>wr_status = Proc_success, wr_pid = pr_pid (pt_records pt ! k),
       wr_status_word = pr_exit_status (pt_records pt ! k)\<rparr>)"
proof -
  let ?Q = "\<lambda>r. wait_candidate (pt_records pt ! j) p sel r \<and> pr_state r = Proc_zombie"
  from i obtain k where k: "first_index ?Q (pt_records pt) = Some k"
    using first_index_ex [of "pt_records pt ! i" "pt_records pt" ?Q] by auto
  from first_index_SomeD [OF this] k p show ?thesis
    by (intro exI [of _ k]) (auto simp: proc_wait_def Let_def)
qed

text \<open>The exit of a matching child, seen from a parent that waits: its record is the zombie to reap, and
  any other zombie that matches was adopted by process 1.\<close>

lemma exit_candidate:
  assumes ok: "proc_ok pt" and p: "proc_find (pt_records pt) p = Some j" and c: "proc_find (pt_records pt) c = Some i"
    and none: "\<forall>k < length (pt_records pt). wait_candidate (pt_records pt ! j) p sel (pt_records pt ! k) \<longrightarrow>
       pr_state (pt_records pt ! k) \<noteq> Proc_zombie"
    and k: "k < length (pt_records pt)" "k \<noteq> i"
      "wait_candidate (exit_table pt i c status ! j) p sel (exit_table pt i c status ! k)"
      "pr_state (exit_table pt i c status ! k) = Proc_zombie"
  shows "p = 1 \<and> sel \<noteq> Wait_pid c"
proof -
  note j' = proc_find_SomeD [OF p] and i' = proc_find_SomeD [OF c]
  note nj = exit_table_nth [OF ok c, of j status] and nk = exit_table_nth [OF ok c k(1), of status]
  have z: "pr_state (pt_records pt ! k) = Proc_zombie"
    using nk(6) k(2,4) by (auto simp: woken_def split: if_splits)
  have "wait_matches (pt_records pt ! j) (pt_records pt ! k) sel"
    using k(3) nj(4) nk(3,4) j' by (cases sel) (auto simp: wait_candidate_def)
  with none k(1) z nk(2,3) k(3) have "pr_parent (pt_records pt ! k) \<noteq> p"
    by (auto simp: wait_candidate_def)
  with nk(2,7,8) k(3) have "p = 0 \<or> p = 1" by (auto simp: wait_candidate_def)
  moreover have "p \<noteq> 0" using proc_find_nonzero [OF ok p] .
  moreover have "pr_pid (pt_records pt ! k) \<noteq> c"
    using pids_distinctD [of "pt_records pt" k i] ok k nk(2) i' by (auto simp: proc_inv_def wait_candidate_def)
  ultimately show ?thesis using k(3) nk(3) by (auto simp: wait_candidate_def)
qed

lemma exit_wakes_waiter:
  fixes status :: u32
  assumes ok: "proc_ok pt" and p: "proc_find (pt_records pt) p = Some j" "pr_state (pt_records pt ! j) = Proc_waiting"
    and c: "proc_find (pt_records pt) c = Some i" "pr_state (pt_records pt ! i) \<noteq> Proc_zombie"
      "wait_candidate (pt_records pt ! j) p sel (pt_records pt ! i)"
  defines "rs \<equiv> exit_table pt i c status"
  shows "proc_find rs p = Some j" "pr_state (rs ! j) = Proc_runnable"
    "wait_candidate (rs ! j) p sel (rs ! i)" "pr_state (rs ! i) = Proc_zombie" "pr_pid (rs ! i) = c"
    "pr_exit_status (rs ! i) = status"
proof -
  note j' = proc_find_SomeD [OF p(1)] and i' = proc_find_SomeD [OF c(1)]
  note nj = exit_table_nth [OF ok c(1), of j status] and ni = exit_table_nth [OF ok c(1), of i status]
  have "i \<noteq> j"
    using c(3) i' j' ok by (auto simp: wait_candidate_def proc_inv_def list_all_length rec_ok_def)
  have "proc_ok (pt\<lparr>pt_records := rs\<rparr>)"
    using proc_exit_ok [OF ok, of c status] proc_exit_eq [OF c(1,2)] by (simp add: rs_def)
  from proc_ok_find [OF this] nj j' show "proc_find rs p = Some j" by (simp add: rs_def)
  show "pr_state (rs ! j) = Proc_runnable"
    using nj(6) \<open>i \<noteq> j\<close> j' p(2) c(3) by (auto simp: rs_def woken_def wait_candidate_def)
  show "pr_state (rs ! i) = Proc_zombie" "pr_pid (rs ! i) = c" "pr_exit_status (rs ! i) = status"
    using ni i' by (auto simp: rs_def)
  show "wait_candidate (rs ! j) p sel (rs ! i)"
    using c(3) nj(4) ni(2-5) i' j' by (cases sel) (auto simp: rs_def wait_candidate_def)
qed

lemma reaped_gone:
  assumes "proc_ok pt" "proc_find (pt_records pt) c = Some i"
  shows "proc_find ((pt_records pt)[i := record_empty]) c = None"
  unfolding proc_find_None
proof (intro ballI notI, elim conjE)
  fix r
  assume r: "r \<in> set ((pt_records pt)[i := record_empty])" "live r" "pr_pid r = c"
  note i = proc_find_SomeD [OF assms(2)]
  from r(1) obtain k where k: "k < length (pt_records pt)" "r = (pt_records pt)[i := record_empty] ! k"
    by (auto simp: in_set_conv_nth)
  with r(2) i have "k \<noteq> i" by (auto simp: live_def record_empty_def)
  with k r i show False
    using pids_distinctD [of "pt_records pt" k i] assms(1) by (simp add: proc_inv_def)
qed

text \<open>The table after a wait that blocks: the caller is parked, no matching child is a zombie, and the
  candidates are the same as before.\<close>

lemma wait_parks:
  assumes ok: "proc_ok pt"
    and p: "proc_find (pt_records pt) p = Some j" and c: "proc_find (pt_records pt) c = Some i"
    and m: "wait_candidate (pt_records pt ! j) p sel (pt_records pt ! i)"
    and w: "proc_wait pt p sel False = (pt1, res)" "wr_status res = Proc_would_block"
  shows "proc_ok pt1" "proc_find (pt_records pt1) p = Some j" "proc_find (pt_records pt1) c = Some i"
    "pr_state (pt_records pt1 ! j) = Proc_waiting" "pr_state (pt_records pt1 ! i) \<noteq> Proc_zombie"
    "wait_candidate (pt_records pt1 ! j) p sel (pt_records pt1 ! i)"
    "\<forall>k < length (pt_records pt1). wait_candidate (pt_records pt1 ! j) p sel (pt_records pt1 ! k) \<longrightarrow>
      pr_state (pt_records pt1 ! k) \<noteq> Proc_zombie"
proof -
  note b = wait_would_blockD [OF w p]
  note j' = proc_find_SomeD [OF p] and i' = proc_find_SomeD [OF c]
  show ok1: "proc_ok pt1" using proc_wait_ok [OF ok] w(1) by (metis fst_conv)
  have ij: "i \<noteq> j"
    using ok m i' j' by (auto simp: wait_candidate_def proc_inv_def list_all_length rec_ok_def)
  show "proc_find (pt_records pt1) p = Some j" "proc_find (pt_records pt1) c = Some i"
    using proc_ok_find [OF ok1] b(3) j' i' ij by (auto simp: live_def)
  show "pr_state (pt_records pt1 ! j) = Proc_waiting" "pr_state (pt_records pt1 ! i) \<noteq> Proc_zombie"
    using b m i' j' ij by auto
  have cand: "wait_candidate (pt_records pt1 ! j) p sel (pt_records pt1 ! k) \<longleftrightarrow>
      wait_candidate (pt_records pt ! j) p sel (pt_records pt ! k)" if "k < length (pt_records pt)" for k
    using b(1,3) that j' by (cases sel) (auto simp: wait_candidate_def nth_upd_nth live_def)
  show "wait_candidate (pt_records pt1 ! j) p sel (pt_records pt1 ! i)" using cand m i' by blast
  show "\<forall>k < length (pt_records pt1). wait_candidate (pt_records pt1 ! j) p sel (pt_records pt1 ! k) \<longrightarrow>
      pr_state (pt_records pt1 ! k) \<noteq> Proc_zombie"
    using b(2,3) cand by (auto simp: nth_upd_nth)
qed

text \<open>
  C3: let a process \<open>p\<close> wait for any child, for one child or for a process group, and let the wait block.
  Then \<open>p\<close> is parked as \<open>waiting\<close>. The exit of a child \<open>c\<close> that matches the selector succeeds and makes \<open>p\<close>
  runnable. The retried wait, with or without \<open>WNOHANG\<close>, returns a zombie child of \<open>p\<close> that matches,
  with the status recorded for it, and frees its record. If \<open>p\<close> is not process 1, or if it waits for
  \<open>c\<close> by its pid, that child is \<open>c\<close> and the status is the one it exited with; process 1 may get
  another zombie, which \<open>c\<close> left to it.
\<close>

theorem wait_exit_round_trip:
  assumes "proc_ok pt"
    and "proc_find (pt_records pt) p = Some j" "proc_find (pt_records pt) c = Some i"
    and "wait_candidate (pt_records pt ! j) p sel (pt_records pt ! i)"
    and "proc_wait pt p sel False = (pt1, res)" "wr_status res = Proc_would_block"
    and "proc_exit pt1 c status = (pt2, st)"
    and "proc_wait pt2 p sel no_hang = (pt3, res3)"
  shows "map_option (\<lambda>j. pr_state (pt_records pt1 ! j)) (proc_find (pt_records pt1) p) = Some Proc_waiting \<and>
    st = Proc_success \<and>
    map_option (\<lambda>j. pr_state (pt_records pt2 ! j)) (proc_find (pt_records pt2) p) = Some Proc_runnable \<and>
    wr_status res3 = Proc_success \<and>
    (\<exists>k. proc_find (pt_records pt2) (wr_pid res3) = Some k \<and>
       wait_candidate (pt_records pt2 ! j) p sel (pt_records pt2 ! k) \<and>
       pr_state (pt_records pt2 ! k) = Proc_zombie \<and> pr_exit_status (pt_records pt2 ! k) = wr_status_word res3) \<and>
    proc_find (pt_records pt3) (wr_pid res3) = None \<and>
    (p \<noteq> 1 \<or> sel = Wait_pid c \<longrightarrow> res3 = \<lparr>wr_status = Proc_success, wr_pid = c, wr_status_word = status\<rparr>)"
proof -
  note parked = wait_parks [OF assms(1-6)]
  note ok1 = parked(1) and f1 = parked(2,3) and s1 = parked(4,5) and c1 = parked(6) and none = parked(7)
  have x: "pt_records pt2 = exit_table pt1 i c status" "st = Proc_success"
    using proc_exit_eq [OF f1(2) s1(2)] assms(7) by auto
  have ok2: "proc_ok pt2" using proc_exit_ok [OF ok1] assms(7) by (metis fst_conv)
  note e = exit_wakes_waiter [OF ok1 f1(1) s1(1) f1(2) s1(2) c1, where status = status, folded x(1)]
  have len: "length (pt_records pt2) = length (pt_records pt1)" "i < length (pt_records pt1)"
    using exit_table_nth(1) [OF ok1 f1(2)] proc_find_SomeD [OF f1(2)] x(1) by auto
  have "\<exists>k < length (pt_records pt2). wait_candidate (pt_records pt2 ! j) p sel (pt_records pt2 ! k) \<and>
      pr_state (pt_records pt2 ! k) = Proc_zombie \<and>
      (pt3, res3) = (pt2\<lparr>pt_records := (pt_records pt2)[k := record_empty]\<rparr>,
        \<lparr>wr_status = Proc_success, wr_pid = pr_pid (pt_records pt2 ! k),
         wr_status_word = pr_exit_status (pt_records pt2 ! k)\<rparr>)"
    unfolding assms(8) [symmetric] by (rule wait_reaps [OF e(1) _ _ e(3,4)]) (use e(2) len in auto)
  then obtain k where k: "k < length (pt_records pt2)"
    "wait_candidate (pt_records pt2 ! j) p sel (pt_records pt2 ! k)" "pr_state (pt_records pt2 ! k) = Proc_zombie"
    "pt3 = pt2\<lparr>pt_records := (pt_records pt2)[k := record_empty]\<rparr>"
    "res3 = \<lparr>wr_status = Proc_success, wr_pid = pr_pid (pt_records pt2 ! k),
       wr_status_word = pr_exit_status (pt_records pt2 ! k)\<rparr>"
    by auto
  have fk: "proc_find (pt_records pt2) (pr_pid (pt_records pt2 ! k)) = Some k"
    using proc_ok_find [OF ok2] k(1,2) by (auto simp: wait_candidate_def)
  have "k = i" if "p \<noteq> 1 \<or> sel = Wait_pid c"
    using exit_candidate [OF ok1 f1 none, of k status] k(1-3) that len x(1) by metis
  with e(5,6) f1 s1 e(1,2) x(2) k fk reaped_gone [OF ok2 fk] show ?thesis by auto
qed

definition demo_family :: process_table where
  "demo_family = proc_run [Op_initialize 1, Op_fork 1 False, Op_fork 2 False] (process_table_init 4)"

theorem wait_exit_round_trip_witness:
  "let pt1 = fst (proc_wait demo_family 2 Wait_any False);
       pt2 = fst (proc_exit pt1 3 256)
   in wr_status (snd (proc_wait demo_family 2 Wait_any False)) = Proc_would_block \<and>
      snd (proc_wait pt2 2 Wait_any True) = \<lparr>wr_status = Proc_success, wr_pid = 3, wr_status_word = 256\<rparr>"
proof -
  have ok: "proc_ok demo_family"
    unfolding demo_family_def by (intro proc_run_ok proc_ok_init) auto
  have blocks: "wr_status (snd (proc_wait demo_family 2 Wait_any False)) = Proc_would_block"
    and found: "proc_find (pt_records demo_family) 2 = Some 1" "proc_find (pt_records demo_family) 3 = Some 2"
    and match: "wait_candidate (pt_records demo_family ! 1) 2 Wait_any (pt_records demo_family ! 2)"
    by code_simp+
  from wait_exit_round_trip [OF ok found match prod.collapse [symmetric] blocks prod.collapse [symmetric]
      prod.collapse [symmetric], of 256 True]
  have "snd (proc_wait (fst (proc_exit (fst (proc_wait demo_family 2 Wait_any False)) 3 256)) 2 Wait_any True) =
    \<lparr>wr_status = Proc_success, wr_pid = 3, wr_status_word = 256\<rparr>"
    by simp
  with blocks show ?thesis unfolding Let_def by blast
qed

subsection \<open>Round-robin choice\<close>

definition slot_runs :: "process_record list \<Rightarrow> nat \<Rightarrow> bool" where
  "slot_runs rs i \<longleftrightarrow> can_run (pr_state (rs ! i))"

lemma length_rotation [simp]: "length (rotation n a) = n"
  by (simp add: rotation_def)

lemma set_rotation: "0 < n \<Longrightarrow> set (rotation n a) = {0..<n}"
proof -
  assume n: "0 < n"
  have "t \<in> set (rotation n a)" if "t < n" for t
  proof -
    define d where "d = (n + t - a mod n) mod n"
    have "(a + (if d = 0 then n else d)) mod n = t"
    proof -
      have "(a + d) mod n = (a mod n + (n + t - a mod n)) mod n"
        by (simp add: d_def mod_add_right_eq mod_add_left_eq)
      also have "a mod n + (n + t - a mod n) = n + t"
        using mod_less_divisor [OF n, of a] by linarith
      finally have "(a + d) mod n = t" using that by simp
      then show ?thesis by auto
    qed
    moreover have "(if d = 0 then n else d) \<in> set [1..<Suc n]"
      using n by (auto simp: d_def less_Suc_eq_le less_imp_le)
    ultimately show ?thesis unfolding rotation_def set_map
      by (intro image_eqI [of t _ "if d = 0 then n else d"]) simp_all
  qed
  moreover have "set (rotation n a) \<subseteq> {0..<n}" using n by (auto simp: rotation_def)
  ultimately show ?thesis by auto
qed

lemma rotation_find:
  assumes "find P (rotation n a) = Some i"
  shows "\<exists>d. 1 \<le> d \<and> d \<le> n \<and> i = (a + d) mod n \<and> P i \<and> (\<forall>e. 1 \<le> e \<and> e < d \<longrightarrow> \<not> P ((a + e) mod n))"
proof -
  from assms obtain m where m: "m < n" "P (rotation n a ! m)" "i = rotation n a ! m"
    "\<forall>j < m. \<not> P (rotation n a ! j)"
    by (auto simp: find_Some_iff)
  have nth: "rotation n a ! j = (a + Suc j) mod n" if "j < n" for j
    using that unfolding rotation_def by (simp del: upt_Suc)
  have "\<not> P ((a + e) mod n)" if "1 \<le> e" "e < Suc m" for e
  proof -
    have "e - 1 < m" "Suc (e - 1) = e" using that by auto
    with m(1,4) nth [of "e - 1"] show ?thesis by (metis less_trans)
  qed
  with m nth [OF m(1)] show ?thesis by (intro exI [of _ "Suc m"]) auto
qed

lemma next_runnable_None:
  "rs \<noteq> [] \<Longrightarrow> (\<forall>i < length rs. \<not> slot_runs rs i) \<Longrightarrow> next_runnable rs p = 0"
proof -
  assume rs: "rs \<noteq> []" "\<forall>i < length rs. \<not> slot_runs rs i"
  then have "find (\<lambda>i. can_run (pr_state (rs ! i))) (rotation (length rs) a) = None" for a
    by (auto simp: find_None_iff set_rotation slot_runs_def)
  with rs show ?thesis by (simp add: next_runnable_def slot_runs_def)
qed

lemma next_runnable_Some:
  assumes "rs \<noteq> []" "i < length rs" "slot_runs rs i"
  shows "\<exists>k < length rs. slot_runs rs k \<and> next_runnable rs p = pr_pid (rs ! k)"
proof -
  let ?a = "case first_index (\<lambda>r. pr_pid r = p \<and> live r) rs of None \<Rightarrow> 0 | Some i \<Rightarrow> i"
  have "find (\<lambda>i. can_run (pr_state (rs ! i))) (rotation (length rs) ?a) \<noteq> None"
    using assms by (auto simp: find_None_iff set_rotation slot_runs_def)
  then obtain k where k: "find (\<lambda>i. can_run (pr_state (rs ! i))) (rotation (length rs) ?a) = Some k" by auto
  with assms(1) have "k \<in> set (rotation (length rs) ?a)" "slot_runs rs k"
    by (auto simp: find_Some_iff slot_runs_def)
  with assms(1) have "k < length rs" "slot_runs rs k" by (auto simp: set_rotation)
  with k show ?thesis by (auto simp: next_runnable_def)
qed

lemma next_runnable_step:
  assumes "proc_find rs p = Some a" "t < length rs" "slot_runs rs t" "(a + d) mod length rs = t" "1 \<le> d"
  shows "\<exists>o'. 1 \<le> o' \<and> o' \<le> d \<and> next_runnable rs p = pr_pid (rs ! ((a + o') mod length rs)) \<and>
    slot_runs rs ((a + o') mod length rs)"
proof -
  have loc: "first_index (\<lambda>r. pr_pid r = p \<and> live r) rs = Some a"
    using assms(1) by (simp add: proc_find_def conj_commute)
  let ?f = "find (\<lambda>i. can_run (pr_state (rs ! i))) (rotation (length rs) a)"
  have "set (rotation (length rs) a) = {0..<length rs}" using assms(2) by (intro set_rotation) auto
  then have "?f \<noteq> None" using assms(2,3) by (auto simp: find_None_iff slot_runs_def)
  then obtain i where i: "?f = Some i" by auto
  from rotation_find [OF i] obtain o' where o': "1 \<le> o'" "i = (a + o') mod length rs" "slot_runs rs i"
    "\<forall>e. 1 \<le> e \<and> e < o' \<longrightarrow> \<not> slot_runs rs ((a + e) mod length rs)"
    by (auto simp: slot_runs_def)
  from o'(4) assms(3-5) have "o' \<le> d" by (metis not_le)
  with o' i loc show ?thesis by (auto simp: next_runnable_def)
qed

lemma next_runnable_reaches:
  assumes "pids_distinct rs" "\<forall>i < length rs. slot_runs rs i \<longrightarrow> live (rs ! i)"
    and "t < length rs" "slot_runs rs t"
  shows "proc_find rs p = Some a \<Longrightarrow> (a + d) mod length rs = t \<Longrightarrow> 1 \<le> d \<Longrightarrow>
    \<exists>k. 1 \<le> k \<and> k \<le> d \<and> (next_runnable rs ^^ k) p = pr_pid (rs ! t)"
proof (induction d arbitrary: p a rule: less_induct)
  case (less d)
  let ?n = "length rs"
  from next_runnable_step [OF less.prems(1) assms(3,4) less.prems(2,3)] obtain o' where
    o': "1 \<le> o'" "o' \<le> d" "next_runnable rs p = pr_pid (rs ! ((a + o') mod ?n))" "slot_runs rs ((a + o') mod ?n)"
    by blast
  show ?case
  proof (cases "o' = d")
    case True
    with o' less.prems show ?thesis by (intro exI [of _ 1]) auto
  next
    case False
    let ?b = "(a + o') mod ?n"
    have b: "?b < ?n" using assms(3) by (intro mod_less_divisor) auto
    with assms(2) o'(4) have "proc_find rs (pr_pid (rs ! ?b)) = Some ?b"
      by (intro proc_find_eqI [OF assms(1)]) auto
    moreover have "(?b + (d - o')) mod ?n = t"
      unfolding mod_add_left_eq using less.prems(2) o'(2) by simp
    moreover have "d - o' < d" "1 \<le> d - o'" using False o' by auto
    ultimately obtain k where "1 \<le> k" "k \<le> d - o'" "(next_runnable rs ^^ k) (pr_pid (rs ! ?b)) = pr_pid (rs ! t)"
      using less.IH [of "d - o'" "pr_pid (rs ! ?b)" ?b] by blast
    with o' show ?thesis
      by (intro exI [of _ "Suc k"]) (auto simp: funpow_Suc_right simp del: funpow.simps)
  qed
qed

lemma next_runnable_sound:
  assumes "proc_ok pt" "next_runnable (pt_records pt) p \<noteq> 0"
  shows "\<exists>t. proc_find (pt_records pt) (next_runnable (pt_records pt) p) = Some t \<and>
    can_run (pr_state (pt_records pt ! t))"
proof -
  let ?rs = "pt_records pt"
  note parts = assms(1) [unfolded proc_inv_def]
  have ne: "?rs \<noteq> []" using parts by auto
  from assms(2) next_runnable_None [OF ne] obtain i where "i < length ?rs" "slot_runs ?rs i" by blast
  from next_runnable_Some [OF ne this] obtain k where k: "k < length ?rs" "slot_runs ?rs k"
    "next_runnable ?rs p = pr_pid (?rs ! k)" by blast
  then have "live (?rs ! k)" by (auto simp: slot_runs_def can_run_def live_def)
  with k proc_find_eqI [of ?rs k] parts show ?thesis by (auto simp: slot_runs_def)
qed

text \<open>
  C5: \<open>next_runnable\<close> returns 0 exactly when no process can run, and otherwise the pid of a
  process that can. It is fair: starting from any process of the table, every process that can
  run is chosen within as many successive calls as the table has slots.
\<close>

theorem next_runnable_round_robin:
  assumes "proc_ok pt"
  shows "let rs = pt_records pt; runs = (\<lambda>q. \<exists>t. proc_find rs q = Some t \<and> can_run (pr_state (rs ! t)))
         in (\<forall>p. (next_runnable rs p = 0 \<longleftrightarrow> (\<forall>q. \<not> runs q)) \<and>
                 (next_runnable rs p \<noteq> 0 \<longrightarrow> runs (next_runnable rs p))) \<and>
            (\<forall>p q. proc_find rs p \<noteq> None \<and> runs q \<longrightarrow>
                   (\<exists>k. 1 \<le> k \<and> k \<le> length rs \<and> (next_runnable rs ^^ k) p = q))"
proof -
  let ?rs = "pt_records pt"
  let ?runs = "\<lambda>q. \<exists>t. proc_find ?rs q = Some t \<and> can_run (pr_state (?rs ! t))"
  note parts = assms [unfolded proc_inv_def]
  have ne: "?rs \<noteq> []" using parts by auto
  have live: "\<forall>i < length ?rs. slot_runs ?rs i \<longrightarrow> live (?rs ! i)"
    by (auto simp: slot_runs_def can_run_def live_def)
  have runsI: "?runs (pr_pid (?rs ! t))" if "t < length ?rs" "slot_runs ?rs t" for t
    using that live proc_find_eqI [of ?rs t] parts by (auto simp: slot_runs_def)
  have runsE: "\<exists>t < length ?rs. slot_runs ?rs t \<and> pr_pid (?rs ! t) = q \<and> q \<noteq> 0" if "?runs q" for q
    using that proc_find_nonzero [OF assms] by (auto simp: slot_runs_def dest: proc_find_SomeD)
  have A: "(next_runnable ?rs p = 0 \<longleftrightarrow> (\<forall>q. \<not> ?runs q)) \<and>
    (next_runnable ?rs p \<noteq> 0 \<longrightarrow> ?runs (next_runnable ?rs p))" for p
  proof (cases "\<exists>i < length ?rs. slot_runs ?rs i")
    case True
    then obtain k where k: "k < length ?rs" "slot_runs ?rs k" "next_runnable ?rs p = pr_pid (?rs ! k)"
      using next_runnable_Some [OF ne] by blast
    from k runsI [OF k(1,2)] runsE show ?thesis by metis
  next
    case False
    then have "next_runnable ?rs p = 0" using next_runnable_None [OF ne] by blast
    with False runsE show ?thesis by metis
  qed
  have "\<exists>k. 1 \<le> k \<and> k \<le> length ?rs \<and> (next_runnable ?rs ^^ k) p = q" if a: "proc_find ?rs p = Some a" and "?runs q" for p q a
  proof -
    from runsE [OF that(2)] obtain t where t: "t < length ?rs" "slot_runs ?rs t" "pr_pid (?rs ! t) = q" by blast
    from t(1) have "t \<in> set (rotation (length ?rs) a)" using set_rotation ne by auto
    then obtain d where "1 \<le> d" "d \<le> length ?rs" "(a + d) mod length ?rs = t"
      by (auto simp: rotation_def simp del: upt_Suc)
    then show ?thesis
      using next_runnable_reaches [OF _ live t(1,2) a, of d] parts t(3) by (auto intro: order_trans)
  qed
  with A show ?thesis unfolding Let_def by blast
qed

theorem next_runnable_round_robin_witness:
  "map pr_state (pt_records demo_family) = [Proc_running, Proc_runnable, Proc_runnable, Proc_free] \<and>
   next_runnable (pt_records demo_family) 1 = 2 \<and>
   (\<exists>k. 1 \<le> k \<and> k \<le> length (pt_records demo_family) \<and> (next_runnable (pt_records demo_family) ^^ k) 2 = 1)"
proof -
  have "proc_ok demo_family"
    unfolding demo_family_def by (intro proc_run_ok proc_ok_init) auto
  moreover have "proc_find (pt_records demo_family) 2 = Some 1" "proc_find (pt_records demo_family) 1 = Some 0"
    "can_run (pr_state (pt_records demo_family ! 0))"
    "map pr_state (pt_records demo_family) = [Proc_running, Proc_runnable, Proc_runnable, Proc_free]"
    "next_runnable (pt_records demo_family) 1 = 2"
    by code_simp+
  ultimately show ?thesis
    using next_runnable_round_robin [of demo_family] unfolding Let_def by (metis option.distinct(1))
qed

subsection \<open>The vfork handshake\<close>

text \<open>
  Process \<open>p\<close> (in slot \<open>j\<close>) is suspended by the vfork that created \<open>c\<close> (in slot \<open>i\<close>), and \<open>c\<close> is
  the only process that will wake it.
\<close>

definition vfork_blocked :: "process_record list \<Rightarrow> nat \<Rightarrow> nat \<Rightarrow> u32 \<Rightarrow> u32 \<Rightarrow> bool" where
  "vfork_blocked rs i j p c \<longleftrightarrow>
     i < length rs \<and> j < length rs \<and> i \<noteq> j \<and> p \<noteq> 0 \<and>
     pr_pid (rs ! j) = p \<and> pr_state (rs ! j) = Proc_vfork_wait \<and>
     pr_pid (rs ! i) = c \<and> live (rs ! i) \<and> pr_state (rs ! i) \<noteq> Proc_zombie \<and> pr_vfork_parent (rs ! i) = p \<and>
     (\<forall>k < length rs. k \<noteq> i \<and> live (rs ! k) \<longrightarrow> pr_vfork_parent (rs ! k) \<noteq> p)"

text \<open>The operations that are not issued by, and do not stop, reap or end, the two processes.\<close>

fun leaves_vfork :: "u32 \<Rightarrow> u32 \<Rightarrow> proc_op \<Rightarrow> bool" where
  "leaves_vfork p c (Op_fork q vfork) \<longleftrightarrow> q \<noteq> p"
| "leaves_vfork p c (Op_exec q) \<longleftrightarrow> q \<noteq> c"
| "leaves_vfork p c (Op_exit q status) \<longleftrightarrow> q \<noteq> p \<and> q \<noteq> c"
| "leaves_vfork p c (Op_wait q selector no_hang) \<longleftrightarrow> q \<noteq> p"
| "leaves_vfork p c (Op_stop q) \<longleftrightarrow> q \<noteq> p"
| "leaves_vfork p c _ \<longleftrightarrow> True"

lemma vfork_blocked_live: "vfork_blocked rs i j p c \<Longrightarrow> live (rs ! j)"
  by (simp add: vfork_blocked_def live_def)

lemma vfork_blocked_cong:
  assumes "vfork_blocked rs i j p c" "length rs' = length rs"
    and "\<And>k. k < length rs \<Longrightarrow> live (rs' ! k) = live (rs ! k) \<and> pr_pid (rs' ! k) = pr_pid (rs ! k)"
    and "\<And>k. k < length rs \<Longrightarrow> pr_vfork_parent (rs' ! k) = pr_vfork_parent (rs ! k) \<or> k \<noteq> i \<and> pr_vfork_parent (rs' ! k) = 0"
    and "pr_state (rs' ! j) = Proc_vfork_wait" "pr_state (rs' ! i) \<noteq> Proc_zombie"
  shows "vfork_blocked rs' i j p c"
  using assms(1,2,5,6) assms(3) [of i] assms(3) [of j] assms(4) [of i] assms(3,4) unfolding vfork_blocked_def by metis

text \<open>Attribute changes of one slot.\<close>

lemma vfork_blocked_upd:
  assumes "vfork_blocked rs i j p c"
    and "pr_pid (f (rs ! k)) = pr_pid (rs ! k)" "pr_vfork_parent (f (rs ! k)) = pr_vfork_parent (rs ! k)"
    and "live (f (rs ! k)) = live (rs ! k)" "(pr_state (f (rs ! k)) = Proc_zombie) = (pr_state (rs ! k) = Proc_zombie)"
    and "k = j \<Longrightarrow> pr_state (f (rs ! k)) = Proc_vfork_wait"
  shows "vfork_blocked (upd_nth k f rs) i j p c"
  using assms unfolding vfork_blocked_def by (auto simp: nth_upd_nth)

lemma vfork_blocked_fork:
  assumes "vfork_blocked (pt_records pt) i j p c" "q \<noteq> p"
  shows "vfork_blocked (pt_records (fst (proc_fork pt q vfork))) i j p c"
proof -
  have ins: "vfork_blocked ((pt_records pt)[k := r]) i j p c"
    if "free_slot (pt_records pt) = Some k" "pr_vfork_parent r \<noteq> p" for k r
  proof -
    from free_slot_SomeD [OF that(1)] vfork_blocked_live [OF assms(1)] assms(1)
    have "k \<noteq> i" "k \<noteq> j" "k < length (pt_records pt)" by (auto simp: vfork_blocked_def)
    with assms(1) that(2) show ?thesis by (auto simp: vfork_blocked_def nth_list_update)
  qed
  have upd: "vfork_blocked (upd_nth a (\<lambda>r. r\<lparr>pr_state := Proc_vfork_wait\<rparr>) ((pt_records pt)[k := r])) i j p c"
    if "free_slot (pt_records pt) = Some k" "pr_vfork_parent r \<noteq> p" "live (pt_records pt ! a)"
      "pr_state (pt_records pt ! a) \<noteq> Proc_zombie" for a k r
    using ins [OF that(1,2)] free_slot_SomeD [OF that(1)] that(3,4)
    by (cases "a = k") (auto simp: live_def intro!: vfork_blocked_upd)
  have "p \<noteq> 0" using assms(1) by (simp add: vfork_blocked_def)
  show ?thesis
    unfolding proc_fork_def Let_def
    using assms \<open>p \<noteq> 0\<close>
    by (auto split: option.splits dest!: proc_find_SomeD dest: free_slot_SomeD intro!: ins upd)
qed


lemma live_no_vfork [simp]: "live (r\<lparr>pr_vfork_parent := v\<rparr>) = live r"
  by (simp add: live_def)

lemma woken_other: "pr_pid r \<noteq> p \<Longrightarrow> woken p s r = r"
  by (simp add: woken_def)

lemma woken_zombie: "s \<noteq> Proc_zombie \<Longrightarrow> pr_state (woken p s r) = Proc_zombie \<longleftrightarrow> pr_state r = Proc_zombie"
  by (auto simp: woken_def)

lemma vfork_blocked_wake:
  assumes "pids_distinct rs" "list_all rec_ok rs" and b: "vfork_blocked rs i j p c"
    and a: "a < length rs" "a \<noteq> i" "live (rs ! a)"
  shows "vfork_blocked (wake_vfork_parent a rs) i j p c"
proof -
  note nth = wake_vfork_parent_nth [OF assms(1) _ assms(2)]
  have "pr_vfork_parent (rs ! a) \<noteq> p" using b a by (auto simp: vfork_blocked_def)
  with b a(2) show ?thesis
    by (intro vfork_blocked_cong [OF b]) (auto simp: nth woken_other woken_zombie vfork_blocked_def)
qed

lemma vfork_blocked_exec:
  assumes ok: "proc_ok pt" and b: "vfork_blocked (pt_records pt) i j p c" "q \<noteq> c"
  shows "vfork_blocked (pt_records (fst (mark_exec pt q))) i j p c"
proof (cases "proc_find (pt_records pt) q")
  case (Some a)
  note a = proc_find_SomeD [OF Some]
  let ?rs = "upd_nth a (\<lambda>r. r\<lparr>pr_executed := True\<rparr>) (pt_records pt)"
  have "same_shape (pt_records pt) ?rs"
    by (intro same_shape_upd) (auto simp: same_rec_def rec_ok_def live_def)
  from same_shape_ok [OF this ok] have inv: "pids_distinct ?rs" "list_all rec_ok ?rs"
    by (auto simp: proc_inv_def)
  have "vfork_blocked ?rs i j p c"
    using b by (intro vfork_blocked_upd) (auto simp: live_def vfork_blocked_def)
  moreover have "a \<noteq> i" using b a by (auto simp: vfork_blocked_def)
  ultimately have "vfork_blocked (wake_vfork_parent a ?rs) i j p c"
    using a by (intro vfork_blocked_wake [OF inv]) (auto simp: live_def)
  with Some b show ?thesis by (simp add: mark_exec_def)
qed (simp add: mark_exec_def b)

lemma vfork_blocked_exit:
  assumes ok: "proc_ok pt" and b: "vfork_blocked (pt_records pt) i j p c" "q \<noteq> p" "q \<noteq> c"
  shows "vfork_blocked (pt_records (fst (proc_exit pt q status))) i j p c"
proof (cases "proc_find (pt_records pt) q")
  case (Some a)
  note a = proc_find_SomeD [OF Some] and nth = exit_table_nth [OF ok Some]
  show ?thesis
  proof (cases "pr_state (pt_records pt ! a) = Proc_zombie")
    case False
    have ne: "a \<noteq> i" "a \<noteq> j" using b a by (auto simp: vfork_blocked_def)
    then have vp: "pr_vfork_parent (pt_records pt ! a) \<noteq> p" using b a by (auto simp: vfork_blocked_def)
    have "vfork_blocked (exit_table pt a q status) i j p c"
    proof (rule vfork_blocked_cong [OF b(1)])
      show "pr_state (exit_table pt a q status ! j) = Proc_vfork_wait"
        using nth(6) [of j] b(1) ne vp by (auto simp: vfork_blocked_def woken_def)
      show "pr_state (exit_table pt a q status ! i) \<noteq> Proc_zombie"
        using nth(6) [of i] b(1) ne by (auto simp: vfork_blocked_def woken_def)
    next
      fix k
      assume k: "k < length (pt_records pt)"
      show "pr_vfork_parent (exit_table pt a q status ! k) = pr_vfork_parent (pt_records pt ! k) \<or>
        k \<noteq> i \<and> pr_vfork_parent (exit_table pt a q status ! k) = 0"
        using nth(5,6) [OF k] ne by (cases "k = a") auto
    qed (use a nth(1-3) in auto)
    with proc_exit_eq [OF Some False] show ?thesis by simp
  qed (simp add: proc_exit_def Some b)
qed (simp add: proc_exit_def b)

lemma vfork_blocked_wait:
  assumes "proc_ok pt" "vfork_blocked (pt_records pt) i j p c" "q \<noteq> p"
  shows "vfork_blocked (pt_records (fst (proc_wait pt q selector no_hang))) i j p c"
proof (cases "proc_find (pt_records pt) q")
  case (Some a)
  note a = proc_find_SomeD [OF Some]
  have "vfork_blocked ((pt_records pt)[k := record_empty]) i j p c"
    if "k < length (pt_records pt)" "pr_state (pt_records pt ! k) = Proc_zombie" for k
  proof -
    from that assms(2) have "k \<noteq> i" "k \<noteq> j" by (auto simp: vfork_blocked_def)
    with that assms(2) show ?thesis
      by (auto simp: vfork_blocked_def nth_list_update live_def record_empty_def)
  qed
  moreover have "vfork_blocked (upd_nth a (\<lambda>r. r\<lparr>pr_state := Proc_waiting\<rparr>) (pt_records pt)) i j p c"
    if "pr_state (pt_records pt ! a) \<noteq> Proc_zombie"
    using assms a that by (intro vfork_blocked_upd) (auto simp: live_def vfork_blocked_def)
  ultimately show ?thesis
    using Some assms(2) by (auto simp: proc_wait_def Let_def split: option.split dest!: first_index_SomeD)
qed (simp add: proc_wait_def assms)

lemma vfork_blocked_step:
  assumes ok: "proc_ok pt" and b: "vfork_blocked (pt_records pt) i j p c" and l: "leaves_vfork p c a"
  shows "vfork_blocked (pt_records (proc_step a pt)) i j p c"
proof -
  from b have st: "pr_state (pt_records pt ! j) = Proc_vfork_wait" "pr_pid (pt_records pt ! j) = p"
    by (auto simp: vfork_blocked_def)
  show ?thesis
  proof (cases a)
    case (Op_initialize q)
    have "proc_used (pt_records pt) \<noteq> 0"
      using ok b proc_used_eq_0 [of "pt_records pt"] by (auto simp: proc_inv_def vfork_blocked_def)
    with Op_initialize b show ?thesis by (simp add: proc_initialize_def)
  next
    case (Op_setpgid caller target grp)
    have "vfork_blocked (upd_nth t (\<lambda>r. r\<lparr>pr_process_group := g\<rparr>) (pt_records pt)) i j p c" for t g
      using b by (intro vfork_blocked_upd) (auto simp: live_def vfork_blocked_def)
    then have "vfork_blocked (pt_records (fst (set_process_group pt caller target grp))) i j p c"
      using set_process_group_cases [of pt caller target grp] b by fastforce
    with Op_setpgid show ?thesis by simp
  next
    case (Op_setsid q)
    with b st show ?thesis
      by (auto simp: create_session_def live_def split: option.split intro!: vfork_blocked_upd)
  next
    case (Op_stop q)
    with b l st show ?thesis
      by (auto simp: proc_stop_def live_def split: option.split intro!: vfork_blocked_upd dest!: proc_find_SomeD)
  next
    case (Op_resume q)
    with b st show ?thesis
      by (auto simp: proc_resume_def live_def split: option.split if_splits intro!: vfork_blocked_upd)
  qed (use ok b l vfork_blocked_fork vfork_blocked_exec vfork_blocked_exit vfork_blocked_wait in auto)
qed


lemma vfork_blocked_run:
  "proc_ok pt \<Longrightarrow> vfork_blocked (pt_records pt) i j p c \<Longrightarrow> list_all (leaves_vfork p c) ops \<Longrightarrow>
   vfork_blocked (pt_records (proc_run ops pt)) i j p c"
  by (induction ops arbitrary: pt) (simp_all add: proc_step_ok vfork_blocked_step)

lemma vfork_blocks:
  assumes ok: "proc_ok pt" and f: "proc_fork pt p True = (pt1, res)" "fr_status res = Proc_success"
    and fresh: "\<forall>r \<in> set (pt_records pt). live r \<longrightarrow> pr_vfork_parent r \<noteq> p"
  shows "\<exists>i j. vfork_blocked (pt_records pt1) i j p (fr_child res)"
proof -
  let ?rs = "pt_records pt"
  from f obtain j k where j: "proc_find ?rs p = Some j" and k: "free_slot ?rs = Some k"
    by (auto simp: proc_fork_def Let_def split: option.splits if_splits)
  note j' = proc_find_SomeD [OF j] and k' = free_slot_SomeD [OF k]
  from j' k' have "k \<noteq> j" by auto
  from f j k have pt1: "pr_state (?rs ! j) \<noteq> Proc_zombie" "fr_child res = pt_next_pid pt"
    "pt_records pt1 = upd_nth j (\<lambda>r. r\<lparr>pr_state := Proc_vfork_wait\<rparr>) (?rs[k := (?rs ! j)\<lparr>pr_state := Proc_runnable,
       pr_pid := pt_next_pid pt, pr_parent := p, pr_exit_status := 0, pr_vfork_parent := p,
       pr_executed := False, pr_address_space := True\<rparr>])"
    by (auto simp: proc_fork_def Let_def split: if_splits)
  have "p \<noteq> 0" using proc_find_nonzero [OF ok j] .
  with pt1 j' k' \<open>k \<noteq> j\<close> fresh have "vfork_blocked (pt_records pt1) k j p (fr_child res)"
    by (auto simp: vfork_blocked_def nth_upd_nth nth_list_update live_def)
  then show ?thesis by blast
qed

lemma vfork_blocked_find:
  assumes "proc_ok pt" "vfork_blocked (pt_records pt) i j p c"
  shows "proc_find (pt_records pt) p = Some j" "proc_find (pt_records pt) c = Some i"
  using assms vfork_blocked_live [OF assms(2)] proc_ok_find [OF assms(1)] by (auto simp: vfork_blocked_def)

lemma vfork_wake_exec:
  assumes ok: "proc_ok pt" and b: "vfork_blocked (pt_records pt) i j p c"
  shows "map_option (\<lambda>j. pr_state (pt_records (fst (mark_exec pt c)) ! j))
      (proc_find (pt_records (fst (mark_exec pt c))) p) = Some Proc_runnable"
proof -
  note f = vfork_blocked_find [OF ok b] and bD = b [unfolded vfork_blocked_def]
  let ?rs = "upd_nth i (\<lambda>r. r\<lparr>pr_executed := True\<rparr>) (pt_records pt)"
  let ?pt = "fst (mark_exec pt c)"
  have ok': "proc_ok ?pt" by (rule mark_exec_ok [OF ok])
  have "same_shape (pt_records pt) ?rs"
    by (intro same_shape_upd) (auto simp: same_rec_def rec_ok_def live_def)
  from same_shape_ok [OF this ok] have inv: "pids_distinct ?rs" "list_all rec_ok ?rs"
    by (auto simp: proc_inv_def)
  have "pt_records ?pt = wake_vfork_parent i ?rs" using f bD by (simp add: mark_exec_def)
  moreover have "wake_vfork_parent i ?rs ! j = (pt_records pt ! j)\<lparr>pr_state := Proc_runnable\<rparr>"
    using wake_vfork_parent_nth [OF inv(1) _ inv(2), of j i] bD vfork_blocked_live [OF b] by (simp add: woken_def)
  moreover from calculation have "proc_find (pt_records ?pt) p = Some j"
    using proc_ok_find [OF ok'] bD by (simp add: live_def)
  ultimately show ?thesis by simp
qed

lemma vfork_wake_exit:
  assumes ok: "proc_ok pt" and b: "vfork_blocked (pt_records pt) i j p c"
  shows "map_option (\<lambda>j. pr_state (pt_records (fst (proc_exit pt c status)) ! j))
      (proc_find (pt_records (fst (proc_exit pt c status))) p) = Some Proc_runnable"
proof -
  note f = vfork_blocked_find [OF ok b] and bD = b [unfolded vfork_blocked_def]
  let ?pt = "fst (proc_exit pt c status)"
  have ok': "proc_ok ?pt" by (rule proc_exit_ok [OF ok])
  have j: "j < length (pt_records pt)" using bD by blast
  have "pt_records ?pt = exit_table pt i c status" using proc_exit_eq [OF f(2)] bD by simp
  moreover have "pr_state (exit_table pt i c status ! j) = Proc_runnable"
    using exit_table_nth(6) [OF ok f(2) j] bD vfork_blocked_live [OF b] by (simp add: woken_def)
  moreover from calculation have "proc_find (pt_records ?pt) p = Some j"
    using proc_ok_find [OF ok'] exit_table_nth(1,2,3) [OF ok f(2) j] bD vfork_blocked_live [OF b] by simp
  ultimately show ?thesis by simp
qed

text \<open>
  C4: let \<open>p\<close> vfork successfully while no live process is still its vfork child. Take any sequence of operations
  in which the new child neither execs nor exits, \<open>p\<close>, which is suspended, makes no fork, wait or exit call, and
  \<open>p\<close> is not stopped; the other processes and the other operations are free. After it \<open>p\<close> is still suspended
  and the scheduler never chooses it, and the exec of the child as well as its exit makes \<open>p\<close> runnable.
\<close>

theorem vfork_handshake:
  assumes "proc_ok pt" "\<forall>r \<in> set (pt_records pt). live r \<longrightarrow> pr_vfork_parent r \<noteq> p"
    and "proc_fork pt p True = (pt1, res)" "fr_status res = Proc_success"
    and "list_all (leaves_vfork p (fr_child res)) ops"
    and "pt2 = proc_run ops pt1"
  shows "let state = (\<lambda>pt. map_option (\<lambda>j. pr_state (pt_records pt ! j)) (proc_find (pt_records pt) p))
         in state pt2 = Some Proc_vfork_wait \<and> (\<forall>q. next_runnable (pt_records pt2) q \<noteq> p) \<and>
            state (fst (mark_exec pt2 (fr_child res))) = Some Proc_runnable \<and>
            state (fst (proc_exit pt2 (fr_child res) status)) = Some Proc_runnable"
proof -
  let ?c = "fr_child res" and ?rs = "pt_records pt2"
  have ok1: "proc_ok pt1" using proc_fork_ok [OF assms(1)] assms(3) by (metis fst_conv)
  have ok2: "proc_ok pt2" using proc_run_ok [OF ok1] assms(6) by simp
  obtain i j where b: "vfork_blocked ?rs i j p ?c"
    using vfork_blocks [OF assms(1,3,4,2)] vfork_blocked_run [OF ok1] assms(5,6) by blast
  note bD = b [unfolded vfork_blocked_def] and f = vfork_blocked_find [OF ok2 b]
  have "next_runnable ?rs q \<noteq> p" for q
    using next_runnable_sound [OF ok2, of q] bD f by (auto simp: can_run_def)
  with f bD vfork_wake_exec [OF ok2 b] vfork_wake_exit [OF ok2 b] show ?thesis by (simp add: Let_def)
qed

theorem vfork_handshake_witness:
  "let pt1 = fst (proc_fork demo_family 2 True);
       pt2 = proc_run [Op_fork 4 False, Op_exit 3 0, Op_wait 1 Wait_any False] pt1
   in fr_child (snd (proc_fork demo_family 2 True)) = 4 \<and>
      map pr_state (pt_records pt2) = [Proc_waiting, Proc_vfork_wait, Proc_zombie, Proc_runnable] \<and>
      next_runnable (pt_records pt2) 1 \<noteq> 2 \<and>
      map_option (\<lambda>j. pr_state (pt_records (fst (mark_exec pt2 4)) ! j))
        (proc_find (pt_records (fst (mark_exec pt2 4))) 2) = Some Proc_runnable"
proof -
  let ?ops = "[Op_fork 4 False, Op_exit 3 0, Op_wait 1 Wait_any False]"
  have ok: "proc_ok demo_family"
    unfolding demo_family_def by (intro proc_run_ok proc_ok_init) auto
  have fresh: "\<forall>r \<in> set (pt_records demo_family). live r \<longrightarrow> pr_vfork_parent r \<noteq> 2"
    by code_simp
  have res: "fr_child (snd (proc_fork demo_family 2 True)) = 4" "fr_status (snd (proc_fork demo_family 2 True)) = Proc_success"
    by code_simp+
  have leaves: "list_all (leaves_vfork 2 4) ?ops" by simp
  have "map pr_state (pt_records (proc_run ?ops (fst (proc_fork demo_family 2 True)))) =
    [Proc_waiting, Proc_vfork_wait, Proc_zombie, Proc_runnable]"
    by code_simp
  with vfork_handshake [OF ok fresh prod.collapse [symmetric] res(2), of ?ops] leaves res(1) show ?thesis
    unfolding Let_def by simp
qed

subsection \<open>Pids are never handed out twice\<close>

text \<open>The pids returned by the successful forks of a run, in order.\<close>

fun forked_pids :: "proc_op list \<Rightarrow> process_table \<Rightarrow> u32 list" where
  "forked_pids [] pt = []"
| "forked_pids (Op_fork parent vfork # ops) pt =
     (let (pt', res) = proc_fork pt parent vfork
      in if fr_status res = Proc_success then fr_child res # forked_pids ops pt' else forked_pids ops pt')"
| "forked_pids (a # ops) pt = forked_pids ops (proc_step a pt)"

lemma proc_fork_next:
  "snd (proc_fork pt p vfork) = res \<Longrightarrow>
   (if fr_status res = Proc_success
    then fr_child res = pt_next_pid pt \<and> pt_next_pid pt \<noteq> 0 \<and>
         pt_next_pid (fst (proc_fork pt p vfork)) = pt_next_pid pt + 1
    else fst (proc_fork pt p vfork) = pt)"
  by (auto simp: proc_fork_def Let_def split: option.splits)

lemma proc_step_next:
  assumes "\<exists>r \<in> set (pt_records pt). live r" "proc_ok pt" "\<nexists>parent vfork. a = Op_fork parent vfork"
  shows "pt_next_pid (proc_step a pt) = pt_next_pid pt"
proof (cases a)
  case (Op_initialize q)
  have "proc_used (pt_records pt) \<noteq> 0"
    using assms proc_used_eq_0 [of "pt_records pt"] unfolding proc_inv_def by blast
  with Op_initialize show ?thesis by (simp add: proc_initialize_def)
next
  case (Op_setpgid caller target grp)
  with set_process_group_cases [of pt caller target grp] show ?thesis by auto
qed (use assms(3) in \<open>auto simp: mark_exec_def proc_exit_def proc_wait_def create_session_def proc_stop_def
  proc_resume_def Let_def split: option.split\<close>)

text \<open>A table with a process never becomes empty: only a child of a live process is reaped.\<close>

definition inhabited :: "process_table \<Rightarrow> bool" where
  "inhabited pt \<longleftrightarrow> (\<exists>r \<in> set (pt_records pt). live r)"

lemma inhabited_I: "i < length (pt_records pt) \<Longrightarrow> live (pt_records pt ! i) \<Longrightarrow> inhabited pt"
  unfolding inhabited_def using nth_mem by blast

lemma inhabited_E:
  assumes "inhabited pt" obtains i where "i < length (pt_records pt)" "live (pt_records pt ! i)"
  using assms unfolding inhabited_def by (metis in_set_conv_nth)

lemma same_shape_inhabited: "same_shape (pt_records pt) rs \<Longrightarrow> inhabited pt \<Longrightarrow> inhabited (pt\<lparr>pt_records := rs\<rparr>)"
  unfolding inhabited_def using same_shape_in' by (fastforce simp: same_rec_def)

lemma inhabited_fork: "inhabited pt \<Longrightarrow> inhabited (fst (proc_fork pt p vfork))"
proof (cases "proc_find (pt_records pt) p")
  case (Some i)
  note i = proc_find_SomeD [OF Some]
  assume inh: "inhabited pt"
  have "live ((pt_records pt)[k := c] ! i)" if "free_slot (pt_records pt) = Some k" for k c
    using free_slot_SomeD [OF that] i by (cases "k = i") auto
  moreover have "live (r\<lparr>pr_state := Proc_vfork_wait\<rparr>)" for r by (simp add: live_def)
  ultimately show ?thesis
    using i inh by (auto simp: proc_fork_def Let_def Some split: option.split intro!: inhabited_I [of i])
qed (simp add: proc_fork_def)

lemma inhabited_wait: "inhabited pt \<Longrightarrow> inhabited (fst (proc_wait pt p selector no_hang))"
proof (cases "proc_find (pt_records pt) p")
  case (Some i)
  note i = proc_find_SomeD [OF Some]
  assume inh: "inhabited pt"
  have "live ((pt_records pt)[k := record_empty] ! i)"
    if "pr_state (pt_records pt ! i) \<noteq> Proc_zombie" "pr_state (pt_records pt ! k) = Proc_zombie" for k
    using that i by (cases "k = i") auto
  moreover have "live (r\<lparr>pr_state := Proc_waiting\<rparr>)" for r by (simp add: live_def)
  ultimately show ?thesis
    using i inh by (auto simp: proc_wait_def Let_def Some split: option.split
        intro!: inhabited_I [of i] dest!: first_index_SomeD)
qed (simp add: proc_wait_def)

lemma inhabited_exit:
  assumes "proc_ok pt" "inhabited pt" shows "inhabited (fst (proc_exit pt p status))"
proof (cases "proc_find (pt_records pt) p")
  case (Some i)
  note i = proc_find_SomeD [OF Some]
  from assms(2) proc_exit_eq [OF Some] exit_table_nth(1,2) [OF assms(1) Some, of i status] i show ?thesis
    by (cases "pr_state (pt_records pt ! i) = Proc_zombie")
      (auto simp: proc_exit_def Some intro!: inhabited_I [of i])
qed (simp add: proc_exit_def assms)

lemma inhabited_upd:
  "inhabited pt \<Longrightarrow> live (f (pt_records pt ! k)) = live (pt_records pt ! k) \<Longrightarrow>
   inhabited (pt\<lparr>pt_records := upd_nth k f (pt_records pt)\<rparr>)"
  by (erule inhabited_E, rule inhabited_I) (auto simp: nth_upd_nth)

lemma proc_step_inhabited:
  assumes ok: "proc_ok pt" and inh: "inhabited pt"
  shows "inhabited (proc_step a pt)"
proof (cases a)
  case (Op_initialize q)
  have "proc_used (pt_records pt) \<noteq> 0"
    using assms proc_used_eq_0 [of "pt_records pt"] unfolding proc_inv_def inhabited_def by blast
  with Op_initialize inh show ?thesis by (simp add: proc_initialize_def)
next
  case (Op_exec q)
  have "same_shape rs (wake_vfork_parent i (upd_nth i (\<lambda>r. r\<lparr>pr_executed := True\<rparr>) rs))" for i rs
    by (rule same_shape_trans [OF same_shape_upd wake_vfork_parent_shape])
      (auto simp: same_rec_def rec_ok_def live_def)
  with Op_exec inh show ?thesis
    by (auto simp: mark_exec_def split: option.split intro: same_shape_inhabited)
next
  case (Op_setpgid caller target grp)
  with inh set_process_group_cases [of pt caller target grp] show ?thesis
    by (auto simp: live_def intro!: inhabited_upd)
qed (use assms in \<open>auto simp: inhabited_fork inhabited_wait inhabited_exit create_session_def proc_stop_def
  proc_resume_def live_def split: option.split intro!: inhabited_upd dest!: proc_find_SomeD\<close>)

lemma forked_pids_other:
  "\<nexists>parent vfork. a = Op_fork parent vfork \<Longrightarrow> forked_pids (a # ops) pt = forked_pids ops (proc_step a pt)"
  by (cases a) auto

lemma forked_pids_inhabited:
  "proc_ok pt \<Longrightarrow> inhabited pt \<Longrightarrow>
   sorted_wrt (<) (forked_pids ops pt) \<and>
   (\<forall>q \<in> set (forked_pids ops pt). pt_next_pid pt \<noteq> 0 \<and> pt_next_pid pt \<le> q)"
proof (induction ops arbitrary: pt)
  case (Cons a ops)
  note IH = Cons.IH [OF proc_step_ok [OF Cons.prems(1)] proc_step_inhabited [OF Cons.prems], of a]
  show ?case
  proof (cases "\<exists>parent vfork. a = Op_fork parent vfork")
    case True
    then obtain parent vfork where a: "a = Op_fork parent vfork" by blast
    have step: "pt_next_pid pt < pt_next_pid pt + 1" if "pt_next_pid pt + 1 \<noteq> 0"
      using that by (rule word_less_inc)
    show ?thesis
      using IH [unfolded a proc_step.simps] proc_fork_next [OF refl, of pt parent vfork] step
      unfolding a by (cases "fr_status (snd (proc_fork pt parent vfork)) = Proc_success")
        (auto simp: case_prod_unfold intro: less_imp_le order_less_le_trans)
  next
    case False
    from IH proc_step_next [OF _ Cons.prems(1) False] Cons.prems(2) show ?thesis
      unfolding forked_pids_other [OF False] inhabited_def by simp
  qed
qed simp

lemma proc_fork_empty: "\<not> inhabited pt \<Longrightarrow> fst (proc_fork pt p vfork) = pt \<and> fr_status (snd (proc_fork pt p vfork)) \<noteq> Proc_success"
proof -
  assume "\<not> inhabited pt"
  then have "proc_find (pt_records pt) p = None" by (auto simp: inhabited_def proc_find_None)
  then show ?thesis by (simp add: proc_fork_def)
qed

text \<open>
  C6: over any run of operations from a fresh table, the pids returned by successful forks are
  strictly increasing: no pid is ever handed out twice, not even after its process was reaped, and
  when the 32-bit counter is exhausted fork fails instead of wrapping around.
\<close>

theorem fork_pids_increase:
  assumes "2 \<le> capacity" "capacity < 2 ^ 32"
  shows "sorted_wrt (<) (forked_pids ops (process_table_init capacity))"
proof -
  have "sorted_wrt (<) (forked_pids ops pt)" if "proc_ok pt" for pt
    using that
  proof (induction ops arbitrary: pt)
    case (Cons a ops)
    note IH = Cons.IH [OF proc_step_ok [OF Cons.prems], of a]
    show ?case
    proof (cases "inhabited pt \<or> (\<nexists>parent vfork. a = Op_fork parent vfork)")
      case True
      then show ?thesis using forked_pids_inhabited [OF Cons.prems] forked_pids_other IH by metis
    next
      case False
      with proc_fork_empty [of pt] IH show ?thesis by (auto simp: case_prod_unfold)
    qed
  qed simp
  then show ?thesis using proc_ok_init [OF assms] by blast
qed

theorem fork_pids_increase_witness:
  "(let ops = [Op_initialize 1, Op_fork 1 False, Op_exit 2 0, Op_wait 1 Wait_any False, Op_fork 1 True, Op_fork 3 False]
    in forked_pids ops (process_table_init 3) = [2, 3, 4] \<and> sorted_wrt (<) (forked_pids ops (process_table_init 3)))"
proof -
  have "forked_pids [Op_initialize 1, Op_fork 1 False, Op_exit 2 0, Op_wait 1 Wait_any False, Op_fork 1 True,
    Op_fork 3 False] (process_table_init 3) = [2, 3, 4]"
    by code_simp
  then show ?thesis using fork_pids_increase [of 3] unfolding Let_def by simp
qed

subsection \<open>Two gaps in waking processes\<close>

text \<open>
  Two runs show wake-ups the table does not give. First, process 1 waits while its
  grandchild 3 exits and leaves the zombie 4 to it: 1 now has a zombie child that \<open>wait\<close> would return at
  once, but it stays \<open>waiting\<close>. Second, stopping and resuming the parent of a vfork makes it runnable
  although the child has neither called exec nor exited.
\<close>

lemma process_wakeup_gaps:
  "(let pt = proc_run [Op_initialize 1, Op_fork 1 False, Op_fork 2 False, Op_fork 3 False, Op_exit 4 9,
                       Op_wait 1 Wait_any False, Op_exit 3 0] (process_table_init 5)
    in map pr_state (pt_records pt) = [Proc_waiting, Proc_runnable, Proc_zombie, Proc_zombie, Proc_free] \<and>
       snd (proc_wait pt 1 Wait_any False) = \<lparr>wr_status = Proc_success, wr_pid = 4, wr_status_word = 9\<rparr>) \<and>
   (let pt = proc_run [Op_initialize 1, Op_fork 1 True, Op_stop 1, Op_resume 1] (process_table_init 2)
    in map pr_state (pt_records pt) = [Proc_runnable, Proc_runnable] \<and>
       map pr_vfork_parent (pt_records pt) = [0, 1] \<and> map pr_executed (pt_records pt) = [False, False])"
  by code_simp

end
