(* ===== verification/Snapshot_Arena.thy ===== *)
theory Snapshot_Arena
  imports Base
begin

text \<open>
  \<^verbatim>\<open>include/mikos/process/snapshot_arena.hpp\<close>: the first-fit allocator that holds the saved
  images of parked processes. The array \<open>free_\<close> together with \<open>free_count_\<close> is the list of its
  first \<open>free_count_\<close> extents (the slots behind it are blank and never read); the template
  argument \<open>ExtentCapacity\<close> is an argument of the operations that test it. Addresses and sizes are
  32-bit words and all additions are the wrapping ones of the source.
\<close>

section \<open>Definitions\<close>

record snapshot_allocation =
  al_address :: u32
  al_size :: u32

definition no_allocation :: snapshot_allocation where
  "no_allocation = \<lparr>al_address = 0, al_size = 0\<rparr>"

definition al_valid :: "snapshot_allocation \<Rightarrow> bool" where
  "al_valid a \<longleftrightarrow> al_address a \<noteq> 0 \<and> al_size a \<noteq> 0"

datatype snapshot_status = Snap_success | Snap_no_space | Snap_invalid_argument

record extent =
  ex_address :: u32
  ex_size :: u32

record snapshot_arena =
  sn_free :: "extent list"
  sn_begin :: u32
  sn_end :: u32
  sn_allocated :: u32

definition snapshot_arena_init :: snapshot_arena where
  "snapshot_arena_init = \<lparr>sn_free = [], sn_begin = 0, sn_end = 0, sn_allocated = 0\<rparr>"

abbreviation sn_alignment :: u32 where "sn_alignment \<equiv> 16"

definition ex_erase :: "nat \<Rightarrow> extent list \<Rightarrow> extent list" where
  "ex_erase position xs = take position xs @ drop (Suc position) xs"

definition sn_initialize :: "snapshot_arena \<Rightarrow> u32 \<Rightarrow> u32 \<Rightarrow> snapshot_arena \<times> snapshot_status" where
  "sn_initialize s begin_address end_address =
     (let b = align_up begin_address sn_alignment; e = align_down end_address sn_alignment
      in if b = 0 \<or> b \<ge> e then (s, Snap_invalid_argument)
         else (\<lparr>sn_free = [\<lparr>ex_address = b, ex_size = e - b\<rparr>], sn_begin = b, sn_end = e,
                sn_allocated = 0\<rparr>, Snap_success))"

definition sn_allocate :: "snapshot_arena \<Rightarrow> u32 \<Rightarrow> snapshot_arena \<times> snapshot_allocation" where
  "sn_allocate s requested =
     (if requested = 0 \<or> sn_begin s = 0 \<or> requested > NOT 0 - (sn_alignment - 1) then (s, no_allocation)
      else let n = align_up requested sn_alignment
           in if n < requested then (s, no_allocation)
              else case first_index (\<lambda>e. \<not> ex_size e < n) (sn_free s) of
                  None \<Rightarrow> (s, no_allocation)
                | Some i \<Rightarrow>
                    let e = sn_free s ! i;
                        shrunk = upd_nth i (\<lambda>e. e\<lparr>ex_address := ex_address e + n, ex_size := ex_size e - n\<rparr>)
                                   (sn_free s);
                        rest = (if ex_size (shrunk ! i) = 0 then ex_erase i shrunk else shrunk)
                    in (s\<lparr>sn_free := rest, sn_allocated := sn_allocated s + n\<rparr>,
                        \<lparr>al_address = ex_address e, al_size = n\<rparr>))"

definition sn_releasable :: "snapshot_arena \<Rightarrow> snapshot_allocation \<Rightarrow> bool" where
  "sn_releasable s a \<longleftrightarrow>
     \<not> (\<not> al_valid a \<or> sn_begin s = 0 \<or> al_address a AND (sn_alignment - 1) \<noteq> 0 \<or>
        al_size a AND (sn_alignment - 1) \<noteq> 0 \<or> al_address a < sn_begin s \<or> al_address a \<ge> sn_end s \<or>
        al_size a > sn_end s - al_address a \<or> al_size a > sn_allocated s)"

definition sn_position :: "extent list \<Rightarrow> u32 \<Rightarrow> nat" where
  "sn_position fr address = length (takeWhile (\<lambda>e. ex_address e < address) fr)"

definition sn_overlaps :: "extent list \<Rightarrow> nat \<Rightarrow> snapshot_allocation \<Rightarrow> bool" where
  "sn_overlaps fr pos a \<longleftrightarrow>
     (pos \<noteq> 0 \<and> ex_address (fr ! (pos - 1)) + ex_size (fr ! (pos - 1)) > al_address a) \<or>
     (pos \<noteq> length fr \<and> al_address a + al_size a > ex_address (fr ! pos))"

text \<open>The merging part of \<open>release\<close>; \<open>None\<close> is the early \<open>no_space\<close> return.\<close>

definition sn_insert :: "nat \<Rightarrow> extent list \<Rightarrow> nat \<Rightarrow> snapshot_allocation \<Rightarrow> extent list option" where
  "sn_insert ecap fr pos a =
     (let merge_previous = (pos \<noteq> 0 \<and> ex_address (fr ! (pos - 1)) + ex_size (fr ! (pos - 1)) = al_address a);
          merge_next = (pos \<noteq> length fr \<and> al_address a + al_size a = ex_address (fr ! pos))
      in if merge_previous then
           let grown = upd_nth (pos - 1) (\<lambda>e. e\<lparr>ex_size := ex_size e + al_size a\<rparr>) fr
           in if merge_next
              then Some (ex_erase pos (upd_nth (pos - 1) (\<lambda>e. e\<lparr>ex_size := ex_size e + ex_size (grown ! pos)\<rparr>) grown))
              else Some grown
         else if merge_next then
           Some (upd_nth pos (\<lambda>e. \<lparr>ex_address = al_address a, ex_size = ex_size e + al_size a\<rparr>) fr)
         else if length fr = ecap then None
         else Some (take pos fr @ \<lparr>ex_address = al_address a, ex_size = al_size a\<rparr> # drop pos fr))"

definition sn_release :: "nat \<Rightarrow> snapshot_arena \<Rightarrow> snapshot_allocation \<Rightarrow> snapshot_arena \<times> snapshot_status" where
  "sn_release ecap s a =
     (if \<not> sn_releasable s a then (s, Snap_invalid_argument)
      else let pos = sn_position (sn_free s) (al_address a)
           in if sn_overlaps (sn_free s) pos a then (s, Snap_invalid_argument)
              else case sn_insert ecap (sn_free s) pos a of
                     None \<Rightarrow> (s, Snap_no_space)
                   | Some fr \<Rightarrow> (s\<lparr>sn_free := fr, sn_allocated := sn_allocated s - al_size a\<rparr>, Snap_success))"

definition sn_capacity :: "snapshot_arena \<Rightarrow> u32" where
  "sn_capacity s = sn_end s - sn_begin s"

definition sn_available :: "snapshot_arena \<Rightarrow> u32" where
  "sn_available s = sn_capacity s - sn_allocated s"

definition sn_largest_available :: "snapshot_arena \<Rightarrow> u32" where
  "sn_largest_available s = foldl (\<lambda>largest e. if ex_size e > largest then ex_size e else largest) 0 (sn_free s)"

text \<open>The class's \<open>invariant()\<close>: the loop over the free extents, then the whole check.\<close>

fun extents_invariant :: "u32 \<Rightarrow> u32 \<Rightarrow> u32 \<Rightarrow> u32 \<Rightarrow> extent list \<Rightarrow> u32 option" where
  "extents_invariant b e previous_end free_bytes [] = Some free_bytes"
| "extents_invariant b e previous_end free_bytes (x # xs) =
     (if ex_size x = 0 \<or> ex_address x < previous_end \<or> ex_address x < b \<or> ex_address x \<ge> e \<or>
         ex_size x > e - ex_address x then None
      else extents_invariant b e (ex_address x + ex_size x) (free_bytes + ex_size x) xs)"

definition sn_invariant :: "nat \<Rightarrow> snapshot_arena \<Rightarrow> bool" where
  "sn_invariant ecap s \<longleftrightarrow>
     \<not> (sn_begin s = 0 \<or> sn_begin s \<ge> sn_end s \<or> length (sn_free s) > ecap \<or> sn_allocated s > sn_capacity s) \<and>
     extents_invariant (sn_begin s) (sn_end s) (sn_begin s) 0 (sn_free s) = Some (sn_capacity s - sn_allocated s)"

section \<open>Well-formed arenas\<close>

text \<open>
  The interval of addresses an extent covers, and the addresses covered by a list of extents.
\<close>

abbreviation ex_lo :: "extent \<Rightarrow> nat" where "ex_lo e \<equiv> unat (ex_address e)"
abbreviation ex_hi :: "extent \<Rightarrow> nat" where "ex_hi e \<equiv> unat (ex_address e) + unat (ex_size e)"
abbreviation al_block :: "snapshot_allocation \<Rightarrow> nat set" where
  "al_block a \<equiv> {unat (al_address a)..<unat (al_address a) + unat (al_size a)}"

definition free_set :: "extent list \<Rightarrow> nat set" where
  "free_set fr = (\<Union>e \<in> set fr. {ex_lo e..<ex_hi e})"

definition ex_ok :: "nat \<Rightarrow> nat \<Rightarrow> extent \<Rightarrow> bool" where
  "ex_ok lo hi e \<longleftrightarrow> lo \<le> ex_lo e \<and> 0 < unat (ex_size e) \<and> ex_hi e \<le> hi \<and>
     16 dvd unat (ex_address e) \<and> 16 dvd unat (ex_size e)"

text \<open>
  The free list is sorted and its extents are separated by at least one address: no two of
  them could be merged.
\<close>

definition extents_ok :: "nat \<Rightarrow> nat \<Rightarrow> extent list \<Rightarrow> bool" where
  "extents_ok lo hi fr \<longleftrightarrow> list_all (ex_ok lo hi) fr \<and> sorted_wrt (\<lambda>e f. ex_hi e < ex_lo f) fr"

definition free_bytes :: "extent list \<Rightarrow> nat" where
  "free_bytes fr = sum_list (map (\<lambda>e. unat (ex_size e)) fr)"

definition sn_ok :: "nat \<Rightarrow> snapshot_arena \<Rightarrow> bool" where
  "sn_ok ecap s \<longleftrightarrow>
     sn_begin s \<noteq> 0 \<and> sn_begin s < sn_end s \<and>
     16 dvd unat (sn_begin s) \<and> 16 dvd unat (sn_end s) \<and> length (sn_free s) \<le> ecap \<and>
     extents_ok (unat (sn_begin s)) (unat (sn_end s)) (sn_free s) \<and>
     free_bytes (sn_free s) + unat (sn_allocated s) = unat (sn_end s) - unat (sn_begin s)"

lemma extents_ok_simps [simp]:
  "extents_ok lo hi []"
  "extents_ok lo hi (e # es) \<longleftrightarrow> ex_ok lo hi e \<and> (\<forall>f \<in> set es. ex_hi e < ex_lo f) \<and> extents_ok lo hi es"
  "extents_ok lo hi (xs @ ys) \<longleftrightarrow>
     extents_ok lo hi xs \<and> extents_ok lo hi ys \<and> (\<forall>e \<in> set xs. \<forall>f \<in> set ys. ex_hi e < ex_lo f)"
  by (auto simp: extents_ok_def sorted_wrt_append)

lemma free_bytes_simps [simp]:
  "free_bytes [] = 0" "free_bytes (e # es) = unat (ex_size e) + free_bytes es"
  "free_bytes (xs @ ys) = free_bytes xs + free_bytes ys"
  by (simp_all add: free_bytes_def)

lemma free_set_simps [simp]:
  "free_set [] = {}" "free_set (e # es) = {ex_lo e..<ex_hi e} \<union> free_set es"
  "free_set (xs @ ys) = free_set xs \<union> free_set ys"
  by (auto simp: free_set_def)

lemma extents_ok_bound: "extents_ok lo hi fr \<Longrightarrow> e \<in> set fr \<Longrightarrow> ex_ok lo hi e"
  by (simp add: extents_ok_def list_all_iff)

lemma free_set_bound: "extents_ok lo hi fr \<Longrightarrow> free_set fr \<subseteq> {lo..<hi}"
  by (auto simp: free_set_def ex_ok_def dest!: extents_ok_bound)

lemma card_free_set: "extents_ok lo hi fr \<Longrightarrow> card (free_set fr) = free_bytes fr"
proof (induction fr)
  case (Cons e fr)
  have "finite (free_set fr)" by (simp add: free_set_def)
  moreover have "{ex_lo e..<ex_hi e} \<inter> free_set fr = {}"
    using Cons.prems by (force simp: free_set_def)
  ultimately show ?case using Cons by (simp add: card_Un_disjoint)
qed simp

section \<open>The operations on the free set\<close>

lemma unat_align_up_16: "16 dvd unat (align_up (w :: u32) 16)"
  using and_not_mask_unat [of "w + 16 - 1" 4] by (simp add: align_up_def mask_eq_exp_minus_1)

lemma unat_align_down_16: "16 dvd unat (align_down (w :: u32) 16)"
  using unat_align_down [of w 4] by simp

lemma align_up_16_ge:
  assumes "(w :: u32) \<le> NOT 0 - 15"
  shows "unat w \<le> unat (align_up w 16)" "unat (align_up w 16) < unat w + 16"
proof -
  have "unat (NOT 0 - 15 :: u32) = 4294967280" by simp
  with assms have "unat w + 15 < 2 ^ 32" by (simp add: word_le_nat_alt)
  then have "unat (align_up w 16) = (unat w + 15) div 16 * 16"
    using unat_align_up [of 4 w] by simp
  then show "unat w \<le> unat (align_up w 16)" "unat (align_up w 16) < unat w + 16" by auto
qed

lemma and_15_unat: "(w :: u32) AND 15 = 0 \<longleftrightarrow> 16 dvd unat w"
  using and_mask_unat [of w 4] unat_eq_zero [of "w AND 15"] by (simp add: mask_eq_exp_minus_1 dvd_eq_mod_eq_0)

lemma sn_initialize_ok:
  assumes "sn_initialize s b e = (s', Snap_success)" "0 < ecap"
  shows "sn_ok ecap s' \<and> free_set (sn_free s') = {unat (sn_begin s')..<unat (sn_end s')} \<and> sn_allocated s' = 0"
proof -
  let ?b = "align_up b 16" and ?e = "align_down e 16"
  have b: "?b \<noteq> 0" "?b < ?e" and s': "s' = \<lparr>sn_free = [\<lparr>ex_address = ?b, ex_size = ?e - ?b\<rparr>], sn_begin = ?b,
      sn_end = ?e, sn_allocated = 0\<rparr>"
    using assms by (auto simp: sn_initialize_def Let_def split: if_splits)
  have d: "unat (?e - ?b) = unat ?e - unat ?b" and lt: "unat ?b < unat ?e"
    using unat_sub [OF less_imp_le [OF b(2)]] b(2) by (simp_all add: word_less_nat_alt)
  from d lt unat_align_up_16 [of b] unat_align_down_16 [of e] assms(2) b show ?thesis
    by (auto simp: s' sn_ok_def ex_ok_def dvd_diff_nat)
qed

text \<open>What a successful first-fit search does to the list: one extent loses its first \<open>n\<close> bytes.\<close>

definition take_front :: "u32 \<Rightarrow> extent \<Rightarrow> extent list" where
  "take_front n e = (if ex_size e = n then []
     else [e\<lparr>ex_address := ex_address e + n, ex_size := ex_size e - n\<rparr>])"

lemma sn_allocate_list:
  fixes n :: u32
  assumes "i < length fr"
  defines "shrunk \<equiv> upd_nth i (\<lambda>e. e\<lparr>ex_address := ex_address e + n, ex_size := ex_size e - n\<rparr>) fr"
  shows "(if ex_size (shrunk ! i) = 0 then ex_erase i shrunk else shrunk) =
    take i fr @ take_front n (fr ! i) @ drop (Suc i) fr"
  using assms by (auto simp: take_front_def ex_erase_def upd_nth_def upd_conv_take_nth_drop nth_append)

lemma take_front_ok:
  assumes "ex_ok lo hi e" "unat n \<le> unat (ex_size e)" "16 dvd unat n" "hi < 2 ^ 32"
  shows "list_all (ex_ok lo hi) (take_front n e)"
    and "\<forall>f \<in> set (take_front n e). ex_lo f = ex_lo e + unat n \<and> ex_hi f = ex_hi e"
    and "free_bytes (take_front n e) = unat (ex_size e) - unat n"
    and "free_set (take_front n e) = {ex_lo e + unat n..<ex_hi e}"
proof -
  have sub: "unat (ex_size e - n) = unat (ex_size e) - unat n"
    using assms(2) by (simp add: unat_sub word_le_nat_alt)
  have add: "unat (ex_address e + n) = unat (ex_address e) + unat n"
    using assms(1,2,4) by (intro unat_add_u32) (simp add: ex_ok_def)
  have ne: "ex_size e \<noteq> n \<Longrightarrow> unat n < unat (ex_size e)"
    using assms(2) by (auto simp: word_unat_eq_iff)
  show "list_all (ex_ok lo hi) (take_front n e)"
    using assms ne by (auto simp: take_front_def ex_ok_def sub add dvd_diff_nat)
  show "\<forall>f \<in> set (take_front n e). ex_lo f = ex_lo e + unat n \<and> ex_hi f = ex_hi e"
    using ne by (auto simp: take_front_def sub add)
  show "free_bytes (take_front n e) = unat (ex_size e) - unat n"
    by (auto simp: take_front_def sub)
  show "free_set (take_front n e) = {ex_lo e + unat n..<ex_hi e}"
    using ne by (auto simp: take_front_def sub add)
qed


text \<open>
  Replacing a middle extent by pieces inside it, with room on both sides, keeps the list well formed.
\<close>

lemma extents_ok_replace:
  assumes "extents_ok lo hi (xs @ e # ys)" "extents_ok lo hi zs"
    and "\<forall>f \<in> set zs. ex_lo e \<le> ex_lo f \<and> ex_hi f \<le> ex_hi e"
  shows "extents_ok lo hi (xs @ zs @ ys)"
  using assms by (fastforce dest: order_less_le_trans order_le_less_trans)

lemma sn_allocate_ok:
  assumes ok: "sn_ok ecap s" and r: "sn_allocate s requested = (s', a)" "a \<noteq> no_allocation"
  shows "sn_ok ecap s' \<and> al_valid a \<and> unat requested \<le> unat (al_size a) \<and> unat (al_size a) < unat requested + 16 \<and>
    16 dvd unat (al_address a) \<and> 16 dvd unat (al_size a) \<and> al_block a \<subseteq> free_set (sn_free s) \<and>
    free_set (sn_free s') = free_set (sn_free s) - al_block a \<and>
    unat (sn_allocated s') = unat (sn_allocated s) + unat (al_size a) \<and>
    sn_begin s' = sn_begin s \<and> sn_end s' = sn_end s"
proof -
  let ?n = "align_up requested 16" and ?fr = "sn_free s"
  from r have req: "requested \<noteq> 0" "requested \<le> NOT 0 - 15"
    by (auto simp: sn_allocate_def split: if_splits)
  note n = align_up_16_ge [OF req(2)] unat_align_up_16 [of requested]
  from r req obtain i where i: "first_index (\<lambda>e. \<not> ex_size e < ?n) ?fr = Some i"
    by (auto simp: sn_allocate_def Let_def split: if_splits option.splits)
  note i' = first_index_SomeD [OF i]
  let ?e = "?fr ! i"
  have "\<not> ?n < requested" using n by (simp add: word_less_nat_alt)
  then have "sn_allocate s requested = (s\<lparr>sn_free := take i ?fr @ take_front ?n ?e @ drop (Suc i) ?fr,
      sn_allocated := sn_allocated s + ?n\<rparr>, \<lparr>al_address = ex_address ?e, al_size = ?n\<rparr>)"
    unfolding sn_allocate_def Let_def i option.case sn_allocate_list [OF conjunct1 [OF i']]
    using req ok by (simp add: sn_ok_def not_less)
  with r have s': "s' = s\<lparr>sn_free := take i ?fr @ take_front ?n ?e @ drop (Suc i) ?fr,
      sn_allocated := sn_allocated s + ?n\<rparr>" and a: "a = \<lparr>al_address = ex_address ?e, al_size = ?n\<rparr>"
    by auto
  have fr: "?fr = take i ?fr @ ?e # drop (Suc i) ?fr" using i' by (simp add: id_take_nth_drop)
  let ?lo = "unat (sn_begin s)" and ?hi = "unat (sn_end s)"
  have eok: "ex_ok ?lo ?hi ?e" using ok i' by (auto simp: sn_ok_def intro: extents_ok_bound)
  have hi: "?hi < 2 ^ 32" by simp
  have le: "unat ?n \<le> unat (ex_size ?e)" using i' by (simp add: word_less_nat_alt)
  note tf = take_front_ok [OF eok le n(3) hi]
  have ext: "extents_ok ?lo ?hi (take i ?fr @ ?e # drop (Suc i) ?fr)" using ok fr by (simp add: sn_ok_def)
  have zs: "extents_ok ?lo ?hi (take_front ?n ?e)"
    using tf(1) by (auto simp: extents_ok_def take_front_def)
  have ext': "extents_ok ?lo ?hi (take i ?fr @ take_front ?n ?e @ drop (Suc i) ?fr)"
    using tf(2) by (intro extents_ok_replace [OF ext zs]) auto
  have bytes: "free_bytes ?fr = free_bytes (take i ?fr) + unat (ex_size ?e) + free_bytes (drop (Suc i) ?fr)"
    by (subst fr) simp
  have sum: "free_bytes ?fr + unat (sn_allocated s) = ?hi - ?lo" using ok by (simp add: sn_ok_def)
  have alloc: "unat (sn_allocated s + ?n) = unat (sn_allocated s) + unat ?n"
    using sum bytes le unat_u32_less [of "sn_end s"] by (intro unat_add_u32) linarith
  have len: "length (take i ?fr @ take_front ?n ?e @ drop (Suc i) ?fr) \<le> length ?fr"
    using i' by (auto simp: take_front_def)
  have "sn_ok ecap s'"
    using ok ext' len tf(3) bytes sum le alloc by (auto simp: sn_ok_def s')
  moreover have "free_set ?fr = free_set (take i ?fr) \<union> {ex_lo ?e..<ex_hi ?e} \<union> free_set (drop (Suc i) ?fr)"
    by (subst fr) auto
  moreover have "al_block a \<inter> free_set (take i ?fr) = {}" "al_block a \<inter> free_set (drop (Suc i) ?fr) = {}"
    using ext le by (fastforce simp: a free_set_def)+
  moreover have "0 < unat (sn_begin s)" "0 < unat requested"
    using ok req(1) by (auto simp: sn_ok_def word_neq_0_unat [symmetric])
  then have "al_valid a"
    using n eok by (auto simp: a al_valid_def ex_ok_def word_neq_0_unat)
  ultimately show ?thesis
    using n eok le alloc tf(4) by (auto simp: s' a ex_ok_def)
qed

text \<open>
  Releasing: the free list splits into the extents below the block and those above it.
\<close>

definition ex_below :: "extent list \<Rightarrow> u32 \<Rightarrow> extent list" where
  "ex_below fr address = takeWhile (\<lambda>e. ex_address e < address) fr"

definition ex_above :: "extent list \<Rightarrow> u32 \<Rightarrow> extent list" where
  "ex_above fr address = dropWhile (\<lambda>e. ex_address e < address) fr"

lemma ex_split: "ex_below fr A @ ex_above fr A = fr" "sn_position fr A = length (ex_below fr A)"
  by (simp_all add: ex_below_def ex_above_def sn_position_def)

lemma ex_below_less: "e \<in> set (ex_below fr A) \<Longrightarrow> ex_lo e < unat A"
  unfolding ex_below_def by (drule set_takeWhileD) (simp add: word_less_nat_alt)

lemma ex_above_ge:
  assumes "extents_ok lo hi fr" "e \<in> set (ex_above fr A)"
  shows "unat A \<le> ex_lo e"
proof -
  obtain n ys where n: "ex_above fr A = n # ys" using assms(2) by (cases "ex_above fr A") auto
  then have "\<not> ex_address n < A"
    unfolding ex_above_def by (metis dropWhile_eq_Cons_conv)
  then have "unat A \<le> ex_lo n" by (simp add: word_less_nat_alt)
  moreover have "extents_ok lo hi (ex_below fr A @ n # ys)" using assms(1) ex_split(1) n by metis
  ultimately show ?thesis using assms(2) n by (auto dest: bspec)
qed

lemma ex_split_in: "set (ex_below fr A) \<union> set (ex_above fr A) = set fr"
  using ex_split(1) [of fr A] by (metis set_append)

lemma ex_hi_last: "extents_ok lo hi xs \<Longrightarrow> e \<in> set xs \<Longrightarrow> ex_hi e \<le> ex_hi (last xs)"
  by (cases xs rule: rev_cases) (fastforce simp: ex_ok_def)+

lemma ex_lo_hd: "extents_ok lo hi xs \<Longrightarrow> e \<in> set xs \<Longrightarrow> ex_lo (hd xs) \<le> ex_lo e"
  by (cases xs) (fastforce simp: ex_ok_def)+

definition al_ok :: "nat \<Rightarrow> nat \<Rightarrow> snapshot_allocation \<Rightarrow> bool" where
  "al_ok lo hi a \<longleftrightarrow> lo \<le> unat (al_address a) \<and> 0 < unat (al_size a) \<and> unat (al_address a) + unat (al_size a) \<le> hi \<and>
     16 dvd unat (al_address a) \<and> 16 dvd unat (al_size a)"

lemma al_add: "al_ok lo hi a \<Longrightarrow> hi < 2 ^ 32 \<Longrightarrow> unat (al_address a + al_size a) = unat (al_address a) + unat (al_size a)"
  by (intro unat_add_u32) (simp add: al_ok_def)

lemma ex_add: "ex_ok lo hi e \<Longrightarrow> hi < 2 ^ 32 \<Longrightarrow> unat (ex_address e + ex_size e) = ex_hi e"
  by (intro unat_add_u32) (simp add: ex_ok_def)

lemma sn_overlaps_append:
  "sn_overlaps (lo @ hi) (length lo) a \<longleftrightarrow>
     (lo \<noteq> [] \<and> ex_address (last lo) + ex_size (last lo) > al_address a) \<or>
     (hi \<noteq> [] \<and> al_address a + al_size a > ex_address (hd hi))"
  by (auto simp: sn_overlaps_def nth_append last_conv_nth hd_conv_nth)

lemma sn_overlaps_iff:
  assumes ok: "extents_ok lo hi fr" "al_ok lo hi a" "hi < 2 ^ 32"
  shows "sn_overlaps fr (sn_position fr (al_address a)) a \<longleftrightarrow> al_block a \<inter> free_set fr \<noteq> {}"
proof -
  let ?lo = "ex_below fr (al_address a)" and ?hi = "ex_above fr (al_address a)"
  let ?A = "unat (al_address a)" and ?E = "unat (al_address a) + unat (al_size a)"
  have ext: "extents_ok lo hi (?lo @ ?hi)" using ok(1) by (simp only: ex_split)
  have ovl: "sn_overlaps fr (sn_position fr (al_address a)) a \<longleftrightarrow>
      (?lo \<noteq> [] \<and> ?A < ex_hi (last ?lo)) \<or> (?hi \<noteq> [] \<and> ex_lo (hd ?hi) < ?E)"
  proof -
    have "ex_ok lo hi (last ?lo)" if "?lo \<noteq> []"
      using that ext by (intro extents_ok_bound [OF ext]) simp
    note add = ex_add [OF this ok(3)]
    have "sn_overlaps fr (sn_position fr (al_address a)) a = sn_overlaps (?lo @ ?hi) (length ?lo) a"
      by (simp only: ex_split)
    then show ?thesis
      using add by (auto simp: sn_overlaps_append word_less_nat_alt al_add [OF ok(2,3)])
  qed
  show ?thesis
  proof
    assume "sn_overlaps fr (sn_position fr (al_address a)) a"
    then consider "?lo \<noteq> []" "?A < ex_hi (last ?lo)" | "?hi \<noteq> []" "ex_lo (hd ?hi) < ?E" using ovl by blast
    then show "al_block a \<inter> free_set fr \<noteq> {}"
    proof cases
      case 1
      then have "last ?lo \<in> set fr" "ex_lo (last ?lo) < ?A" 
        using ex_below_less [of "last ?lo" fr "al_address a"] ex_split_in [of fr "al_address a"] by auto
      with 1 ok(2) show ?thesis by (fastforce simp: free_set_def al_ok_def)
    next
      case 2
      then have "hd ?hi \<in> set fr" "?A \<le> ex_lo (hd ?hi)" 
        using ex_above_ge [OF ok(1), of "hd ?hi"] ex_split_in [of fr "al_address a"] by auto
      moreover have "0 < unat (ex_size (hd ?hi))" using calculation(1) ok(1) by (auto simp: ex_ok_def dest: extents_ok_bound)
      ultimately show ?thesis using 2 by (fastforce simp: free_set_def)
    qed
  next
    assume ne: "al_block a \<inter> free_set fr \<noteq> {}"
    show "sn_overlaps fr (sn_position fr (al_address a)) a"
    proof (rule ccontr)
      assume no: "\<not> sn_overlaps fr (sn_position fr (al_address a)) a"
      have "ex_hi e \<le> ?A" if "e \<in> set ?lo" for e
        using ex_hi_last [of lo hi ?lo e] ext that no ovl by fastforce
      moreover have "?E \<le> ex_lo e" if "e \<in> set ?hi" for e
        using ex_lo_hd [of lo hi ?hi e] ext that no ovl by fastforce
      ultimately have "al_block a \<inter> free_set (?lo @ ?hi) = {}" by (fastforce simp: free_set_def)
      with ne show False by (simp only: ex_split)
    qed
  qed
qed

subsection \<open>The four ways to insert a block\<close>

text \<open>Whether the block touches the extent before it, and the one after it.\<close>

definition touches_below :: "extent list \<Rightarrow> snapshot_allocation \<Rightarrow> bool" where
  "touches_below lo a \<longleftrightarrow> lo \<noteq> [] \<and> ex_address (last lo) + ex_size (last lo) = al_address a"

definition touches_above :: "extent list \<Rightarrow> snapshot_allocation \<Rightarrow> bool" where
  "touches_above hi a \<longleftrightarrow> hi \<noteq> [] \<and> al_address a + al_size a = ex_address (hd hi)"

lemma sn_insert_both:
  assumes "ex_address p + ex_size p = al_address a" "al_address a + al_size a = ex_address n"
  shows "sn_insert ecap ((xs @ [p]) @ n # ys) (length (xs @ [p])) a =
    Some (xs @ [p\<lparr>ex_size := ex_size p + al_size a + ex_size n\<rparr>] @ ys)"
  using assms by (simp add: sn_insert_def Let_def nth_append upd_nth_def ex_erase_def)

lemma sn_insert_previous:
  assumes "ex_address p + ex_size p = al_address a" "\<not> touches_above hi a"
  shows "sn_insert ecap ((xs @ [p]) @ hi) (length (xs @ [p])) a =
    Some (xs @ [p\<lparr>ex_size := ex_size p + al_size a\<rparr>] @ hi)"
  using assms by (cases hi) (simp_all add: touches_below_def touches_above_def sn_insert_def Let_def nth_append upd_nth_def list_update_append)

lemma sn_insert_next:
  assumes "\<not> touches_below lo a"
    "al_address a + al_size a = ex_address n"
  shows "sn_insert ecap (lo @ n # ys) (length lo) a =
    Some (lo @ [\<lparr>ex_address = al_address a, ex_size = ex_size n + al_size a\<rparr>] @ ys)"
  using assms by (cases lo rule: rev_cases) (simp_all add: touches_below_def touches_above_def sn_insert_def Let_def nth_append upd_nth_def list_update_append)

lemma sn_insert_alone:
  assumes "\<not> touches_below lo a"
    "\<not> touches_above hi a"
  shows "sn_insert ecap (lo @ hi) (length lo) a =
    (if length (lo @ hi) = ecap then None
     else Some (lo @ [\<lparr>ex_address = al_address a, ex_size = al_size a\<rparr>] @ hi))"
  using assms by (cases lo rule: rev_cases; cases hi) (simp_all add: touches_below_def touches_above_def sn_insert_def Let_def nth_append)

definition inserted :: "nat \<Rightarrow> nat \<Rightarrow> extent list \<Rightarrow> snapshot_allocation \<Rightarrow> extent list \<Rightarrow> bool" where
  "inserted lo hi fr a fr' \<longleftrightarrow> extents_ok lo hi fr' \<and> free_set fr' = free_set fr \<union> al_block a \<and>
     free_bytes fr' = free_bytes fr + unat (al_size a)"

lemma inserted_both:
  assumes ok: "extents_ok lo hi (xs @ p # n # ys)" "al_ok lo hi a" "hi < 2 ^ 32"
    and p: "ex_address p + ex_size p = al_address a" and n: "al_address a + al_size a = ex_address n"
  shows "inserted lo hi (xs @ p # n # ys) a (xs @ p\<lparr>ex_size := ex_size p + al_size a + ex_size n\<rparr> # ys)"
proof -
  have pok: "ex_ok lo hi p" "ex_ok lo hi n" using ok(1) by auto
  have eqs: "ex_hi p = unat (al_address a)" "unat (al_address a) + unat (al_size a) = ex_lo n"
    using ex_add [OF pok(1) ok(3)] al_add [OF ok(2,3)] p n by simp_all
  have s1: "unat (ex_size p + al_size a) = unat (ex_size p) + unat (al_size a)"
    using pok eqs ok(3) by (intro unat_add_u32) (simp add: ex_ok_def)
  have s2: "unat (ex_size p + al_size a + ex_size n) = unat (ex_size p) + unat (al_size a) + unat (ex_size n)"
    using pok eqs ok(3) s1 unat_add_u32 [of "ex_size p + al_size a" "ex_size n"] by (simp add: ex_ok_def)
  have zok: "ex_ok lo hi (p\<lparr>ex_size := ex_size p + al_size a + ex_size n\<rparr>)"
    using pok eqs ok(2) s2 by (simp add: ex_ok_def al_ok_def)
  have "extents_ok lo hi (xs @ p\<lparr>ex_size := ex_size p + al_size a + ex_size n\<rparr> # ys)"
    using ok(1) zok s2 eqs by auto
  moreover have "free_set (xs @ p\<lparr>ex_size := ex_size p + al_size a + ex_size n\<rparr> # ys) =
      free_set (xs @ p # n # ys) \<union> al_block a"
    using s2 eqs by (auto simp: not_less)
  ultimately show ?thesis using s2 by (simp add: inserted_def)
qed

lemma inserted_previous:
  assumes ok: "extents_ok lo hi (xs @ p # ys)" "al_ok lo hi a" "hi < 2 ^ 32"
    and p: "ex_address p + ex_size p = al_address a"
    and above: "\<forall>f \<in> set ys. unat (al_address a) + unat (al_size a) < ex_lo f"
  shows "inserted lo hi (xs @ p # ys) a (xs @ p\<lparr>ex_size := ex_size p + al_size a\<rparr> # ys)"
proof -
  have pok: "ex_ok lo hi p" using ok(1) by auto
  have eqs: "ex_hi p = unat (al_address a)"
    using ex_add [OF pok ok(3)] p by simp
  have s1: "unat (ex_size p + al_size a) = unat (ex_size p) + unat (al_size a)"
    using pok eqs ok by (intro unat_add_u32) (simp add: ex_ok_def al_ok_def)
  have zok: "ex_ok lo hi (p\<lparr>ex_size := ex_size p + al_size a\<rparr>)"
    using pok eqs ok(2) s1 by (simp add: ex_ok_def al_ok_def)
  have "extents_ok lo hi (xs @ p\<lparr>ex_size := ex_size p + al_size a\<rparr> # ys)"
    using ok(1) zok s1 eqs above by auto
  moreover have "free_set (xs @ p\<lparr>ex_size := ex_size p + al_size a\<rparr> # ys) = free_set (xs @ p # ys) \<union> al_block a"
    using s1 eqs by (auto simp: not_less)
  ultimately show ?thesis using s1 by (simp add: inserted_def)
qed

lemma inserted_next:
  assumes ok: "extents_ok lo hi (xs @ n # ys)" "al_ok lo hi a" "hi < 2 ^ 32"
    and n: "al_address a + al_size a = ex_address n"
    and below: "\<forall>f \<in> set xs. ex_hi f < unat (al_address a)"
  shows "inserted lo hi (xs @ n # ys) a (xs @ \<lparr>ex_address = al_address a, ex_size = ex_size n + al_size a\<rparr> # ys)"
proof -
  have nok: "ex_ok lo hi n" using ok(1) by auto
  have eqs: "unat (al_address a) + unat (al_size a) = ex_lo n"
    using al_add [OF ok(2,3)] n by simp
  have s1: "unat (ex_size n + al_size a) = unat (ex_size n) + unat (al_size a)"
    using nok eqs ok(3) by (intro unat_add_u32) (simp add: ex_ok_def)
  have zok: "ex_ok lo hi \<lparr>ex_address = al_address a, ex_size = ex_size n + al_size a\<rparr>"
    using nok eqs ok(2) s1 by (simp add: ex_ok_def al_ok_def)
  have "extents_ok lo hi (xs @ \<lparr>ex_address = al_address a, ex_size = ex_size n + al_size a\<rparr> # ys)"
    using ok(1) zok s1 eqs below by auto
  moreover have "free_set (xs @ \<lparr>ex_address = al_address a, ex_size = ex_size n + al_size a\<rparr> # ys) =
      free_set (xs @ n # ys) \<union> al_block a"
    using s1 eqs by (auto simp: not_less)
  ultimately show ?thesis using s1 by (simp add: inserted_def)
qed

lemma inserted_alone:
  assumes ok: "extents_ok lo hi (xs @ ys)" "al_ok lo hi a"
    and below: "\<forall>f \<in> set xs. ex_hi f < unat (al_address a)"
    and above: "\<forall>f \<in> set ys. unat (al_address a) + unat (al_size a) < ex_lo f"
  shows "inserted lo hi (xs @ ys) a (xs @ \<lparr>ex_address = al_address a, ex_size = al_size a\<rparr> # ys)"
proof -
  have "ex_ok lo hi \<lparr>ex_address = al_address a, ex_size = al_size a\<rparr>"
    using ok(2) by (simp add: ex_ok_def al_ok_def)
  moreover have "ex_hi e < ex_lo f" if "e \<in> set xs" "f \<in> set ys" for e f
    using ok(1) that by auto
  ultimately show ?thesis
    using ok below above by (auto simp: inserted_def)
qed

lemma ex_below_gap:
  assumes "extents_ok lo hi fr" "al_ok lo hi a" "al_block a \<inter> free_set fr = {}" "e \<in> set (ex_below fr (al_address a))"
  shows "ex_hi e \<le> unat (al_address a)"
proof (rule ccontr)
  assume "\<not> ex_hi e \<le> unat (al_address a)"
  moreover have "ex_lo e < unat (al_address a)" "e \<in> set fr"
    using ex_below_less [OF assms(4)] assms(4) ex_split_in by auto
  ultimately have "unat (al_address a) \<in> al_block a \<inter> free_set fr"
    using assms(2) by (force simp: free_set_def al_ok_def)
  with assms(3) show False by blast
qed

lemma ex_above_gap:
  assumes "extents_ok lo hi fr" "al_ok lo hi a" "al_block a \<inter> free_set fr = {}" "e \<in> set (ex_above fr (al_address a))"
  shows "unat (al_address a) + unat (al_size a) \<le> ex_lo e"
proof (rule ccontr)
  assume "\<not> unat (al_address a) + unat (al_size a) \<le> ex_lo e"
  moreover have "unat (al_address a) \<le> ex_lo e" "e \<in> set fr"
    using ex_above_ge [OF assms(1,4)] assms(4) ex_split_in by auto
  moreover have "0 < unat (ex_size e)"
    using extents_ok_bound [OF assms(1)] calculation(3) by (auto simp: ex_ok_def)
  ultimately have "ex_lo e \<in> al_block a \<inter> free_set fr" by (force simp: free_set_def)
  with assms(3) show False by blast
qed

lemma not_touches_below:
  assumes "extents_ok lo hi xs" "hi < 2 ^ 32" "\<forall>e \<in> set xs. ex_hi e \<le> unat (al_address a)" "\<not> touches_below xs a"
    "e \<in> set xs"
  shows "ex_hi e < unat (al_address a)"
proof -
  have l: "last xs \<in> set xs" "xs \<noteq> []" using assms(5) by (cases xs rule: rev_cases; simp)+
  have "ex_hi (last xs) \<noteq> unat (al_address a)"
    using assms(4) l(2) ex_add [OF extents_ok_bound [OF assms(1) l(1)] assms(2)]
    by (auto simp: touches_below_def word_unat_eq_iff)
  with assms(3) l(1) ex_hi_last [OF assms(1,5)] show ?thesis by fastforce
qed

lemma not_touches_above:
  assumes "extents_ok lo hi xs" "hi < 2 ^ 32" "al_ok lo hi a"
    "\<forall>e \<in> set xs. unat (al_address a) + unat (al_size a) \<le> ex_lo e" "\<not> touches_above xs a" "e \<in> set xs"
  shows "unat (al_address a) + unat (al_size a) < ex_lo e"
proof -
  have l: "hd xs \<in> set xs" "xs \<noteq> []" using assms(6) by (cases xs; simp)+
  have "unat (al_address a) + unat (al_size a) \<noteq> ex_lo (hd xs)"
    using assms(5) l(2) al_add [OF assms(3,2)] by (auto simp: touches_above_def word_unat_eq_iff)
  with assms(4) l(1) ex_lo_hd [OF assms(1,6)] show ?thesis by fastforce
qed

lemma sn_insert_ok:
  assumes ok: "extents_ok lo hi fr" "al_ok lo hi a" "hi < 2 ^ 32"
    and dis: "al_block a \<inter> free_set fr = {}"
  shows "case sn_insert ecap fr (sn_position fr (al_address a)) a of
      Some fr' \<Rightarrow> inserted lo hi fr a fr' \<and> (length fr \<le> ecap \<longrightarrow> length fr' \<le> ecap)
    | None \<Rightarrow> length fr = ecap"
proof -
  define below where "below = ex_below fr (al_address a)"
  define above where "above = ex_above fr (al_address a)"
  have fr: "fr = below @ above" and pos: "sn_position fr (al_address a) = length below"
    by (simp_all only: ex_split below_def above_def)
  have ext: "extents_ok lo hi (below @ above)" using ok(1) by (simp only: fr)
  then have eb: "extents_ok lo hi below" and ea: "extents_ok lo hi above" by simp_all
  have gb: "\<forall>e \<in> set below. ex_hi e \<le> unat (al_address a)"
    and ga: "\<forall>e \<in> set above. unat (al_address a) + unat (al_size a) \<le> ex_lo e"
    using ex_below_gap [OF ok(1,2) dis] ex_above_gap [OF ok(1,2) dis] by (auto simp: below_def above_def)
  note sb = not_touches_below [OF eb ok(3) gb] and sa = not_touches_above [OF ea ok(3,2) ga]
  consider (both) xs p n ys where "touches_below below a" "touches_above above a" "below = xs @ [p]" "above = n # ys"
    | (prev) xs p where "touches_below below a" "\<not> touches_above above a" "below = xs @ [p]"
    | (nxt) n ys where "\<not> touches_below below a" "touches_above above a" "above = n # ys"
    | (alone) "\<not> touches_below below a" "\<not> touches_above above a"
    by (metis append_butlast_last_id list.collapse touches_below_def touches_above_def)
  then have "case sn_insert ecap (below @ above) (length below) a of
      Some fr' \<Rightarrow> inserted lo hi (below @ above) a fr' \<and> (length (below @ above) \<le> ecap \<longrightarrow> length fr' \<le> ecap)
    | None \<Rightarrow> length (below @ above) = ecap"
  proof cases
    case both
    with sn_insert_both [of p a n ecap xs ys] inserted_both [of lo hi xs p n ys a] ok(2,3) ext show ?thesis
      by (simp add: touches_below_def touches_above_def)
  next
    case prev
    with sn_insert_previous [of p a above ecap xs] inserted_previous [of lo hi xs p above a] ok(2,3) ext sa show ?thesis
      by (simp add: touches_below_def)
  next
    case nxt
    with sn_insert_next [of below a n ecap ys] inserted_next [of lo hi below n ys a] ok(2,3) ext sb show ?thesis
      by (simp add: touches_above_def)
  next
    case alone
    with sn_insert_alone [of below a above ecap] inserted_alone [of lo hi below above a] ok(2,3) ext sb sa show ?thesis
      by simp
  qed
  then show ?thesis unfolding pos unfolding fr .
qed

section \<open>Correctness of the allocator\<close>

lemma sn_releasable_iff:
  assumes "sn_ok ecap s"
  shows "sn_releasable s a \<longleftrightarrow>
    al_ok (unat (sn_begin s)) (unat (sn_end s)) a \<and> unat (al_size a) \<le> unat (sn_allocated s)"
proof -
  have "sn_begin s \<noteq> 0" and b: "0 < unat (sn_begin s)" using assms by (auto simp: sn_ok_def word_neq_0_unat)
  have sub: "al_size a \<le> sn_end s - al_address a \<longleftrightarrow> unat (al_address a) + unat (al_size a) \<le> unat (sn_end s)"
    if "al_address a < sn_end s"
    using unat_sub [OF less_imp_le [OF that]] that by (auto simp: word_le_nat_alt word_less_nat_alt)
  show ?thesis
  proof (cases "al_address a < sn_end s")
    case True
    then show ?thesis
      using sub [OF True] b \<open>sn_begin s \<noteq> 0\<close> unfolding sn_releasable_def al_valid_def al_ok_def
      by (auto simp: and_15_unat word_le_nat_alt word_less_nat_alt not_less word_neq_0_unat)
  next
    case False
    then show ?thesis
      unfolding sn_releasable_def al_ok_def by (auto simp: word_less_nat_alt word_le_nat_alt)
  qed
qed

lemma sn_release_ok:
  assumes ok: "sn_ok ecap s" and r: "sn_release ecap s a = (s', Snap_success)"
  shows "sn_ok ecap s' \<and> al_block a \<inter> free_set (sn_free s) = {} \<and>
    free_set (sn_free s') = free_set (sn_free s) \<union> al_block a \<and>
    unat (sn_allocated s) = unat (sn_allocated s') + unat (al_size a) \<and>
    sn_begin s' = sn_begin s \<and> sn_end s' = sn_end s"
proof -
  let ?lo = "unat (sn_begin s)" and ?hi = "unat (sn_end s)"
  from r have "sn_releasable s a" by (auto simp: sn_release_def split: if_splits)
  then have a: "al_ok ?lo ?hi a" "unat (al_size a) \<le> unat (sn_allocated s)" using sn_releasable_iff [OF ok] by auto
  have ext: "extents_ok ?lo ?hi (sn_free s)" "?hi < 2 ^ 32" using ok by (auto simp: sn_ok_def)
  from r have "\<not> sn_overlaps (sn_free s) (sn_position (sn_free s) (al_address a)) a"
    by (auto simp: sn_release_def Let_def split: if_splits)
  then have dis: "al_block a \<inter> free_set (sn_free s) = {}" using sn_overlaps_iff [OF ext(1) a(1) ext(2)] by blast
  from r obtain fr where fr: "sn_insert ecap (sn_free s) (sn_position (sn_free s) (al_address a)) a = Some fr"
    and s': "s' = s\<lparr>sn_free := fr, sn_allocated := sn_allocated s - al_size a\<rparr>"
    by (auto simp: sn_release_def Let_def split: if_splits option.splits)
  have ins: "inserted ?lo ?hi (sn_free s) a fr" "length fr \<le> ecap"
    using sn_insert_ok [OF ext(1) a(1) ext(2) dis, of ecap] fr ok by (auto simp: sn_ok_def)
  have sub: "unat (sn_allocated s - al_size a) = unat (sn_allocated s) - unat (al_size a)"
    using a(2) by (simp add: unat_sub word_le_nat_alt)
  show ?thesis
    using ok ins sub a dis by (auto simp: sn_ok_def s' inserted_def)
qed

text \<open>
  C20: release frees exactly the block it is given. It is rejected if and only if the block is not
  an aligned, non-empty part of the arena of at most the allocated size, or touches free memory (so a
  double free never succeeds); it reports \<open>no_space\<close> only when the extent table is full; and on
  success the arena stays well formed and the free addresses are the old ones and the block.
\<close>

theorem snapshot_release:
  assumes "sn_ok ecap s"
  shows "case sn_release ecap s a of (s', st) \<Rightarrow>
      (st = Snap_invalid_argument \<longleftrightarrow>
         \<not> (al_ok (unat (sn_begin s)) (unat (sn_end s)) a \<and> unat (al_size a) \<le> unat (sn_allocated s) \<and>
            al_block a \<inter> free_set (sn_free s) = {})) \<and>
      (st = Snap_no_space \<longrightarrow> length (sn_free s) = ecap) \<and> (st \<noteq> Snap_success \<longrightarrow> s' = s) \<and>
      (st = Snap_success \<longrightarrow> sn_ok ecap s' \<and> free_set (sn_free s') = free_set (sn_free s) \<union> al_block a \<and>
         unat (sn_allocated s) = unat (sn_allocated s') + unat (al_size a))"
proof -
  let ?lo = "unat (sn_begin s)" and ?hi = "unat (sn_end s)" and ?pos = "sn_position (sn_free s) (al_address a)"
  have ext: "extents_ok ?lo ?hi (sn_free s)" "?hi < 2 ^ 32" using assms by (auto simp: sn_ok_def)
  show ?thesis
  proof (cases "sn_releasable s a")
    case True
    then have a: "al_ok ?lo ?hi a" "unat (al_size a) \<le> unat (sn_allocated s)"
      using sn_releasable_iff [OF assms] by auto
    note ovl = sn_overlaps_iff [OF ext(1) a(1) ext(2)]
    show ?thesis
    proof (cases "al_block a \<inter> free_set (sn_free s) = {}")
      case dis: True
      with True ovl have eq: "sn_release ecap s a = (case sn_insert ecap (sn_free s) ?pos a of
          None \<Rightarrow> (s, Snap_no_space)
        | Some fr \<Rightarrow> (s\<lparr>sn_free := fr, sn_allocated := sn_allocated s - al_size a\<rparr>, Snap_success))"
        by (simp add: sn_release_def Let_def)
      show ?thesis
      proof (cases "sn_insert ecap (sn_free s) ?pos a")
        case None
        with eq sn_insert_ok [OF ext(1) a(1) ext(2) dis, of ecap] a dis show ?thesis by simp
      next
        case (Some fr)
        then have rel: "sn_release ecap s a =
            (s\<lparr>sn_free := fr, sn_allocated := sn_allocated s - al_size a\<rparr>, Snap_success)"
          by (simp add: eq)
        from sn_release_ok [OF assms rel] rel a dis show ?thesis by simp
      qed
    next
      case False
      with True ovl show ?thesis by (simp add: sn_release_def Let_def)
    qed
  next
    case False
    then show ?thesis using sn_releasable_iff [OF assms, of a] by (auto simp: sn_release_def)
  qed
qed

lemma dvd_16_less_round:
  assumes "16 dvd (n :: nat)" "16 dvd m" "r \<le> m" "m < r + 16"
  shows "n < m \<longleftrightarrow> n < r"
  using assms by presburger

lemma sn_free_address:
  assumes "sn_ok ecap s" "first_index P (sn_free s) = Some i"
  shows "ex_address (sn_free s ! i) \<noteq> 0"
proof -
  have "ex_ok (unat (sn_begin s)) (unat (sn_end s)) (sn_free s ! i)"
    using assms(1) first_index_SomeD [OF assms(2)] by (auto simp: sn_ok_def intro: extents_ok_bound)
  moreover have "0 < unat (sn_begin s)" using assms(1) by (auto simp: sn_ok_def word_neq_0_unat)
  ultimately show ?thesis by (auto simp: ex_ok_def)
qed

lemma sn_allocate_fails_iff:
  assumes ok: "sn_ok ecap s"
  shows "snd (sn_allocate s requested) = no_allocation \<longleftrightarrow> requested = 0 \<or> unat requested + 15 \<ge> 2 ^ 32 \<or>
    (\<forall>e \<in> set (sn_free s). unat (ex_size e) < unat requested)" (is "?l \<longleftrightarrow> ?r")
proof (cases "requested = 0 \<or> requested > NOT 0 - 15")
  case True
  have "unat (NOT 0 - 15 :: u32) = 4294967280" by simp
  with True show ?thesis by (auto simp: sn_allocate_def word_less_nat_alt)
next
  case False
  let ?n = "align_up requested 16"
  have mx: "unat (NOT 0 - 15 :: u32) = 4294967280" by simp
  from False have "requested \<le> NOT 0 - 15" by (simp add: not_less)
  note n = align_up_16_ge [OF this] unat_align_up_16 [of requested]
  have nn: "\<not> ?n < requested" using n by (simp add: word_less_nat_alt)
  have small: "\<not> unat requested + 15 \<ge> 2 ^ 32" using False mx by (auto simp: word_less_nat_alt)
  have iff: "ex_size e < ?n \<longleftrightarrow> unat (ex_size e) < unat requested" if "e \<in> set (sn_free s)" for e
  proof -
    have "16 dvd unat (ex_size e)" using ok that by (auto simp: sn_ok_def ex_ok_def dest!: extents_ok_bound)
    from dvd_16_less_round [OF this n(3,1,2)] show ?thesis by (simp add: word_less_nat_alt)
  qed
  have "?l \<longleftrightarrow> first_index (\<lambda>e. \<not> ex_size e < ?n) (sn_free s) = None"
  proof (cases "first_index (\<lambda>e. \<not> ex_size e < ?n) (sn_free s)")
    case None
    with False nn ok show ?thesis by (simp add: sn_allocate_def sn_ok_def Let_def)
  next
    case (Some i)
    with sn_free_address [OF ok Some] False nn ok show ?thesis by (simp add: sn_allocate_def sn_ok_def Let_def no_allocation_def)
  qed
  also have "\<dots> \<longleftrightarrow> ?r" using iff False small by (auto simp: first_index_None)
  finally show ?thesis .
qed

lemma sn_allocate_none:
  assumes ok: "sn_ok ecap s" and r: "sn_allocate s requested = (s', no_allocation)"
  shows "s' = s"
  using r sn_free_address [OF ok]
  by (auto simp: sn_allocate_def Let_def no_allocation_def split: if_splits option.splits)

text \<open>
  C21: allocate hands out free memory. A successful call returns a 16-byte aligned block of the
  requested size rounded up, all of whose addresses were free and are free no longer; it fails exactly
  when no free extent is large enough (or the size is zero or not representable).
\<close>

theorem snapshot_allocate:
  assumes "sn_ok ecap s" "sn_allocate s requested = (s', a)"
  shows "(a \<noteq> no_allocation \<longrightarrow>
       sn_ok ecap s' \<and> al_valid a \<and> 16 dvd unat (al_address a) \<and> 16 dvd unat (al_size a) \<and>
       unat requested \<le> unat (al_size a) \<and> unat (al_size a) < unat requested + 16 \<and>
       al_block a \<subseteq> free_set (sn_free s) \<and> free_set (sn_free s') = free_set (sn_free s) - al_block a \<and>
       unat (sn_allocated s') = unat (sn_allocated s) + unat (al_size a)) \<and>
    (a = no_allocation \<longrightarrow> s' = s) \<and>
    (a = no_allocation \<longleftrightarrow> requested = 0 \<or> unat requested + 15 \<ge> 2 ^ 32 \<or>
       (\<forall>e \<in> set (sn_free s). unat (ex_size e) < unat requested))"
proof -
  have "a = no_allocation \<longleftrightarrow> requested = 0 \<or> unat requested + 15 \<ge> 2 ^ 32 \<or>
       (\<forall>e \<in> set (sn_free s). unat (ex_size e) < unat requested)"
    using sn_allocate_fails_iff [OF assms(1), of requested] assms(2) by simp
  moreover have "a = no_allocation \<longrightarrow> s' = s"
    using assms sn_allocate_ok [OF assms] sn_allocate_none [OF assms(1)] by metis
  ultimately show ?thesis using sn_allocate_ok [OF assms] by blast
qed

definition demo_arena :: snapshot_arena where
  "demo_arena = fst (sn_initialize snapshot_arena_init 0x1001 0x1080)"

lemma demo_arena_ok: "sn_ok 2 demo_arena"
proof -
  have "snd (sn_initialize snapshot_arena_init 0x1001 0x1080) = Snap_success" by code_simp
  then show ?thesis
    using sn_initialize_ok [of snapshot_arena_init "0x1001" "0x1080" demo_arena 2]
    by (metis demo_arena_def prod.collapse zero_less_numeral)
qed

theorem snapshot_allocate_witness:
  "snd (sn_allocate demo_arena 20) = \<lparr>al_address = 0x1010, al_size = 32\<rparr> \<and>
   al_block (snd (sn_allocate demo_arena 20)) \<subseteq> free_set (sn_free demo_arena)"
proof -
  have "snd (sn_allocate demo_arena 20) = \<lparr>al_address = 0x1010, al_size = 32\<rparr>" by code_simp
  moreover from this have "snd (sn_allocate demo_arena 20) \<noteq> no_allocation" by (simp add: no_allocation_def)
  ultimately show ?thesis
    using snapshot_allocate [OF demo_arena_ok prod.collapse [symmetric], of 20] by blast
qed

theorem snapshot_release_witness:
  "let s = fst (sn_allocate demo_arena 20); a = snd (sn_allocate demo_arena 20)
   in snd (sn_release 2 s a) = Snap_success \<and>
      free_set (sn_free (fst (sn_release 2 s a))) = free_set (sn_free s) \<union> al_block a \<and>
      snd (sn_release 2 (fst (sn_release 2 s a)) a) = Snap_invalid_argument"
proof -
  let ?s = "fst (sn_allocate demo_arena 20)" and ?a = "snd (sn_allocate demo_arena 20)"
  have "snd (sn_allocate demo_arena 20) \<noteq> no_allocation" by code_simp
  then have "sn_ok 2 ?s" using sn_allocate_ok [OF demo_arena_ok prod.collapse [symmetric]] by blast
  moreover have "snd (sn_release 2 ?s ?a) = Snap_success"
    "snd (sn_release 2 (fst (sn_release 2 ?s ?a)) ?a) = Snap_invalid_argument"
    by code_simp+
  ultimately show ?thesis
    using snapshot_release [of 2 ?s ?a] unfolding Let_def by (auto simp: case_prod_unfold)
qed

section \<open>Runs of the allocator\<close>

text \<open>The class's own check follows from well-formedness.\<close>

lemma extents_invariant_ok:
  "extents_ok (unat b) (unat e) fr \<Longrightarrow> \<forall>x \<in> set fr. unat prev \<le> ex_lo x \<Longrightarrow>
   unat acc + free_bytes fr < 2 ^ 32 \<Longrightarrow>
   extents_invariant b e prev acc fr = Some (acc + of_nat (free_bytes fr))"
proof (induction fr arbitrary: prev acc)
  case (Cons x xs)
  from Cons.prems(1) have x: "ex_ok (unat b) (unat e) x" by simp
  have add: "unat (ex_address x + ex_size x) = ex_hi x" using ex_add [OF x] by simp
  have acc: "unat (acc + ex_size x) = unat acc + unat (ex_size x)"
    using Cons.prems(3) by (intro unat_add_u32) simp
  have lt: "ex_address x < e" "ex_size x \<le> e - ex_address x"
  proof -
    show lt: "ex_address x < e" using x by (auto simp: ex_ok_def word_less_nat_alt)
    show "ex_size x \<le> e - ex_address x"
      using x unat_sub [OF less_imp_le [OF lt]] by (auto simp: ex_ok_def word_le_nat_alt)
  qed
  have "extents_invariant b e (ex_address x + ex_size x) (acc + ex_size x) xs =
      Some (acc + ex_size x + of_nat (free_bytes xs))"
    using Cons.prems add acc by (intro Cons.IH) auto
  moreover have "\<not> (ex_size x = 0 \<or> ex_address x < prev \<or> ex_address x < b)"
    using x Cons.prems(2) by (auto simp: ex_ok_def word_less_nat_alt)
  ultimately show ?case using lt by (simp add: not_le not_less add.assoc)
qed simp

lemma sn_ok_invariant:
  assumes "sn_ok ecap s" shows "sn_invariant ecap s"
proof -
  from assms have lt: "sn_begin s < sn_end s" and sum: "free_bytes (sn_free s) + unat (sn_allocated s) =
      unat (sn_end s) - unat (sn_begin s)" by (auto simp: sn_ok_def)
  have cap: "unat (sn_capacity s) = unat (sn_end s) - unat (sn_begin s)"
    using unat_sub [OF less_imp_le [OF lt]] by (simp add: sn_capacity_def)
  have ext: "extents_ok (unat (sn_begin s)) (unat (sn_end s)) (sn_free s)" using assms by (simp add: sn_ok_def)
  have "\<forall>x \<in> set (sn_free s). unat (sn_begin s) \<le> ex_lo x"
    using ext by (auto simp: ex_ok_def dest: extents_ok_bound)
  moreover have small: "free_bytes (sn_free s) < 4294967296" using sum unat_u32_less [of "sn_end s"] by linarith
  ultimately have "extents_invariant (sn_begin s) (sn_end s) (sn_begin s) 0 (sn_free s) =
      Some (of_nat (free_bytes (sn_free s)))"
    using extents_invariant_ok [OF ext, of "sn_begin s" 0] by simp
  moreover have le: "sn_allocated s \<le> sn_capacity s" using sum cap by (simp add: word_le_nat_alt)
  moreover have "of_nat (free_bytes (sn_free s)) = sn_capacity s - sn_allocated s"
    using sum cap unat_sub [OF le] small
    by (simp add: word_unat_eq_iff unat_of_nat_u32)
  ultimately show ?thesis using assms lt by (auto simp: sn_invariant_def sn_ok_def)
qed

lemma sn_ok_coalesced:
  assumes ok: "sn_ok ecap s" and none: "sn_allocated s = 0"
  shows "sn_free s = [\<lparr>ex_address = sn_begin s, ex_size = sn_end s - sn_begin s\<rparr>]"
proof -
  let ?lo = "unat (sn_begin s)" and ?hi = "unat (sn_end s)"
  have ext: "extents_ok ?lo ?hi (sn_free s)" and lt: "sn_begin s < sn_end s" using ok by (auto simp: sn_ok_def)
  have bytes: "free_bytes (sn_free s) = ?hi - ?lo" using ok none by (simp add: sn_ok_def)
  have "card (free_set (sn_free s)) = card {?lo..<?hi}" using card_free_set [OF ext] bytes by simp
  then have all: "free_set (sn_free s) = {?lo..<?hi}"
    using free_set_bound [OF ext] by (intro card_subset_eq) auto
  obtain e rest where fr: "sn_free s = e # rest"
    using bytes lt by (cases "sn_free s") (auto simp: word_less_nat_alt)
  have "rest = []"
  proof (rule ccontr)
    assume "rest \<noteq> []"
    then obtain f where f: "f \<in> set rest" by (cases rest) auto
    with ext fr have "ex_hi e < ex_lo f" "ex_ok ?lo ?hi f" "ex_ok ?lo ?hi e" by (auto dest: extents_ok_bound)
    then have "ex_hi e \<in> free_set (sn_free s)" unfolding all by (auto simp: ex_ok_def)
    then obtain g where "g \<in> set (sn_free s)" "ex_lo g \<le> ex_hi e" "ex_hi e < ex_hi g"
      by (auto simp: free_set_def)
    with ext fr show False by auto
  qed
  with fr all lt have "ex_lo e = ?lo" "ex_hi e = ?hi"
    using bytes ext by (auto simp: ex_ok_def word_less_nat_alt atLeastLessThan_eq_iff)
  then have "ex_address e = sn_begin s" "ex_size e = sn_end s - sn_begin s"
    using unat_sub [OF less_imp_le [OF lt]] by (auto simp: word_unat_eq_iff)
  with fr \<open>rest = []\<close> show ?thesis by (cases e) simp
qed

text \<open>
  A client that keeps its live allocations and only ever releases those: the ghost list
  records them.
\<close>

datatype snapshot_op = Snap_allocate u32 | Snap_release nat

fun snapshot_step :: "nat \<Rightarrow> snapshot_op \<Rightarrow> snapshot_arena \<times> snapshot_allocation list \<Rightarrow>
    snapshot_arena \<times> snapshot_allocation list" where
  "snapshot_step ecap (Snap_allocate requested) (s, live) =
     (let (s', a) = sn_allocate s requested in if a = no_allocation then (s', live) else (s', a # live))"
| "snapshot_step ecap (Snap_release k) (s, live) =
     (if length live \<le> k then (s, live)
      else let (s', st) = sn_release ecap s (live ! k)
           in if st = Snap_success then (s', take k live @ drop (Suc k) live) else (s', live))"

definition snapshot_run :: "nat \<Rightarrow> snapshot_op list \<Rightarrow> snapshot_arena \<Rightarrow> snapshot_arena \<times> snapshot_allocation list" where
  "snapshot_run ecap ops s = fold (snapshot_step ecap) ops (s, [])"

text \<open>The live blocks and the free extents partition the arena.\<close>

definition blocks_ok :: "snapshot_arena \<Rightarrow> snapshot_allocation list \<Rightarrow> bool" where
  "blocks_ok s live \<longleftrightarrow>
     list_all (al_ok (unat (sn_begin s)) (unat (sn_end s))) live \<and>
     sorted_wrt (\<lambda>a b. al_block a \<inter> al_block b = {}) live \<and>
     (\<forall>a \<in> set live. al_block a \<inter> free_set (sn_free s) = {}) \<and>
     (\<Union>a \<in> set live. al_block a) \<union> free_set (sn_free s) = {unat (sn_begin s)..<unat (sn_end s)} \<and>
     sum_list (map (\<lambda>a. unat (al_size a)) live) = unat (sn_allocated s)"

lemma blocks_ok_allocate:
  assumes ok: "sn_ok ecap s" "blocks_ok s live" and r: "sn_allocate s requested = (s', a)" "a \<noteq> no_allocation"
  shows "blocks_ok s' (a # live)"
proof -
  note A = sn_allocate_ok [OF ok(1) r]
  have sub: "al_block a \<subseteq> {unat (sn_begin s)..<unat (sn_end s)}"
  proof -
    have "free_set (sn_free s) \<subseteq> {unat (sn_begin s)..<unat (sn_end s)}"
      using ok(1) by (intro free_set_bound) (simp add: sn_ok_def)
    with A show ?thesis by (meson subset_trans)
  qed
  have pos: "0 < unat (al_size a)" using A by (simp add: al_valid_def word_neq_0_unat)
  with sub have "unat (sn_begin s) \<le> unat (al_address a)" "unat (al_address a) + unat (al_size a) \<le> unat (sn_end s)"
    by auto
  then have "al_ok (unat (sn_begin s)) (unat (sn_end s)) a" using A pos by (simp add: al_ok_def)
  moreover have "al_block a \<inter> al_block b = {}" if "b \<in> set live" for b
  proof -
    have "al_block b \<inter> free_set (sn_free s) = {}" using that ok(2) unfolding blocks_ok_def by blast
    with A show ?thesis by blast
  qed
  moreover have "(\<Union>b \<in> set (a # live). al_block b) \<union> free_set (sn_free s') = {unat (sn_begin s)..<unat (sn_end s)}"
    using A ok(2) unfolding blocks_ok_def by auto
  moreover have "\<forall>b \<in> set (a # live). al_block b \<inter> free_set (sn_free s') = {}"
    using A ok(2) unfolding blocks_ok_def by auto
  ultimately show ?thesis using A ok(2) unfolding blocks_ok_def by simp
qed

lemma blocks_ok_release:
  assumes ok: "sn_ok ecap s" "blocks_ok s (xs @ a # ys)" and r: "sn_release ecap s a = (s', Snap_success)"
  shows "blocks_ok s' (xs @ ys)"
proof -
  note A = sn_release_ok [OF ok(1) r]
  have dis: "al_block b \<inter> al_block a = {}" if "b \<in> set (xs @ ys)" for b
    using that ok(2) by (auto simp: blocks_ok_def sorted_wrt_append)
  have "\<forall>b \<in> set (xs @ ys). al_block b \<inter> free_set (sn_free s') = {}"
  proof
    fix b assume b: "b \<in> set (xs @ ys)"
    then have "al_block b \<inter> free_set (sn_free s) = {}" using ok(2) by (auto simp: blocks_ok_def)
    with dis [OF b] A show "al_block b \<inter> free_set (sn_free s') = {}" by blast
  qed
  moreover have "(\<Union>b \<in> set (xs @ ys). al_block b) \<union> free_set (sn_free s') = {unat (sn_begin s')..<unat (sn_end s')}"
    using ok(2) A by (auto simp: blocks_ok_def)
  moreover have "sum_list (map (\<lambda>a. unat (al_size a)) (xs @ ys)) = unat (sn_allocated s')"
    using ok(2) A by (simp add: blocks_ok_def)
  ultimately show ?thesis using A ok(2) by (simp add: blocks_ok_def sorted_wrt_append)
qed

lemma snapshot_step_ok:
  assumes "sn_ok ecap s" "blocks_ok s live" "snapshot_step ecap op (s, live) = (s', live')"
  shows "sn_ok ecap s' \<and> blocks_ok s' live'"
proof (cases op)
  case (Snap_allocate requested)
  obtain s1 a where r: "sn_allocate s requested = (s1, a)" by fastforce
  with Snap_allocate assms sn_allocate_ok [OF assms(1) r] sn_allocate_none [OF assms(1)] blocks_ok_allocate [OF assms(1,2) r]
  show ?thesis by (cases "a = no_allocation") auto
next
  case (Snap_release k)
  show ?thesis
  proof (cases "k < length live")
    case True
    obtain s1 st where r: "sn_release ecap s (live ! k) = (s1, st)" by fastforce
    have live: "live = take k live @ live ! k # drop (Suc k) live" using True by (rule id_take_nth_drop)
    show ?thesis
    proof (cases "st = Snap_success")
      case succ: True
      with r have r': "sn_release ecap s (live ! k) = (s1, Snap_success)" by simp
      have "blocks_ok s (take k live @ live ! k # drop (Suc k) live)" using assms(2) live by simp
      from blocks_ok_release [OF assms(1) this r'] sn_release_ok [OF assms(1) r'] Snap_release True r' assms(3)
      show ?thesis by auto
    next
      case False
      then have "s1 = s" using r by (auto simp: sn_release_def Let_def split: if_splits option.splits)
      with False r Snap_release True assms show ?thesis by auto
    qed
  qed (use Snap_release assms in auto)
qed

lemma snapshot_run_ok:
  "sn_ok ecap s \<Longrightarrow> blocks_ok s live \<Longrightarrow> fold (snapshot_step ecap) ops (s, live) = (s', live') \<Longrightarrow>
   sn_ok ecap s' \<and> blocks_ok s' live'"
proof (induction ops arbitrary: s live)
  case (Cons op ops)
  obtain s1 live1 where st: "snapshot_step ecap op (s, live) = (s1, live1)" by fastforce
  from snapshot_step_ok [OF Cons.prems(1,2) st] Cons.IH [of s1 live1] Cons.prems(3) show ?case by (simp add: st)
qed simp

text \<open>
  C19: over any run of allocations and releases on an initialised arena, the blocks in use never
  overlap each other or free memory, and together with the free extents they cover the arena exactly;
  the class's \<open>invariant()\<close> check succeeds; and once everything has been released the free list is a
  single extent again, so the allocator never fragments permanently.
\<close>

theorem snapshot_run_safe:
  assumes "sn_initialize s0 b e = (s, Snap_success)" "0 < ecap" "snapshot_run ecap ops s = (s', live)"
  shows "sorted_wrt (\<lambda>a b. al_block a \<inter> al_block b = {}) live \<and>
    (\<Union>a \<in> set live. al_block a) \<inter> free_set (sn_free s') = {} \<and>
    (\<Union>a \<in> set live. al_block a) \<union> free_set (sn_free s') = {unat (sn_begin s')..<unat (sn_end s')} \<and>
    sn_invariant ecap s' \<and>
    (live = [] \<longrightarrow> sn_free s' = [\<lparr>ex_address = sn_begin s', ex_size = sn_end s' - sn_begin s'\<rparr>])"
proof -
  have init: "sn_ok ecap s" "blocks_ok s []"
    using sn_initialize_ok [OF assms(1,2)] by (auto simp: blocks_ok_def)
  have ok: "sn_ok ecap s'" "blocks_ok s' live"
    using snapshot_run_ok [OF init] assms(3) by (auto simp: snapshot_run_def)
  have "sn_allocated s' = 0" if "live = []"
    using ok(2) that by (simp add: blocks_ok_def unat_eq_zero)
  with sn_ok_coalesced [OF ok(1)] sn_ok_invariant [OF ok(1)] ok(2) show ?thesis
    by (auto simp: blocks_ok_def)
qed

theorem snapshot_run_safe_witness:
  "let (s', live) = snapshot_run 4 [Snap_allocate 20, Snap_allocate 16, Snap_release 1, Snap_release 0] demo_arena
   in live = [] \<and> sn_free s' = [\<lparr>ex_address = 0x1010, ex_size = 0x70\<rparr>] \<and> sn_invariant 4 s'"
proof -
  let ?r = "snapshot_run 4 [Snap_allocate 20, Snap_allocate 16, Snap_release 1, Snap_release 0] demo_arena"
  have i: "sn_initialize snapshot_arena_init 0x1001 0x1080 = (demo_arena, Snap_success)" by code_simp
  have "snd ?r = []" "sn_free (fst ?r) = [\<lparr>ex_address = 0x1010, ex_size = 0x70\<rparr>]" by code_simp+
  with snapshot_run_safe [OF i, of 4 _ "fst ?r" "snd ?r"] show ?thesis
    by (auto simp: case_prod_unfold)
qed

end
