(* ===== verification/Path.thy ===== *)
theory Path
  imports Prelude
begin

text \<open>
  \<^verbatim>\<open>kernel/path.hpp\<close>: numbered device names and path canonicalisation. A C string is the list of
  its characters before the terminating NUL, a null pointer is \<open>None\<close>. The output buffer of
  \<open>canonicalize\<close> is the list of characters written so far, its first character being the root slash.
\<close>

section \<open>Definitions\<close>

abbreviation invalid_number :: u32 where "invalid_number \<equiv> NOT 0"

definition path_digit :: "char \<Rightarrow> bool" where
  "path_digit c \<longleftrightarrow> \<not> (of_char c < (48 :: nat)) \<and> \<not> (of_char c > (57 :: nat))"

fun match_prefix :: "string \<Rightarrow> string \<Rightarrow> string option" where
  "match_prefix text [] = Some text"
| "match_prefix [] (p # ps) = None"
| "match_prefix (c # cs) (p # ps) = (if c = p then match_prefix cs ps else None)"

fun suffix_digits :: "u32 \<Rightarrow> u32 \<Rightarrow> string \<Rightarrow> u32" where
  "suffix_digits limit v [] = (if v < limit then v else invalid_number)"
| "suffix_digits limit v (c # cs) =
     (if path_digit c then
        (let digit = of_nat (of_char c - 48)
         in if digit \<ge> limit \<or> v > (limit - 1 - digit) div 10 then invalid_number
            else suffix_digits limit (v * 10 + digit) cs)
      else invalid_number)"

definition numbered_suffix :: "string option \<Rightarrow> string option \<Rightarrow> u32 \<Rightarrow> u32" where
  "numbered_suffix text prefix limit =
     (case (text, prefix) of
        (Some t, Some p) \<Rightarrow>
          if limit = 0 then invalid_number
          else (case match_prefix t p of
                  Some (c # cs) \<Rightarrow> if path_digit c then suffix_digits limit 0 (c # cs) else invalid_number
                | _ \<Rightarrow> invalid_number)
      | _ \<Rightarrow> invalid_number)"

abbreviation path_combined_capacity :: nat where "path_combined_capacity \<equiv> 512"

text \<open>The buffer \<open>combined\<close>: the current directory and a slash in front of a relative path.\<close>

definition path_combine :: "string \<Rightarrow> string \<Rightarrow> string option" where
  "path_combine cwd path =
     (let start = (if path = [] \<or> hd path \<noteq> CHR ''/'' then
                     (if length cwd \<ge> path_combined_capacity then None
                      else Some (if cwd = [] \<or> last cwd \<noteq> CHR ''/'' then cwd @ ''/'' else cwd))
                   else Some [])
      in case start of
           None \<Rightarrow> None
         | Some s \<Rightarrow> if length s + length path \<ge> path_combined_capacity then None else Some (s @ path))"

text \<open>Dropping the last name of the output for a \<open>..\<close> component.\<close>

definition path_strip_name :: "string \<Rightarrow> string" where
  "path_strip_name out = take (length out - length (takeWhile (\<lambda>c. c \<noteq> CHR ''/'') (rev (tl out)))) out"

definition path_parent :: "string \<Rightarrow> string" where
  "path_parent out =
     (if length out > 1 then
        (let stripped = path_strip_name out in if length stripped > 1 then butlast stripped else stripped)
      else out)"

definition path_component :: "nat \<Rightarrow> string \<Rightarrow> string \<Rightarrow> string option" where
  "path_component cap out name =
     (if name = [] \<or> name = ''.'' then Some out
      else if name = ''..'' then Some (path_parent out)
      else let separator = (if length out > 1 then 1 else 0)
           in if length name + separator \<ge> cap - length out then None
              else Some (out @ (if separator \<noteq> 0 then ''/'' else []) @ name))"

lemma path_rest_shorter:
  "rest \<noteq> [] \<Longrightarrow>
   length (dropWhile (\<lambda>c. c \<noteq> CHR ''/'') (dropWhile (\<lambda>c. c = CHR ''/'') rest)) < length rest"
proof (cases rest)
  case (Cons c cs)
  have "length (dropWhile (\<lambda>c. c \<noteq> CHR ''/'') (dropWhile (\<lambda>c. c = CHR ''/'') cs)) \<le> length cs"
    by (meson le_trans length_dropWhile_le)
  moreover have "length (dropWhile (\<lambda>c. c \<noteq> CHR ''/'') cs) \<le> length cs"
    by (rule length_dropWhile_le)
  ultimately show ?thesis using Cons by simp
qed simp

function path_loop :: "nat \<Rightarrow> string \<Rightarrow> string \<Rightarrow> string option" where
  "path_loop cap out rest =
     (if rest = [] then Some out
      else let rest1 = dropWhile (\<lambda>c. c = CHR ''/'') rest;
               name = takeWhile (\<lambda>c. c \<noteq> CHR ''/'') rest1;
               rest2 = dropWhile (\<lambda>c. c \<noteq> CHR ''/'') rest1
           in case path_component cap out name of
                None \<Rightarrow> None
              | Some out' \<Rightarrow> path_loop cap out' rest2)"
  by pat_completeness auto

termination
  by (relation "measure (\<lambda>(cap, out, rest). length rest)") (auto intro: path_rest_shorter)

declare path_loop.simps [simp del]

definition canonicalize :: "string option \<Rightarrow> string option \<Rightarrow> nat \<Rightarrow> string option" where
  "canonicalize cwd path output_capacity =
     (case (cwd, path) of
        (Some d, Some p) \<Rightarrow>
          if p = [] \<or> output_capacity < 2 then None
          else (case path_combine d p of
                  None \<Rightarrow> None
                | Some combined \<Rightarrow> path_loop output_capacity ''/'' combined)
      | _ \<Rightarrow> None)"

section \<open>Device numbers\<close>

lemma match_prefix_iff: "match_prefix name pre = Some rest \<longleftrightarrow> name = pre @ rest"
  by (induction name pre rule: match_prefix.induct) auto

text \<open>The decimal value of a digit string.\<close>

definition digit_value :: "char \<Rightarrow> nat" where
  "digit_value c = of_char c - 48"

fun decimal :: "nat \<Rightarrow> string \<Rightarrow> nat" where
  "decimal v [] = v"
| "decimal v (c # cs) = decimal (v * 10 + digit_value c) cs"

lemma decimal_ge: "v \<le> decimal v ds"
proof (induction ds arbitrary: v)
  case (Cons c ds)
  have "v \<le> v * 10 + digit_value c" by simp
  also have "\<dots> \<le> decimal v (c # ds)" using Cons by simp
  finally show ?case .
qed simp

lemma digit_value_less: "path_digit c \<Longrightarrow> digit_value c < 10"
  by (auto simp: path_digit_def digit_value_def)

lemma suffix_guard:
  assumes "path_digit c" "v < limit"
  defines "d \<equiv> of_nat (of_char c - 48) :: u32"
  shows "(d \<ge> limit \<or> v > (limit - 1 - d) div 10) \<longleftrightarrow> unat limit \<le> unat v * 10 + digit_value c"
    and "\<not> (d \<ge> limit \<or> v > (limit - 1 - d) div 10) \<Longrightarrow> unat (v * 10 + d) = unat v * 10 + digit_value c"
proof -
  have d: "unat d = digit_value c" using digit_value_less [OF assms(1)]
    by (simp add: d_def digit_value_def unat_of_nat_u32)
  have lim: "unat (limit - 1) = unat limit - 1" 
  proof -
    have "limit \<noteq> 0" using assms(2) by auto
    then have "1 \<le> limit" by (simp add: word_le_nat_alt word_neq_0_unat Suc_le_eq)
    from unat_sub [OF this] show ?thesis by simp
  qed
  have sub: "unat (limit - 1 - d) = unat limit - 1 - digit_value c" if "d < limit"
  proof -
    have "d \<le> limit - 1" using that lim d by (simp add: word_le_nat_alt word_less_nat_alt)
    then show ?thesis by (simp add: unat_sub lim d)
  qed
  have div: "unat ((limit - 1 - d) div 10) = (unat limit - 1 - digit_value c) div 10" if "d < limit"
    using sub [OF that] by (simp add: unat_div)
  show iff: "(d \<ge> limit \<or> v > (limit - 1 - d) div 10) \<longleftrightarrow> unat limit \<le> unat v * 10 + digit_value c"
  proof (cases "d < limit")
    case True
    then have "digit_value c < unat limit" using d by (simp add: word_less_nat_alt)
    then show ?thesis using True div by (auto simp: word_less_nat_alt word_le_nat_alt)
  next
    case False
    then show ?thesis using d by (auto simp: word_less_nat_alt word_le_nat_alt)
  qed
  assume "\<not> (d \<ge> limit \<or> v > (limit - 1 - d) div 10)"
  with iff have "unat v * 10 + digit_value c < unat limit" by simp
  then have "unat v * 10 + digit_value c < 4294967296" using unat_u32_less [of limit] by linarith
  then show "unat (v * 10 + d) = unat v * 10 + digit_value c"
    by (simp add: unat_word_ariths d)
qed

lemma suffix_digits_spec:
  "v < limit \<Longrightarrow> suffix_digits limit v ds =
     (if list_all path_digit ds \<and> decimal (unat v) ds < unat limit then of_nat (decimal (unat v) ds) else invalid_number)"
proof (induction ds arbitrary: v)
  case Nil
  then show ?case by (simp add: word_less_nat_alt)
next
  case (Cons c ds)
  let ?d = "of_nat (of_char c - 48) :: u32"
  show ?case
  proof (cases "path_digit c")
    case True
    note guard = suffix_guard [OF True Cons.prems]
    show ?thesis
    proof (cases "?d \<ge> limit \<or> v > (limit - 1 - ?d) div 10")
      case over: True
      then have "unat limit \<le> decimal (unat v) (c # ds)"
        using guard(1) decimal_ge [of "unat v * 10 + digit_value c" ds] by simp
      with over True show ?thesis by simp
    next
      case False
      with guard have "v * 10 + ?d < limit" by (simp add: word_less_nat_alt)
      from Cons.IH [OF this] guard(2) [OF False] False True show ?thesis by simp
    qed
  qed simp
qed

text \<open>
  C24: \<open>numbered_suffix\<close> recognises exactly the prefix followed by a decimal number below the limit and
  returns its value; everything else, in particular any number that would not fit, is
  \<open>invalid_number\<close>. The 32-bit accumulator never wraps.
\<close>

theorem numbered_suffix_correct:
  "numbered_suffix (Some name) (Some pre) limit =
     (if \<exists>ds. name = pre @ ds \<and> ds \<noteq> [] \<and> list_all path_digit ds \<and> decimal 0 ds < unat limit
      then of_nat (decimal 0 (drop (length pre) name)) else invalid_number)"
proof (cases "limit = 0 \<or> match_prefix name pre = None \<or> match_prefix name pre = Some []")
  case True
  then have "\<nexists>ds. name = pre @ ds \<and> ds \<noteq> [] \<and> list_all path_digit ds \<and> decimal 0 ds < unat limit"
    using match_prefix_iff [of name pre] by fastforce
  with True show ?thesis by (auto simp: numbered_suffix_def split: option.split list.split)
next
  case False
  then obtain c cs where m: "match_prefix name pre = Some (c # cs)"
    by (metis neq_Nil_conv not_None_eq)
  have "0 < limit" using False by (simp add: word_neq_0_conv)
  from suffix_digits_spec [OF this, of "c # cs"] m False match_prefix_iff [of name pre "c # cs"] show ?thesis
    by (auto simp: numbered_suffix_def)
qed

lemma numbered_suffix_pts:
  "numbered_suffix (Some ''pts/12'') (Some ''pts/'') 64 = 12 \<and>
   numbered_suffix (Some ''pts/99999999999'') (Some ''pts/'') 64 = invalid_number"
  by code_simp

section \<open>Canonical paths\<close>

text \<open>
  The reference: a path is the list of its non-empty names, \<open>.\<close> is skipped and \<open>..\<close> drops the last
  name, the root being its own parent.
\<close>

fun split_slash :: "string \<Rightarrow> string list" where
  "split_slash [] = [[]]"
| "split_slash (c # cs) =
     (if c = CHR ''/'' then [] # split_slash cs
      else (case split_slash cs of [] \<Rightarrow> [[c]] | n # ns \<Rightarrow> (c # n) # ns))"

definition path_names :: "string \<Rightarrow> string list" where
  "path_names s = filter (\<lambda>n. n \<noteq> []) (split_slash s)"

definition resolve_step :: "string list \<Rightarrow> string \<Rightarrow> string list" where
  "resolve_step ns n = (if n = ''.'' then ns else if n = ''..'' then butlast ns else ns @ [n])"

definition render_path :: "string list \<Rightarrow> string" where
  "render_path ns = (if ns = [] then ''/'' else concat (map (\<lambda>n. CHR ''/'' # n) ns))"

fun resolve_bounded :: "nat \<Rightarrow> string list \<Rightarrow> string list \<Rightarrow> string list option" where
  "resolve_bounded cap ns [] = Some ns"
| "resolve_bounded cap ns (m # ms) =
     (let ns' = resolve_step ns m
      in if length (render_path ns') \<ge> cap then None else resolve_bounded cap ns' ms)"

definition slash_free :: "string \<Rightarrow> bool" where
  "slash_free n \<longleftrightarrow> CHR ''/'' \<notin> set n"

definition names_ok :: "string list \<Rightarrow> bool" where
  "names_ok ns \<longleftrightarrow> (\<forall>n \<in> set ns. n \<noteq> [] \<and> slash_free n \<and> n \<noteq> ''.'' \<and> n \<noteq> ''..'')"

lemma split_slash_neq_Nil [simp]: "split_slash s \<noteq> []"
  by (induction s) (auto split: list.split)

lemma split_slash_append:
  "slash_free n \<Longrightarrow> split_slash (n @ CHR ''/'' # s) = n # split_slash s"
  by (induction n) (auto simp: slash_free_def)

lemma split_slash_single: "slash_free n \<Longrightarrow> split_slash n = [n]"
  by (induction n) (auto simp: slash_free_def)

lemma path_names_Cons_slash: "path_names (CHR ''/'' # s) = path_names s"
  by (simp add: path_names_def)

lemma path_names_dropWhile: "path_names (dropWhile (\<lambda>c. c = CHR ''/'') s) = path_names s"
  by (induction s) (auto simp: path_names_Cons_slash)

lemma path_names_single: "slash_free n \<Longrightarrow> n \<noteq> [] \<Longrightarrow> path_names n = [n]"
  by (simp add: path_names_def split_slash_single)

lemma path_names_append: "slash_free n \<Longrightarrow> n \<noteq> [] \<Longrightarrow> path_names (n @ CHR ''/'' # s) = n # path_names s"
  by (simp add: path_names_def split_slash_append)

lemma path_names_step:
  assumes "s = [] \<or> hd s \<noteq> CHR ''/''"
  shows "path_names s = (let n = takeWhile (\<lambda>c. c \<noteq> CHR ''/'') s; r = dropWhile (\<lambda>c. c \<noteq> CHR ''/'') s
     in if n = [] then [] else n # path_names r)"
proof -
  define n where "n = takeWhile (\<lambda>c. c \<noteq> CHR ''/'') s"
  define r where "r = dropWhile (\<lambda>c. c \<noteq> CHR ''/'') s"
  have s: "s = n @ r" by (simp add: n_def r_def)
  have sf: "slash_free n" by (auto simp: n_def slash_free_def dest: set_takeWhileD)
  have n_Nil: "n = [] \<longleftrightarrow> s = []" using assms by (cases s) (auto simp: n_def)
  have r_hd: "r = [] \<or> (\<exists>ds. r = CHR ''/'' # ds)"
    by (cases r) (auto simp: r_def dropWhile_eq_Cons_conv)
  have "path_names s = (if n = [] then [] else n # path_names r)"
  proof (cases "n = []")
    case True
    with n_Nil show ?thesis by (simp add: path_names_def)
  next
    case False
    from r_hd show ?thesis
    proof
      assume "r = []"
      with s sf False show ?thesis by (simp add: path_names_single) (simp add: path_names_def)
    next
      assume "\<exists>ds. r = CHR ''/'' # ds"
      with s sf False show ?thesis by (auto simp: path_names_append path_names_Cons_slash)
    qed
  qed
  then show ?thesis by (simp add: Let_def n_def r_def)
qed

lemma length_render: "ns \<noteq> [] \<Longrightarrow> names_ok ns \<Longrightarrow> 2 \<le> length (render_path ns)"
  by (cases ns) (auto simp: render_path_def names_ok_def Suc_le_eq)

lemma path_parent_render:
  assumes "names_ok ns" shows "path_parent (render_path ns) = render_path (butlast ns)"
proof (cases ns rule: rev_cases)
  case Nil
  then show ?thesis by (simp add: path_parent_def render_path_def)
next
  case (snoc ds n)
  have n: "n \<noteq> []" "slash_free n" using assms snoc by (auto simp: names_ok_def)
  let ?d = "concat (map (\<lambda>n. CHR ''/'' # n) ds)"
  have out: "render_path ns = ?d @ CHR ''/'' # n" by (simp add: render_path_def snoc)
  have tw: "takeWhile (\<lambda>c. c \<noteq> CHR ''/'') (rev n @ zs) = rev n @ takeWhile (\<lambda>c. c \<noteq> CHR ''/'') zs" for zs
    using n(2) by (intro takeWhile_append2) (auto simp: slash_free_def)
  have tw0: "takeWhile (\<lambda>c. c \<noteq> CHR ''/'') (rev n) = rev n"
    using n(2) by (subst takeWhile_eq_all_conv) (auto simp: slash_free_def)
  have "path_strip_name (render_path ns) = ?d @ ''/''"
  proof (cases ds)
    case Nil
    then show ?thesis by (simp add: path_strip_name_def out tw0)
  next
    case (Cons e es)
    then have "tl (render_path ns) = (e @ concat (map (\<lambda>n. CHR ''/'' # n) es)) @ CHR ''/'' # n" by (simp add: out)
    then show ?thesis by (simp add: path_strip_name_def out tw)
  qed
  moreover have "ds \<noteq> [] \<Longrightarrow> 1 < length (?d @ ''/'')"
    using length_render [of ds] assms snoc by (auto simp: render_path_def names_ok_def)
  ultimately show ?thesis
    using n by (auto simp: path_parent_def out snoc render_path_def butlast_append)
qed

lemma path_component_render:
  assumes "names_ok ns" "length (render_path ns) < cap" "n \<noteq> []" "slash_free n"
  shows "path_component cap (render_path ns) n =
    (if length (render_path (resolve_step ns n)) \<ge> cap then None else Some (render_path (resolve_step ns n)))"
proof -
  consider "n = ''.''" | "n = ''..''" | "n \<noteq> ''.''" "n \<noteq> ''..''" by blast
  then show ?thesis
  proof cases
    case 1
    then show ?thesis using assms by (simp add: path_component_def resolve_step_def)
  next
    case 2
    have "length (render_path (butlast ns)) \<le> length (render_path ns)"
      by (cases ns rule: rev_cases) (auto simp: render_path_def)
    with 2 show ?thesis
      using assms path_parent_render [OF assms(1)] by (simp add: path_component_def resolve_step_def)
  next
    case 3
    have long: "length (render_path ns) > 1 \<longleftrightarrow> ns \<noteq> []"
      using length_render [OF _ assms(1)] by (auto simp: render_path_def)
    have r: "render_path (ns @ [n]) = (if ns = [] then CHR ''/'' # n else render_path ns @ CHR ''/'' # n)"
      by (auto simp: render_path_def)
    have step: "resolve_step ns n = ns @ [n]" using 3 by (simp add: resolve_step_def)
    show ?thesis
    proof (cases "ns = []")
      case True
      with 3 assms(2,3) step show ?thesis by (auto simp: path_component_def render_path_def)
    next
      case False
      with long have "1 < length (render_path ns)" by simp
      with False 3 assms(2,3) show ?thesis
        unfolding step r path_component_def Let_def by auto
    qed
  qed
qed

lemma resolve_step_ok:
  "names_ok ns \<Longrightarrow> n \<noteq> [] \<Longrightarrow> slash_free n \<Longrightarrow> names_ok (resolve_step ns n)"
  by (auto simp: names_ok_def resolve_step_def dest: in_set_butlastD)

lemma path_loop_resolve:
  assumes "names_ok ns" "length (render_path ns) < cap"
  shows "path_loop cap (render_path ns) rest = map_option render_path (resolve_bounded cap ns (path_names rest))"
  using assms
proof (induction "length rest" arbitrary: ns rest rule: less_induct)
  case less
  define r1 where "r1 = dropWhile (\<lambda>c. c = CHR ''/'') rest"
  define n where "n = takeWhile (\<lambda>c. c \<noteq> CHR ''/'') r1"
  define r2 where "r2 = dropWhile (\<lambda>c. c \<noteq> CHR ''/'') r1"
  have hd: "r1 = [] \<or> hd r1 \<noteq> CHR ''/''" unfolding r1_def using hd_dropWhile by blast
  have names: "path_names rest = (if n = [] then [] else n # path_names r2)"
    using path_names_step [OF hd] path_names_dropWhile [of rest] unfolding Let_def n_def r2_def r1_def by simp
  have sf: "slash_free n" by (auto simp: n_def slash_free_def dest: set_takeWhileD)
  show ?case
  proof (cases "rest = []")
    case True
    then show ?thesis by (simp add: path_loop.simps path_names_def)
  next
    case False
    then have loop: "path_loop cap out rest =
        (case path_component cap out n of None \<Rightarrow> None | Some out' \<Rightarrow> path_loop cap out' r2)" for out
      unfolding n_def r2_def r1_def by (subst path_loop.simps) (simp only: Let_def if_False)
    have IH: "path_loop cap (render_path ms) r2 = map_option render_path (resolve_bounded cap ms (path_names r2))"
      if "names_ok ms" "length (render_path ms) < cap" for ms
      using less.hyps [OF path_rest_shorter [OF False] that] unfolding r2_def r1_def .
    show ?thesis
    proof (cases "n = []")
      case True
      then have "r2 = []" using hd by (cases r1) (auto simp: n_def r2_def)
      with True names loop show ?thesis
        by (simp add: path_component_def path_loop.simps [of _ _ "[]"])
    next
      case ne: False
      note pc = path_component_render [OF less.prems ne sf] and ok = resolve_step_ok [OF less.prems(1) ne sf]
      show ?thesis
        unfolding loop pc names using ne IH [OF ok] by (simp add: Let_def not_le)
    qed
  qed
qed

lemma canonicalize_eq:
  "canonicalize (Some d) (Some p) cap =
     (if p = [] \<or> cap < 2 then None
      else case path_combine d p of
             None \<Rightarrow> None
           | Some c \<Rightarrow> map_option render_path (resolve_bounded cap [] (path_names c)))"
proof -
  have "names_ok []" "render_path [] = ''/''" by (simp_all add: names_ok_def render_path_def)
  then show ?thesis
    using path_loop_resolve [of "[]" cap] by (auto simp: canonicalize_def split: option.split)
qed

lemma path_names_join: "path_names (d @ CHR ''/'' # p) = path_names d @ path_names p"
proof -
  have "split_slash (d @ CHR ''/'' # p) = split_slash d @ split_slash p"
    by (induction d) (auto split: list.split)
  then show ?thesis by (simp add: path_names_def)
qed

lemma path_names_join_slash:
  assumes "d \<noteq> []" "last d = CHR ''/''"
  shows "path_names (d @ p) = path_names d @ path_names p"
proof -
  from assms obtain d' where "d = d' @ [CHR ''/'']" by (metis append_butlast_last_id)
  then show ?thesis using path_names_join [of d' p] path_names_join [of d' "[]"]
    by (simp add: path_names_def)
qed

text \<open>
  C22: canonicalisation agrees with the reference on every input. The names to resolve are those of the
  path, behind those of the current directory unless the path starts with a slash; they are resolved from left to right,
  \<open>.\<close> being skipped and \<open>..\<close> removing the last name. The call fails exactly when the path is empty, the
  output has no room for the root, the text of the directory with its closing slash and of the path do not fit
  512 bytes with a NUL, or a resolved prefix does not fit the output buffer with its NUL.
\<close>

theorem canonicalize_resolves:
  "canonicalize (Some d) (Some p) cap =
     (let relative = (take 1 p \<noteq> ''/'');
          closing = (if d \<noteq> [] \<and> last d = CHR ''/'' then 0 else 1);
          size = (if relative then length d + closing else 0) + length p;
          names = (if relative then path_names d else []) @ path_names p
      in if p = [] \<or> cap < 2 \<or> 512 \<le> size then None
         else map_option render_path (resolve_bounded cap [] names))"
proof (cases "p = [] \<or> hd p \<noteq> CHR ''/''")
  case True
  then have "take 1 p \<noteq> ''/''" by (cases p) auto
  with True show ?thesis
    using path_names_join [of d p] path_names_join_slash [of d p]
    by (auto simp: canonicalize_eq path_combine_def Let_def)
next
  case False
  then have "take 1 p = ''/''" by (cases p) auto
  with False show ?thesis by (auto simp: canonicalize_eq path_combine_def Let_def)
qed

lemma split_slash_free: "n \<in> set (split_slash s) \<Longrightarrow> slash_free n"
  by (induction s arbitrary: n) (auto simp: slash_free_def split: list.splits if_splits)

lemma path_names_ok: "n \<in> set (path_names s) \<Longrightarrow> n \<noteq> [] \<and> slash_free n"
  using split_slash_free by (auto simp: path_names_def)

lemma path_names_concat: "names_ok ns \<Longrightarrow> path_names (concat (map (\<lambda>n. CHR ''/'' # n) ns)) = ns"
proof (induction ns)
  case (Cons n ns)
  then have n: "slash_free n" "n \<noteq> []" and ns: "names_ok ns" by (auto simp: names_ok_def)
  show ?case
  proof (cases ns)
    case Nil
    with n show ?thesis by (simp add: path_names_Cons_slash path_names_single)
  next
    case (Cons m ms)
    with Cons.IH [OF ns] n show ?thesis
      by (simp add: path_names_Cons_slash path_names_append)
  qed
qed (simp add: path_names_def)

lemma path_names_render: "names_ok ns \<Longrightarrow> path_names (render_path ns) = ns"
  by (auto simp: render_path_def path_names_concat) (simp add: path_names_def)

lemma render_path_mono: "length (render_path ms) \<le> length (render_path (ms @ ns))"
  by (auto simp: render_path_def) (cases ns; simp)

lemma resolve_bounded_names:
  "names_ok (ms @ ns) \<Longrightarrow> length (render_path (ms @ ns)) < cap \<Longrightarrow> resolve_bounded cap ms ns = Some (ms @ ns)"
proof (induction ns arbitrary: ms)
  case (Cons n ns)
  have "resolve_step ms n = ms @ [n]" using Cons.prems(1) by (auto simp: resolve_step_def names_ok_def)
  moreover have "length (render_path (ms @ [n])) < cap"
    using render_path_mono [of "ms @ [n]" ns] Cons.prems(2) by simp
  ultimately show ?case using Cons by (simp add: not_le)
qed simp

lemma resolve_bounded_ok:
  "resolve_bounded cap ns ms = Some out \<Longrightarrow> names_ok ns \<Longrightarrow> (\<And>m. m \<in> set ms \<Longrightarrow> m \<noteq> [] \<and> slash_free m) \<Longrightarrow>
   length (render_path ns) < cap \<Longrightarrow> names_ok out \<and> length (render_path out) < cap"
proof (induction ms arbitrary: ns)
  case (Cons m ms)
  have "m \<noteq> []" "slash_free m" using Cons.prems(3) by auto
  with Cons show ?case
    by (auto simp: Let_def not_le resolve_step_ok split: if_splits)
qed simp

text \<open>
  C23: a canonical path is absolute, fits the output buffer, contains no empty, \<open>.\<close> or \<open>..\<close> name, and is
  a fixed point: canonicalising it again, from any current directory, returns it unchanged.
\<close>

theorem canonicalize_idempotent:
  assumes "canonicalize (Some d) (Some p) cap = Some out" "cap \<le> path_combined_capacity"
  shows "hd out = CHR ''/'' \<and> length out < cap \<and>
    (\<forall>n \<in> set (path_names out). n \<noteq> ''.'' \<and> n \<noteq> ''..'') \<and> out = render_path (path_names out) \<and>
    canonicalize (Some e) (Some out) cap = Some out"
proof -
  from assms(1) have cap: "2 \<le> cap" by (auto simp: canonicalize_def split: if_splits)
  from assms(1) obtain c ns where ns: "resolve_bounded cap [] (path_names c) = Some ns" "out = render_path ns"
    by (auto simp: canonicalize_eq split: if_splits option.splits)
  have "names_ok []" "length (render_path []) < cap" using cap by (simp_all add: names_ok_def render_path_def)
  from resolve_bounded_ok [OF ns(1) this(1) path_names_ok this(2)]
  have ok: "names_ok ns" "length (render_path ns) < cap" by auto
  have names: "path_names out = ns" using path_names_render [OF ok(1)] ns(2) by simp
  have hd: "out \<noteq> []" "hd out = CHR ''/''" using ns(2) by (cases ns; simp add: render_path_def)+
  have "path_combine e out = Some out" using hd ok(2) assms(2) ns(2) by (simp add: path_combine_def)
  then have "canonicalize (Some e) (Some out) cap = Some out"
    using resolve_bounded_names [of "[]" ns cap] ok hd cap names ns(2) by (simp add: canonicalize_eq)
  with hd ok ns names show ?thesis by (auto simp: names_ok_def)
qed

theorem canonicalize_idempotent_witness:
  "canonicalize (Some ''/home'') (Some ''../etc//./x/..'') 256 = Some ''/etc'' \<and>
   canonicalize (Some ''/tmp'') (Some ''/etc'') 256 = Some ''/etc''"
proof -
  have *: "canonicalize (Some ''/home'') (Some ''../etc//./x/..'') 256 = Some ''/etc''" by code_simp
  show ?thesis using canonicalize_idempotent [OF *, of "''/tmp''"] * by simp
qed

end
