(* ===== verification/Runtime.thy ===== *)
theory Runtime
  imports Prelude
begin

text \<open>
  \<^verbatim>\<open>kernel/runtime.cpp\<close>: the freestanding memory functions and the 64-bit division the compiler
  calls. Memory is a map from 32-bit addresses to bytes, pointer arithmetic wraps, and a
  word access at address \<open>a\<close> touches the four bytes at \<open>a\<close> to \<open>a + 3\<close> in little-endian order. Loop
  counters are natural numbers obtained from the 32-bit size.
\<close>

unbundle bit_operations_syntax

type_synonym mem = "u32 \<Rightarrow> u8"

section \<open>Definitions\<close>

definition load32 :: "mem \<Rightarrow> u32 \<Rightarrow> u32" where
  "load32 m a = ucast (m a) OR push_bit 8 (ucast (m (a + 1))) OR push_bit 16 (ucast (m (a + 2))) OR
     push_bit 24 (ucast (m (a + 3)))"

definition store32 :: "mem \<Rightarrow> u32 \<Rightarrow> u32 \<Rightarrow> mem" where
  "store32 m a w = m(a := ucast w, a + 1 := ucast (drop_bit 8 w), a + 2 := ucast (drop_bit 16 w),
     a + 3 := ucast (drop_bit 24 w))"

fun copy_bytes :: "mem \<Rightarrow> u32 \<Rightarrow> u32 \<Rightarrow> nat \<Rightarrow> mem" where
  "copy_bytes m d s 0 = m"
| "copy_bytes m d s (Suc n) = copy_bytes (m(d := m s)) (d + 1) (s + 1) n"

definition copy_word :: "mem \<Rightarrow> u32 \<Rightarrow> u32 \<Rightarrow> nat \<Rightarrow> mem" where
  "copy_word m d s k = store32 m (d + of_nat (4 * k)) (load32 m (s + of_nat (4 * k)))"

definition copy_block :: "mem \<Rightarrow> u32 \<Rightarrow> u32 \<Rightarrow> mem" where
  "copy_block m d s = fold (\<lambda>k m. copy_word m d s k) [0, 1, 2, 3, 4, 5, 6, 7] m"

fun memcpy_blocks :: "mem \<Rightarrow> u32 \<Rightarrow> u32 \<Rightarrow> nat \<Rightarrow> mem \<times> u32 \<times> u32 \<times> nat" where
  "memcpy_blocks m d s n =
     (if 32 \<le> n then memcpy_blocks (copy_block m d s) (d + 32) (s + 32) (n - 32) else (m, d, s, n))"

fun memcpy_words :: "mem \<Rightarrow> u32 \<Rightarrow> u32 \<Rightarrow> nat \<Rightarrow> mem \<times> u32 \<times> u32 \<times> nat" where
  "memcpy_words m d s n =
     (if 4 \<le> n then memcpy_words (copy_word m d s 0) (d + 4) (s + 4) (n - 4) else (m, d, s, n))"

declare memcpy_blocks.simps [simp del] memcpy_words.simps [simp del]

definition memcpy :: "mem \<Rightarrow> u32 \<Rightarrow> u32 \<Rightarrow> u32 \<Rightarrow> mem" where
  "memcpy m d s sz =
     (if (d OR s) AND 3 = 0 then
        (let (m1, d1, s1, n1) = memcpy_blocks m d s (unat sz);
             (m2, d2, s2, n2) = memcpy_words m1 d1 s1 n1
         in copy_bytes m2 d2 s2 n2)
      else copy_bytes m d s (unat sz))"

definition memmove :: "mem \<Rightarrow> u32 \<Rightarrow> u32 \<Rightarrow> u32 \<Rightarrow> mem" where
  "memmove m d s sz =
     (if d < s then fold (\<lambda>i m. m(d + of_nat i := m (s + of_nat i))) [0..<unat sz] m
      else if d > s then fold (\<lambda>i m. m(d + of_nat i := m (s + of_nat i))) (rev [0..<unat sz]) m
      else m)"

fun memset_head :: "mem \<Rightarrow> u32 \<Rightarrow> u8 \<Rightarrow> nat \<Rightarrow> mem \<times> u32 \<times> nat" where
  "memset_head m d b 0 = (m, d, 0)"
| "memset_head m d b (Suc n) =
     (if d AND 3 \<noteq> 0 then memset_head (m(d := b)) (d + 1) b n else (m, d, Suc n))"

fun memset_words :: "mem \<Rightarrow> u32 \<Rightarrow> u32 \<Rightarrow> nat \<Rightarrow> mem \<times> u32 \<times> nat" where
  "memset_words m d w n = (if 4 \<le> n then memset_words (store32 m d w) (d + 4) w (n - 4) else (m, d, n))"

declare memset_words.simps [simp del]

fun memset_tail :: "mem \<Rightarrow> u32 \<Rightarrow> u8 \<Rightarrow> nat \<Rightarrow> mem" where
  "memset_tail m d b 0 = m"
| "memset_tail m d b (Suc n) = memset_tail (m(d := b)) (d + 1) b n"

definition memset :: "mem \<Rightarrow> u32 \<Rightarrow> u32 \<Rightarrow> u32 \<Rightarrow> mem" where
  "memset m d v sz =
     (let b = ucast v :: u8;
          (m1, d1, n1) = memset_head m d b (unat sz);
          (m2, d2, n2) = memset_words m1 d1 (ucast b * 0x01010101) n1
      in memset_tail m2 d2 b n2)"

text \<open>One iteration of \<open>divide_u64\<close> on \<open>(dividend, quotient, current)\<close>.\<close>

definition divide_step :: "u64 \<Rightarrow> u64 \<times> u64 \<times> u64 \<Rightarrow> u64 \<times> u64 \<times> u64" where
  "divide_step divisor st =
     (let (dividend, quotient, current) = st;
          current' = push_bit 1 current OR drop_bit 63 dividend;
          dividend' = push_bit 1 dividend;
          quotient' = push_bit 1 quotient
      in if current' \<ge> divisor then (dividend', quotient' OR 1, current' - divisor)
         else (dividend', quotient', current'))"

text \<open>A zero divisor stops the processor: the call does not return.\<close>

definition divide_u64 :: "u64 \<Rightarrow> u64 \<Rightarrow> (u64 \<times> u64) option" where
  "divide_u64 dividend divisor =
     (if divisor = 0 then None
      else let (_, quotient, current) = (divide_step divisor ^^ 64) (dividend, 0, 0)
           in Some (quotient, current))"

definition udivdi3 :: "u64 \<Rightarrow> u64 \<Rightarrow> u64 option" where
  "udivdi3 dividend divisor = map_option fst (divide_u64 dividend divisor)"

definition umoddi3 :: "u64 \<Rightarrow> u64 \<Rightarrow> u64 option" where
  "umoddi3 dividend divisor = map_option snd (divide_u64 dividend divisor)"

fun memcmp_loop :: "mem \<Rightarrow> u32 \<Rightarrow> u32 \<Rightarrow> nat \<Rightarrow> int" where
  "memcmp_loop m a b 0 = 0"
| "memcmp_loop m a b (Suc n) =
     (if m a \<noteq> m b then uint (m a) - uint (m b) else memcmp_loop m (a + 1) (b + 1) n)"

definition memcmp :: "mem \<Rightarrow> u32 \<Rightarrow> u32 \<Rightarrow> u32 \<Rightarrow> int" where
  "memcmp m a b sz = memcmp_loop m a b (unat sz)"

section \<open>Copying\<close>

text \<open>The specification: \<open>n\<close> bytes from \<open>s\<close> appear at \<open>d\<close>, everything else is unchanged.\<close>

definition copied :: "mem \<Rightarrow> u32 \<Rightarrow> u32 \<Rightarrow> nat \<Rightarrow> mem" where
  "copied m d s n = (\<lambda>a. if unat (a - d) < n then m (s + (a - d)) else m a)"

text \<open>No byte of the source is a byte of the destination.\<close>

definition apart :: "u32 \<Rightarrow> u32 \<Rightarrow> nat \<Rightarrow> bool" where
  "apart d s n \<longleftrightarrow> (\<forall>i < n. \<forall>j < n. d + of_nat i \<noteq> s + of_nat j)"

lemma of_nat_unat_u32 [simp]: "of_nat (unat (w :: u32)) = w"
  by simp

lemma apart_sub: "apart d s (k + n) \<Longrightarrow> apart (d + of_nat k) (s + of_nat k) n"
proof -
  assume a: "apart d s (k + n)"
  have "d + of_nat (k + i) \<noteq> s + of_nat (k + j)" if "i < n" "j < n" for i j
    using a that unfolding apart_def by (meson add_less_cancel_left)
  then show ?thesis by (simp add: apart_def add.assoc)
qed

lemma apart_mono: "apart d s n \<Longrightarrow> k \<le> n \<Longrightarrow> apart d s k"
  by (auto simp: apart_def)

lemma unat_diff_split:
  fixes a d :: u32
  assumes "k + n < 2 ^ 32"
  shows "unat (a - d) < k + n \<longleftrightarrow> unat (a - d) < k \<or> unat (a - (d + of_nat k)) < n"
proof -
  define x where "x = a - d"
  have eq: "a - (d + of_nat k) = x - of_nat k" by (simp add: x_def)
  have k: "unat (of_nat k :: u32) = k" using assms by (simp add: unat_of_nat_u32)
  have "unat x < k + n \<longleftrightarrow> unat x < k \<or> unat (x - of_nat k) < n"
  proof (cases "unat x < k")
    case False
    then have "of_nat k \<le> x" using k by (simp add: word_le_nat_alt)
    from unat_sub [OF this] k False show ?thesis by auto
  qed simp
  then show ?thesis by (simp add: eq x_def)
qed

lemma copied_add:
  assumes "apart d s (k + n)" "k + n < 2 ^ 32"
  shows "copied (copied m d s k) (d + of_nat k) (s + of_nat k) n = copied m d s (k + n)"
proof
  fix a
  have src: "copied m d s k (s + of_nat j) = m (s + of_nat j)" if "j < k + n" for j
  proof -
    have "\<not> unat (s + of_nat j - d) < k"
    proof
      assume "unat (s + of_nat j - d) < k"
      then have "d + of_nat (unat (s + of_nat j - d)) \<noteq> s + of_nat j"
        using assms(1) that unfolding apart_def by (meson trans_less_add1)
      then show False by simp
    qed
    then show ?thesis by (simp add: copied_def)
  qed
  show "copied (copied m d s k) (d + of_nat k) (s + of_nat k) n a = copied m d s (k + n) a"
  proof (cases "unat (a - (d + of_nat k)) < n")
    case True
    define j where "j = unat (a - (d + of_nat k))"
    have j: "j < n" "a - (d + of_nat k) = of_nat j" using True by (simp_all add: j_def)
    have "s + of_nat k + (a - (d + of_nat k)) = s + of_nat (k + j)" unfolding j(2) by simp
    moreover have "s + (a - d) = s + of_nat (k + j)" using j(2) by (simp add: algebra_simps)
    moreover have "unat (a - d) < k + n" using unat_diff_split [OF assms(2), of a d] True by simp
    ultimately have r: "copied m d s (k + n) a = m (s + of_nat (k + j))"
      and l: "copied (copied m d s k) (d + of_nat k) (s + of_nat k) n a = copied m d s k (s + of_nat (k + j))"
      using True by (simp_all add: copied_def [of m d s "k + n"] copied_def [of "copied m d s k"])
    show ?thesis unfolding l r using src [of "k + j"] j(1) by simp
  next
    case False
    then show ?thesis
      using unat_diff_split [OF assms(2), of a d] by (simp add: copied_def)
  qed
qed

lemma copied_0 [simp]: "copied m d s 0 = m"
  by (simp add: copied_def)

lemma copied_1: "copied m d s 1 = m(d := m s)"
proof
  fix a
  have "unat (a - d) < 1 \<longleftrightarrow> a = d" by (simp add: unat_eq_zero)
  then show "copied m d s 1 a = (m(d := m s)) a" by (auto simp: copied_def)
qed

lemma copy_bytes_copied: "apart d s n \<Longrightarrow> n < 2 ^ 32 \<Longrightarrow> copy_bytes m d s n = copied m d s n"
proof (induction n arbitrary: m d s)
  case (Suc n)
  have "apart (d + 1) (s + 1) n" using apart_sub [of d s 1 n] Suc.prems(1) by simp
  then have "copy_bytes m d s (Suc n) = copied (copied m d s 1) (d + 1) (s + 1) n"
    using Suc by (simp add: copied_1 [unfolded One_nat_def])
  also have "\<dots> = copied m d s (Suc n)"
    using copied_add [of d s 1 n m] Suc.prems by simp
  finally show ?case .
qed simp

lemma ucast_load32:
  "ucast (load32 m a) = m a" "ucast (drop_bit 8 (load32 m a)) = m (a + 1)"
  "ucast (drop_bit 16 (load32 m a)) = m (a + 2)" "ucast (drop_bit 24 (load32 m a)) = m (a + 3)"
  unfolding load32_def
  by (rule bit_word_eqI; auto simp: bit_simps dest: bit_imp_le_length)+

lemma copy_bytes_4:
  "copy_bytes m d s 4 = (let m1 = m(d := m s); m2 = m1(d + 1 := m1 (s + 1)); m3 = m2(d + 2 := m2 (s + 2))
     in m3(d + 3 := m3 (s + 3)))"
proof -
  have "copy_bytes m d s 4 = copy_bytes m d s (Suc (Suc (Suc (Suc 0))))" by (simp add: eval_nat_numeral)
  then show ?thesis by (simp add: Let_def add.assoc del: fun_upd_apply)
qed

lemma store32_load32:
  assumes "apart d s 4"
  shows "store32 m d (load32 m s) = copied m d s 4"
proof -
  have ne: "s + of_nat j \<noteq> d + of_nat i" if "i < 4" "j < 4" for i j
    using assms that unfolding apart_def by metis
  have "s + 1 \<noteq> d" "s + 2 \<noteq> d" "s + 3 \<noteq> d" "s + 2 \<noteq> d + 1" "s + 3 \<noteq> d + 1" "s + 3 \<noteq> d + 2"
    using ne [of 0 1] ne [of 0 2] ne [of 0 3] ne [of 1 2] ne [of 1 3] ne [of 2 3] by auto
  then have "store32 m d (load32 m s) = copy_bytes m d s 4"
    unfolding copy_bytes_4 Let_def store32_def ucast_load32 by simp
  then show ?thesis using copy_bytes_copied [OF assms] by simp
qed

lemma copy_word_copied:
  "apart (d + of_nat (4 * k)) (s + of_nat (4 * k)) 4 \<Longrightarrow>
   copy_word m d s k = copied m (d + of_nat (4 * k)) (s + of_nat (4 * k)) 4"
  unfolding copy_word_def by (rule store32_load32)

lemma copy_words_copied:
  "apart d s (4 * n) \<Longrightarrow> 4 * n < 2 ^ 32 \<Longrightarrow> fold (\<lambda>k m. copy_word m d s k) [0..<n] m = copied m d s (4 * n)"
proof (induction n)
  case (Suc n)
  have a: "apart d s (4 * n + 4)" using Suc.prems(1) by (simp add: add.commute)
  then have "apart (d + of_nat (4 * n)) (s + of_nat (4 * n)) 4" by (rule apart_sub)
  moreover have "fold (\<lambda>k m. copy_word m d s k) [0..<n] m = copied m d s (4 * n)"
    using Suc apart_mono [OF a, of "4 * n"] by simp
  ultimately show ?case
    using copied_add [OF a, of m] copy_word_copied Suc.prems(2) by (simp add: add.commute)
qed simp

lemma copy_block_copied: "apart d s 32 \<Longrightarrow> copy_block m d s = copied m d s 32"
proof -
  have eq: "[0, 1, 2, 3, 4, 5, 6, 7] = [0..<8 :: nat]" by (simp add: upt_rec)
  assume "apart d s 32"
  then show ?thesis unfolding copy_block_def eq using copy_words_copied [of d s 8 m] by simp
qed

lemma memcpy_blocks_copied:
  assumes "apart d s n" "n < 2 ^ 32" "memcpy_blocks m d s n = (m', d', s', n')"
  shows "\<exists>k. k + n' = n \<and> m' = copied m d s k \<and> d' = d + of_nat k \<and> s' = s + of_nat k"
  using assms
proof (induction m d s n arbitrary: m' d' s' n' rule: memcpy_blocks.induct)
  case (1 m d s n)
  show ?case
  proof (cases "32 \<le> n")
    case True
    have a: "apart d s (32 + (n - 32))" using 1(2) True by simp
    have ap: "apart (d + 32) (s + 32) (n - 32)" using apart_sub [OF a] by simp
    have lt: "n - 32 < 2 ^ 32" using 1(3) by linarith
    have eq: "memcpy_blocks (copy_block m d s) (d + 32) (s + 32) (n - 32) = (m', d', s', n')"
      using 1(4) True by (simp add: memcpy_blocks.simps [of m d s n])
    obtain k where k: "k + n' = n - 32" "m' = copied (copy_block m d s) (d + 32) (s + 32) k"
      "d' = d + 32 + of_nat k" "s' = s + 32 + of_nat k"
      using 1(1) [OF True ap lt eq] by blast
    have ak: "apart d s (32 + k)" using apart_mono [OF 1(2)] k(1) True by simp
    have "m' = copied m d s (32 + k)"
      using k(2) copy_block_copied [OF apart_mono [OF ak]] copied_add [OF ak, of m] k(1) True 1(3) by simp
    with k True show ?thesis by (intro exI [of _ "32 + k"]) simp
  next
    case False
    with 1(4) show ?thesis by (intro exI [of _ 0]) (simp add: memcpy_blocks.simps [of m d s n])
  qed
qed

lemma memcpy_words_copied:
  assumes "apart d s n" "n < 2 ^ 32" "memcpy_words m d s n = (m', d', s', n')"
  shows "\<exists>k. k + n' = n \<and> m' = copied m d s k \<and> d' = d + of_nat k \<and> s' = s + of_nat k"
  using assms
proof (induction m d s n arbitrary: m' d' s' n' rule: memcpy_words.induct)
  case (1 m d s n)
  show ?case
  proof (cases "4 \<le> n")
    case True
    have a: "apart d s (4 + (n - 4))" using 1(2) True by simp
    have ap: "apart (d + 4) (s + 4) (n - 4)" using apart_sub [OF a] by simp
    have lt: "n - 4 < 2 ^ 32" using 1(3) by linarith
    have eq: "memcpy_words (copy_word m d s 0) (d + 4) (s + 4) (n - 4) = (m', d', s', n')"
      using 1(4) True by (simp add: memcpy_words.simps [of m d s n])
    obtain k where k: "k + n' = n - 4" "m' = copied (copy_word m d s 0) (d + 4) (s + 4) k"
      "d' = d + 4 + of_nat k" "s' = s + 4 + of_nat k"
      using 1(1) [OF True ap lt eq] by blast
    have ak: "apart d s (4 + k)" using apart_mono [OF 1(2)] k(1) True by simp
    have "m' = copied m d s (4 + k)"
      using k(2) copy_word_copied [of d 0 s m] apart_mono [OF ak, of 4] copied_add [OF ak, of m] k(1) True 1(3) by simp
    with k True show ?thesis by (intro exI [of _ "4 + k"]) simp
  next
    case False
    with 1(4) show ?thesis by (intro exI [of _ 0]) (simp add: memcpy_words.simps [of m d s n])
  qed
qed

text \<open>
  C26: \<open>memcpy\<close> of regions that share no byte copies exactly the bytes asked for and nothing else,
  on the unrolled word path for aligned pointers as well as on the byte path.
\<close>

theorem memcpy_correct:
  assumes "apart d s (unat sz)"
  shows "memcpy m d s sz = copied m d s (unat sz)"
proof (cases "(d OR s) AND 3 = 0")
  case True
  have n: "unat sz < 2 ^ 32" by simp
  obtain m1 d1 s1 n1 where b: "memcpy_blocks m d s (unat sz) = (m1, d1, s1, n1)" by (metis prod_cases4)
  from memcpy_blocks_copied [OF assms n b] obtain k where k: "k + n1 = unat sz" "m1 = copied m d s k"
    "d1 = d + of_nat k" "s1 = s + of_nat k" by blast
  have a1: "apart d s (k + n1)" using assms k by simp
  then have ap1: "apart d1 s1 n1" using k apart_sub by blast
  obtain m2 d2 s2 n2 where w: "memcpy_words m1 d1 s1 n1 = (m2, d2, s2, n2)" by (metis prod_cases4)
  have n1: "n1 < 2 ^ 32" using k(1) n by linarith
  from memcpy_words_copied [OF ap1 n1 w] obtain j where j: "j + n2 = n1" "m2 = copied m1 d1 s1 j"
    "d2 = d1 + of_nat j" "s2 = s1 + of_nat j" by blast
  have "apart d2 s2 n2" using ap1 j apart_sub by metis
  then have "copy_bytes m2 d2 s2 n2 = copied m2 d2 s2 n2" using j(1) n1 by (intro copy_bytes_copied) auto
  also have "\<dots> = copied m1 d1 s1 n1" using copied_add [of d1 s1 j n2 m1] j ap1 n1 by simp
  also have "\<dots> = copied m d s (unat sz)" using copied_add [OF a1, of m] k n by simp
  finally show ?thesis using True b w by (simp add: memcpy_def)
next
  case False
  then show ?thesis using copy_bytes_copied [OF assms] by (simp add: memcpy_def)
qed

theorem memcpy_correct_witness:
  "memcpy (\<lambda>a. ucast a) 100 200 37 = copied (\<lambda>a. ucast a) 100 200 37 \<and>
   memcpy (\<lambda>a. ucast a) 100 200 37 136 = 236 \<and> memcpy (\<lambda>a. ucast a) 100 200 37 137 = 137"
proof -
  have "apart 100 200 (unat (37 :: u32))"
    unfolding apart_def
  proof (intro allI impI)
    fix i j :: nat
    assume "i < unat (37 :: u32)" "j < unat (37 :: u32)"
    then have "unat (100 + of_nat i :: u32) = 100 + i" "unat (200 + of_nat j :: u32) = 200 + j"
      by (simp_all add: unat_word_ariths unat_of_nat)
    moreover have "i < 100" using \<open>i < unat (37 :: u32)\<close> by simp
    ultimately show "(100 :: u32) + of_nat i \<noteq> 200 + of_nat j" by (auto dest: arg_cong [of _ _ unat])
  qed
  then show ?thesis using memcpy_correct [of 100 200 37 "\<lambda>a. ucast a"] by (simp add: copied_def)
qed

section \<open>Moving\<close>

definition copied_from :: "mem \<Rightarrow> u32 \<Rightarrow> u32 \<Rightarrow> nat \<Rightarrow> nat \<Rightarrow> mem" where
  "copied_from m d s k n = (\<lambda>a. if k \<le> unat (a - d) \<and> unat (a - d) < n then m (s + (a - d)) else m a)"

lemma copied_from_0: "copied_from m d s 0 n = copied m d s n"
  by (simp add: copied_from_def copied_def)

lemma unat_add_of_nat:
  "unat (x :: u32) + k < 2 ^ 32 \<Longrightarrow> unat (x + of_nat k) = unat x + k"
  by (subst unat_add_u32) (simp_all add: unat_of_nat_u32)

lemma move_forward:
  assumes "d < s" "unat s + n \<le> 2 ^ 32"
  shows "fold (\<lambda>i m. m(d + of_nat i := m (s + of_nat i))) [0..<n] m = copied m d s n"
  using assms(2)
proof (induction n)
  case (Suc n)
  let ?m = "copied m d s n"
  have ds: "unat d < unat s" using assms(1) by (simp add: word_less_nat_alt)
  have "unat (s + of_nat n - d) = unat s + n - unat d"
    using unat_add_of_nat [of s n] Suc.prems ds by (subst unat_sub) (auto simp: word_le_nat_alt)
  then have "\<not> unat (s + of_nat n - d) < n" using ds by simp
  then have src: "?m (s + of_nat n) = m (s + of_nat n)" by (simp add: copied_def)
  have "?m(d + of_nat n := m (s + of_nat n)) = copied m d s (Suc n)"
  proof
    fix a
    have "unat (a - d) = n \<longleftrightarrow> a = d + of_nat n"
    proof
      assume "unat (a - d) = n"
      then have "a - d = of_nat n" by (metis of_nat_unat_u32)
      then show "a = d + of_nat n" by (simp add: algebra_simps)
    next
      assume "a = d + of_nat n"
      then show "unat (a - d) = n" using Suc.prems by (simp add: unat_of_nat_u32)
    qed
    then show "(?m(d + of_nat n := m (s + of_nat n))) a = copied m d s (Suc n) a"
      by (auto simp: copied_def less_Suc_eq)
  qed
  moreover have "fold (\<lambda>i m. m(d + of_nat i := m (s + of_nat i))) [0..<n] m = ?m"
    using Suc by (simp del: fun_upd_apply)
  ultimately show ?case using src by (simp del: fun_upd_apply)
qed simp

lemma move_backward:
  assumes "s < d" "unat d + n \<le> 2 ^ 32" "j \<le> n"
  shows "fold (\<lambda>i m. m(d + of_nat i := m (s + of_nat i))) (rev [0..<j]) (copied_from m d s j n) = copied m d s n"
  using assms(3)
proof (induction j)
  case 0
  then show ?case by (simp add: copied_from_0)
next
  case (Suc j)
  let ?m = "copied_from m d s (Suc j) n"
  have ds: "unat s < unat d" using assms(1) by (simp add: word_less_nat_alt)
  have src: "?m (s + of_nat j) = m (s + of_nat j)"
  proof -
    have "\<not> (Suc j \<le> unat (s + of_nat j - d) \<and> unat (s + of_nat j - d) < n)"
    proof
      define x where "x = unat (s + of_nat j - d)"
      assume "Suc j \<le> unat (s + of_nat j - d) \<and> unat (s + of_nat j - d) < n"
      then have x: "Suc j \<le> x" "x < n" by (simp_all add: x_def)
      have "s + of_nat j = d + of_nat x" by (simp add: x_def)
      moreover have "unat (s + of_nat j) = unat s + j" "unat (d + of_nat x) = unat d + x"
        using x ds assms(2) by (auto intro!: unat_add_of_nat)
      ultimately show False using x ds by simp
    qed
    then show ?thesis unfolding copied_from_def by (simp only: if_False)
  qed
  have "?m(d + of_nat j := m (s + of_nat j)) = copied_from m d s j n"
  proof
    fix a
    have "unat (a - d) = j \<longleftrightarrow> a = d + of_nat j"
    proof
      assume "unat (a - d) = j"
      then have "a - d = of_nat j" by (metis of_nat_unat_u32)
      then show "a = d + of_nat j" by (simp add: algebra_simps)
    next
      assume "a = d + of_nat j"
      then show "unat (a - d) = j" using assms Suc.prems by (simp add: unat_of_nat_u32)
    qed
    then show "(?m(d + of_nat j := m (s + of_nat j))) a = copied_from m d s j n a"
      using Suc.prems by (auto simp: copied_from_def Suc_le_eq)
  qed
  with Suc src show ?case by (simp del: fun_upd_apply)
qed

text \<open>
  C27: \<open>memmove\<close> copies correctly for every pair of regions that do not run past the end of the
  address space, however they overlap.
\<close>

theorem memmove_correct:
  assumes "unat d + unat sz \<le> 2 ^ 32" "unat s + unat sz \<le> 2 ^ 32"
  shows "memmove m d s sz = copied m d s (unat sz)"
proof -
  consider "d < s" | "s < d" | "d = s" by (metis linorder_less_linear)
  then show ?thesis
  proof cases
    case 1
    then show ?thesis using move_forward [OF 1 assms(2)] by (simp add: memmove_def del: fun_upd_apply)
  next
    case 2
    have "copied_from m d s (unat sz) (unat sz) = m" by (rule ext) (auto simp: copied_from_def)
    then show ?thesis using 2 move_backward [OF 2 assms(1) order_refl, of m]
      by (simp add: memmove_def less_not_sym del: fun_upd_apply)
  next
    case 3
    then show ?thesis by (auto simp: memmove_def copied_def)
  qed
qed

theorem memmove_correct_witness:
  "memmove (\<lambda>a. ucast a) 10 12 5 = copied (\<lambda>a. ucast a) 10 12 5 \<and>
   map (memmove (\<lambda>a. ucast a) 12 10 5) [10, 11, 12, 13, 14, 15, 16, 17] = [10, 11, 10, 11, 12, 13, 14, 17]"
proof -
  have "memmove (\<lambda>a. ucast a) 12 10 5 = copied (\<lambda>a. ucast a) 12 10 5"
    using memmove_correct [of 12 5 10] by simp
  moreover have "map (copied (\<lambda>a. ucast a) 12 10 5) [10, 11, 12, 13, 14, 15, 16, 17] = [10, 11, 10, 11, 12, 13, 14, 17]"
    by (simp add: copied_def unsigned_minus_1_eq_mask mask_eq_exp_minus_1)
  ultimately show ?thesis using memmove_correct [of 10 5 12] by simp
qed


section \<open>Filling and comparing\<close>

definition filled :: "mem \<Rightarrow> u32 \<Rightarrow> u8 \<Rightarrow> nat \<Rightarrow> mem" where
  "filled m d b n = (\<lambda>a. if unat (a - d) < n then b else m a)"

lemma filled_0 [simp]: "filled m d b 0 = m"
  by (simp add: filled_def)

lemma filled_1: "filled m d b (Suc 0) = m(d := b)"
  by (rule ext) (simp add: filled_def unat_eq_zero)

lemma filled_add: "k + n < 2 ^ 32 \<Longrightarrow> filled (filled m d b k) (d + of_nat k) b n = filled m d b (k + n)"
  by (rule ext) (auto simp: filled_def unat_diff_split)

lemma memset_tail_filled: "n < 2 ^ 32 \<Longrightarrow> memset_tail m d b n = filled m d b n"
proof (induction n arbitrary: m d)
  case (Suc n)
  then show ?case using filled_add [of 1 n m d b] by (simp add: filled_1 del: fun_upd_apply)
qed simp

lemma memset_head_filled:
  "n < 2 ^ 32 \<Longrightarrow> memset_head m d b n = (m', d', n') \<Longrightarrow>
   \<exists>k. k + n' = n \<and> m' = filled m d b k \<and> d' = d + of_nat k"
proof (induction n arbitrary: m d)
  case (Suc n)
  show ?case
  proof (cases "d AND 3 \<noteq> 0")
    case True
    have "n < 2 ^ 32" "memset_head (m(d := b)) (d + 1) b n = (m', d', n')"
      using Suc.prems True by (simp_all del: fun_upd_apply)
    from Suc.IH [OF this] obtain k
      where "k + n' = n" "m' = filled (m(d := b)) (d + 1) b k" "d' = d + 1 + of_nat k" by blast
    then show ?thesis
      using filled_add [of 1 k m d b] Suc.prems(1) by (intro exI [of _ "Suc k"]) (simp add: filled_1 del: fun_upd_apply)
  next
    case False
    with Suc.prems show ?thesis by (intro exI [of _ 0]) simp
  qed
qed simp

lemma byte_splat:
  fixes b :: u8
  defines "w \<equiv> (ucast b :: u32) * 0x01010101"
  shows "ucast w = b" "ucast (drop_bit 8 w) = b" "ucast (drop_bit 16 w) = b" "ucast (drop_bit 24 w) = b"
proof -
  have b: "unat b < 256" using unat_less_exp [of b] by simp
  then have "unat b * 16843009 < 4294967296" by linarith
  then have "unat b mod 4294967296 * 16843009 mod 4294967296 = unat b * 16843009"
    by (simp add: less_trans [OF b])
  then have w: "unat w = unat b * 16843009"
    by (simp add: w_def unat_word_ariths unsigned_ucast_eq take_bit_eq_mod)
  have u: "unat (ucast x :: u8) = unat x mod 256" for x :: u32
    by (simp add: unsigned_ucast_eq take_bit_eq_mod)
  have dr: "unat (drop_bit k w) = unat w div 2 ^ k" for k
    by (simp only: unat_drop_bit_eq) (simp add: drop_bit_eq_div)
  have low: "(unat b + 256 * y) mod 256 = unat b" and high: "(unat b + 256 * y) div 256 = y" for y
    using b by simp_all
  have w0: "unat w = unat b + 256 * (unat b * 65793)" by (simp add: w)
  have w1: "unat w div 256 = unat b + 256 * (unat b * 257)" unfolding w0 high by simp
  have w2: "unat w div 256 div 256 = unat b + 256 * unat b" unfolding w1 high by simp
  have w3: "unat w div 256 div 256 div 256 = unat b + 256 * 0" unfolding w2 high by simp
  have d2: "unat w div 65536 = unat w div 256 div 256" by (simp flip: div_mult2_eq)
  have d3: "unat w div 16777216 = unat w div 256 div 256 div 256" by (simp flip: div_mult2_eq)
  have p: "(2 :: nat) ^ 8 = 256" "(2 :: nat) ^ 16 = 65536" "(2 :: nat) ^ 24 = 16777216" by simp_all
  show "ucast w = b" by (simp only: word_unat_eq_iff u w0 low)
  show "ucast (drop_bit 8 w) = b" by (simp only: word_unat_eq_iff u dr p w1 low)
  show "ucast (drop_bit 16 w) = b" by (simp only: word_unat_eq_iff u dr p d2 w2 low)
  show "ucast (drop_bit 24 w) = b" by (simp only: word_unat_eq_iff u dr p d3 w3 low)
qed

lemma store32_splat: "store32 m d (ucast b * 0x01010101) = filled m d b 4"
proof -
  have "filled m d b 4 = memset_tail m d b 4" by (simp add: memset_tail_filled)
  also have "\<dots> = memset_tail m d b (Suc (Suc (Suc (Suc 0))))" by (simp add: eval_nat_numeral)
  also have "\<dots> = store32 m d (ucast b * 0x01010101)"
    unfolding store32_def byte_splat by (simp add: add.assoc)
  finally show ?thesis by simp
qed

lemma memset_words_filled:
  assumes "n < 2 ^ 32" "memset_words m d (ucast b * 0x01010101) n = (m', d', n')"
  shows "\<exists>k. k + n' = n \<and> m' = filled m d b k \<and> d' = d + of_nat k"
  using assms
proof (induction n arbitrary: m d rule: less_induct)
  case (less n)
  show ?case
  proof (cases "4 \<le> n")
    case True
    have "n - 4 < n" "n - 4 < 2 ^ 32"
      "memset_words (filled m d b 4) (d + 4) (ucast b * 0x01010101) (n - 4) = (m', d', n')"
      using less.prems True by (simp_all add: memset_words.simps [of m d _ n] store32_splat)
    from less.IH [OF this] obtain k where "k + n' = n - 4" "m' = filled (filled m d b 4) (d + 4) b k" "d' = d + 4 + of_nat k"
      by blast
    then show ?thesis
      using filled_add [of 4 k m d b] less.prems(1) True by (intro exI [of _ "4 + k"]) simp
  next
    case False
    with less.prems show ?thesis by (intro exI [of _ 0]) (simp add: memset_words.simps [of m d _ n])
  qed
qed

text \<open>
  C28: \<open>memset\<close> stores the low byte of its argument in exactly the bytes of the region, through its
  unaligned head, its word loop and its tail, for every address and size.
\<close>

theorem memset_correct: "memset m d v sz = filled m d (ucast v) (unat sz)"
proof -
  let ?b = "ucast v :: u8"
  obtain m1 d1 n1 where h: "memset_head m d ?b (unat sz) = (m1, d1, n1)" by (metis prod_cases3)
  have n: "unat sz < 2 ^ 32" by simp
  from memset_head_filled [OF n h] obtain k where k: "k + n1 = unat sz" "m1 = filled m d ?b k" "d1 = d + of_nat k"
    by blast
  have n1: "n1 < 2 ^ 32" using k(1) n by linarith
  obtain m2 d2 n2 where w: "memset_words m1 d1 (ucast ?b * 0x01010101) n1 = (m2, d2, n2)" by (metis prod_cases3)
  from memset_words_filled [OF n1 w] obtain j where j: "j + n2 = n1" "m2 = filled m1 d1 ?b j" "d2 = d1 + of_nat j"
    by blast
  have "memset_tail m2 d2 ?b n2 = filled m2 d2 ?b n2" using j(1) n1 by (intro memset_tail_filled) linarith
  also have "\<dots> = filled m1 d1 ?b n1" using filled_add [of j n2 m1 d1 ?b] j n1 by simp
  also have "\<dots> = filled m d ?b (unat sz)" using filled_add [of k n1 m d ?b] k n by simp
  finally show ?thesis using h w by (simp add: memset_def)
qed

lemma memcmp_loop_zero: "memcmp_loop m a b n = 0 \<longleftrightarrow> (\<forall>i < n. m (a + of_nat i) = m (b + of_nat i))"
proof (induction n arbitrary: a b)
  case (Suc n)
  have "(\<forall>i < Suc n. m (a + of_nat i) = m (b + of_nat i)) \<longleftrightarrow>
      m a = m b \<and> (\<forall>i < n. m (a + 1 + of_nat i) = m (b + 1 + of_nat i))"
    by (auto simp: All_less_Suc2 add.assoc)
  with Suc.IH [of "a + 1" "b + 1"] show ?case by (simp add: word_uint_eq_iff)
qed simp


lemma memcmp_loop_first:
  "j < n \<Longrightarrow> \<forall>i < j. m (a + of_nat i) = m (b + of_nat i) \<Longrightarrow> m (a + of_nat j) \<noteq> m (b + of_nat j) \<Longrightarrow>
   memcmp_loop m a b n = uint (m (a + of_nat j)) - uint (m (b + of_nat j))"
proof (induction n arbitrary: a b j)
  case (Suc n)
  show ?case
  proof (cases j)
    case 0
    with Suc.prems show ?thesis by simp
  next
    case (Suc k)
    have "m a = m b" using Suc.prems(2) \<open>j = Suc k\<close> by (auto dest: spec [of _ 0])
    moreover have "\<forall>i < k. m (a + 1 + of_nat i) = m (b + 1 + of_nat i)"
      using Suc.prems(2) \<open>j = Suc k\<close> by (auto simp: All_less_Suc2 add.assoc)
    ultimately show ?thesis
      using Suc.IH [of k "a + 1" "b + 1"] Suc.prems \<open>j = Suc k\<close> by (simp add: add.assoc)
  qed
qed simp

text \<open>
  C29: \<open>memcmp\<close> returns zero exactly when the two regions hold the same bytes; if \<open>j\<close> is the first
  position where they differ, it returns the difference of the bytes there.
\<close>

theorem memcmp_correct:
  "(memcmp m a b sz = 0 \<longleftrightarrow> (\<forall>i < unat sz. m (a + of_nat i) = m (b + of_nat i))) \<and>
   (j < unat sz \<and> (\<forall>i < j. m (a + of_nat i) = m (b + of_nat i)) \<and> m (a + of_nat j) \<noteq> m (b + of_nat j) \<longrightarrow>
     memcmp m a b sz = uint (m (a + of_nat j)) - uint (m (b + of_nat j)))"
  using memcmp_loop_zero memcmp_loop_first unfolding memcmp_def by blast

theorem memcmp_correct_witness:
  "memcmp (\<lambda>a. if a = 12 then 200 else 7) 10 20 4 = 193"
proof -
  have "\<forall>i < 2. (if 10 + of_nat i = (12 :: u32) then 200 else 7 :: u8) = (if 20 + of_nat i = (12 :: u32) then 200 else 7)"
    by (auto dest!: less_2_cases)
  then show ?thesis using memcmp_correct [of "\<lambda>a. if a = 12 then 200 else 7" 10 20 4 2] by simp
qed

section \<open>Division\<close>

text \<open>After \<open>i\<close> iterations: the quotient and remainder of the top \<open>i\<close> bits of the dividend.\<close>

definition division_state :: "u64 \<Rightarrow> u64 \<Rightarrow> nat \<Rightarrow> u64 \<times> u64 \<times> u64 \<Rightarrow> bool" where
  "division_state n v i st \<longleftrightarrow>
     (let (dividend, quotient, current) = st; p = unat n div 2 ^ (64 - i)
      in unat dividend = unat n * 2 ^ i mod 2 ^ 64 \<and>
         unat quotient = p div unat v \<and> unat current = p mod unat v)"

lemma unat_u64_less: "unat (x :: u64) < 18446744073709551616"
  using unat_less_exp [of x] by simp

lemma unat_shift_in:
  fixes x b :: u64
  assumes "2 * unat x + unat b < 18446744073709551616" "unat b \<le> 1"
  shows "unat (push_bit 1 x OR b) = 2 * unat x + unat b"
proof -
  have "push_bit 1 x AND b = 0"
  proof (rule bit_word_eqI)
    fix k assume k: "k < LENGTH(64)"
    have "b = 0 \<or> b = 1" using assms(2) by (auto simp: word_unat_eq_iff le_Suc_eq)
    then show "bit (push_bit 1 x AND b) k \<longleftrightarrow> bit (0 :: u64) k"
      by (auto simp: bit_and_iff bit_1_iff bit_0)
  qed
  then have "push_bit 1 x OR b = push_bit 1 x + b" by (simp only: disjunctive_add_eq_or)
  moreover have "push_bit 1 x = 2 * x" by (simp add: push_bit_eq_mult)
  moreover have "unat (2 * x + b) = 2 * unat x + unat b"
    using assms(1) by (simp add: unat_word_ariths mod_add_left_eq)
  ultimately show ?thesis by (simp only:)
qed


lemma next_bit:
  fixes n :: nat
  assumes "i < 64"
  shows "n div 2 ^ (63 - i) = 2 * (n div 2 ^ (64 - i)) + n * 2 ^ i mod 2 ^ 64 div 2 ^ 63"
    and "n * 2 ^ i mod 2 ^ 64 div 2 ^ 63 \<le> 1"
proof -
  define k where "k = 63 - i"
  have k: "64 - i = Suc k" "63 = i + k" "64 = i + Suc k" using assms by (simp_all add: k_def)
  have "n * 2 ^ i mod 2 ^ 64 = 2 ^ i * (n mod 2 ^ Suc k)"
    by (simp only: k(3) power_add mult_mod_right mult.commute [of n])
  then have b: "n * 2 ^ i mod 2 ^ 64 div 2 ^ 63 = n mod 2 ^ Suc k div 2 ^ k"
    by (simp only: k(2) power_add div_mult2_eq) simp
  have m: "n mod 2 ^ Suc k = 2 ^ k * (n div 2 ^ k mod 2) + n mod 2 ^ k"
    using mod_mult2_eq [of n "2 ^ k" 2] by (simp add: mult.commute)
  have "n mod 2 ^ Suc k div 2 ^ k = n div 2 ^ k mod 2" unfolding m by simp
  moreover have "n div 2 ^ Suc k = n div 2 ^ k div 2" by (simp flip: div_mult2_eq add: mult.commute)
  ultimately show "n div 2 ^ (63 - i) = 2 * (n div 2 ^ (64 - i)) + n * 2 ^ i mod 2 ^ 64 div 2 ^ 63"
    "n * 2 ^ i mod 2 ^ 64 div 2 ^ 63 \<le> 1"
    unfolding b k(1) k_def [symmetric] by simp_all
qed

lemma quotient_bit:
  fixes p b v :: nat
  assumes "0 < v" "b \<le> 1"
  shows "(2 * p + b) div v = 2 * (p div v) + (if v \<le> 2 * (p mod v) + b then 1 else 0)"
    and "(2 * p + b) mod v = 2 * (p mod v) + b - (if v \<le> 2 * (p mod v) + b then v else 0)"
proof -
  define c where "c = 2 * (p mod v) + b"
  have "v * (2 * (p div v)) = 2 * (v * (p div v))" by simp
  then have "2 * p + b = c + v * (2 * (p div v))"
    using mult_div_mod_eq [of v p] unfolding c_def by linarith
  then have e: "(2 * p + b) div v = 2 * (p div v) + c div v" "(2 * p + b) mod v = c mod v"
    using assms(1) by simp_all
  have "p mod v < v" using assms(1) by simp
  then have "c < 2 * v" using assms(2) by (simp add: c_def)
  then have "c div v = (if v \<le> c then 1 else 0)" "c mod v = c - (if v \<le> c then v else 0)"
    using assms(1) le_div_geq [of v c] by (simp_all add: le_mod_geq)
  with e show "(2 * p + b) div v = 2 * (p div v) + (if v \<le> 2 * (p mod v) + b then 1 else 0)"
    "(2 * p + b) mod v = 2 * (p mod v) + b - (if v \<le> 2 * (p mod v) + b then v else 0)"
    by (simp_all add: c_def)
qed

lemma division_step:
  assumes v: "v \<noteq> 0" and i: "i < 64" and st: "division_state n v i st"
  shows "division_state n v (Suc i) (divide_step v st)"
proof -
  obtain d q c where [simp]: "st = (d, q, c)" by (cases st)
  define p where "p = unat n div 2 ^ (64 - i)"
  define b where "b = (drop_bit 63 d :: u64)"
  have pow: "(2 :: nat) ^ 64 = 2 ^ i * 2 ^ (64 - i)" using i by (simp flip: power_add)
  have d: "unat d = unat n * 2 ^ i mod 2 ^ 64" and q: "unat q = p div unat v" and c: "unat c = p mod unat v"
    using st by (simp_all add: division_state_def p_def Let_def)
  have p': "unat n div 2 ^ (63 - i) = 2 * p + unat b" and b1: "unat b \<le> 1"
    using next_bit [OF i, of "unat n"] by (simp_all add: b_def p_def d unat_drop_bit_eq drop_bit_nat_def)
  have "unat n div 2 ^ (63 - i) \<le> unat n" by (rule div_le_dividend)
  then have p64: "2 * p + unat b < 18446744073709551616" using unat_u64_less [of n] unfolding p' by linarith
  have v0: "0 < unat v" using v by (simp add: unat_gt_0)
  have "unat c \<le> p" "unat q \<le> p" using c q by (simp_all add: div_le_dividend)
  define c1 q0 q1 d1 where "c1 = push_bit 1 c OR b" and "q0 = push_bit 1 q" and "q1 = q0 OR 1" and "d1 = push_bit 1 d"
  note defs = c1_def q0_def q1_def d1_def
  have step: "divide_step v st = (if v \<le> c1 then (d1, q1, c1 - v) else (d1, q0, c1))"
    unfolding defs b_def divide_step_def \<open>st = _\<close> by (simp only: Let_def prod.case)
  have c1: "unat c1 = 2 * (p mod unat v) + unat b"
  proof -
    have "2 * unat c + unat b < 18446744073709551616" using p64 \<open>unat c \<le> p\<close> by linarith
    then show ?thesis unfolding defs c [symmetric] using b1 by (rule unat_shift_in)
  qed
  have q0: "unat q0 = 2 * (p div unat v)"
  proof -
    have "2 * unat q < 18446744073709551616" using p64 \<open>unat q \<le> p\<close> by linarith
    then show ?thesis unfolding defs q [symmetric] using unat_shift_in [of q 0] by simp
  qed
  have q1: "unat q1 = 2 * (p div unat v) + 1" if "v \<le> c1"
  proof -
    have "2 * (p div unat v) + 1 \<le> (2 * p + unat b) div unat v"
      using quotient_bit(1) [OF v0 b1, of p] that by (simp add: word_le_nat_alt c1)
    also have "\<dots> \<le> 2 * p + unat b" by (rule div_le_dividend)
    finally show ?thesis unfolding defs using p64 unat_shift_in [of q 1] by (simp add: q)
  qed
  have d1: "unat d1 = unat n * 2 ^ Suc i mod 2 ^ 64"
    by (simp add: d1_def push_bit_eq_mult unat_word_ariths d mod_mult_left_eq mult.assoc mult.commute [of 2])
  show ?thesis
  proof (cases "v \<le> c1")
    case True
    then show ?thesis
      using d1 q1 quotient_bit [OF v0 b1, of p]
      unfolding step by (simp add: division_state_def p' word_le_nat_alt c1 unat_sub Let_def)
  next
    case False
    then show ?thesis
      using d1 q0 quotient_bit [OF v0 b1, of p]
      unfolding step by (simp add: division_state_def p' word_le_nat_alt c1 Let_def)
  qed
qed

lemma divide_u64_correct:
  assumes "v \<noteq> 0"
  shows "divide_u64 n v = Some (n div v, n mod v)"
proof -
  have "i \<le> 64 \<Longrightarrow> division_state n v i ((divide_step v ^^ i) (n, 0, 0))" for i
  proof (induction i)
    case 0
    have "unat n div 18446744073709551616 = 0" using unat_u64_less [of n] by simp
    then show ?case using unat_u64_less [of n] by (simp add: division_state_def Let_def)
  next
    case (Suc i)
    then show ?case using division_step [OF assms, of i n] by simp
  qed
  then have "division_state n v 64 ((divide_step v ^^ 64) (n, 0, 0))" by simp
  then show ?thesis
    using assms
    by (auto simp: divide_u64_def division_state_def Let_def word_unat_eq_iff unat_div unat_mod split: prod.splits)
qed

text \<open>
  C25: \<open>__udivdi3\<close> and \<open>__umoddi3\<close> return the quotient and the remainder of the 64-bit division
  for every dividend and every nonzero divisor (the shifted partial remainder never overflows,
  even for divisors above \<open>2 ^ 63\<close>); with divisor zero neither returns.
\<close>

theorem division_correct:
  "udivdi3 n v = (if v = 0 then None else Some (n div v)) \<and> umoddi3 n v = (if v = 0 then None else Some (n mod v))"
proof (cases "v = 0")
  case True
  then show ?thesis by (simp add: udivdi3_def umoddi3_def divide_u64_def)
next
  case False
  then show ?thesis by (simp add: udivdi3_def umoddi3_def divide_u64_correct)
qed

end
