(* ===== verification/Ethernet.thy ===== *)
theory Ethernet
  imports Prelude
begin

text \<open>
  \<^verbatim>\<open>include/mikos/net/ethernet.hpp\<close>: Ethernet, ARP, IPv4 and ICMP headers, the internet
  checksum, and the in-place ARP and echo replies.

  A frame is the list of its bytes. A packed struct laid over a byte pointer is a record together with
  a decoder and an encoder: a 16- or 32-bit field is the little-endian word at its offset, as the
  processor reads it, so the network byte order is visible in \<open>net16\<close> and \<open>net32\<close>. A write
  through the struct is the encoding of the updated record in front of the bytes behind it.
\<close>

unbundle bit_operations_syntax

section \<open>Definitions\<close>

type_synonym mac_address = "u8 list"
type_synonym ipv4_address = "u8 list"

definition net16 :: "u16 \<Rightarrow> u16" where
  "net16 v = push_bit 8 v OR drop_bit 8 v"

definition le16 :: "u8 \<Rightarrow> u8 \<Rightarrow> u16" where
  "le16 a b = ucast a OR push_bit 8 (ucast b)"

definition put16 :: "u16 \<Rightarrow> u8 list" where
  "put16 w = [ucast w, ucast (drop_bit 8 w)]"

record ethernet_header =
  eth_destination :: mac_address
  eth_source :: mac_address
  eth_type :: u16

record arp_ipv4 =
  arp_ethernet :: ethernet_header
  arp_hardware_type :: u16
  arp_protocol_type :: u16
  arp_hardware_size :: u8
  arp_protocol_size :: u8
  arp_operation :: u16
  arp_sender_mac :: mac_address
  arp_sender_ip :: ipv4_address
  arp_target_mac :: mac_address
  arp_target_ip :: ipv4_address

record ipv4_header =
  ip_version_ihl :: u8
  ip_dscp_ecn :: u8
  ip_total_length :: u16
  ip_identification :: u16
  ip_flags_fragment :: u16
  ip_ttl :: u8
  ip_protocol :: u8
  ip_checksum :: u16
  ip_source :: ipv4_address
  ip_destination :: ipv4_address

record icmp_echo_header =
  icmp_type :: u8
  icmp_code :: u8
  icmp_checksum :: u16
  icmp_identifier :: u16
  icmp_sequence :: u16

definition decode_ethernet :: "u8 list \<Rightarrow> ethernet_header" where
  "decode_ethernet bs = \<lparr>eth_destination = take 6 bs, eth_source = take 6 (drop 6 bs),
     eth_type = le16 (bs ! 12) (bs ! 13)\<rparr>"

definition encode_ethernet :: "ethernet_header \<Rightarrow> u8 list" where
  "encode_ethernet h = eth_destination h @ eth_source h @ put16 (eth_type h)"

definition decode_arp :: "u8 list \<Rightarrow> arp_ipv4" where
  "decode_arp bs = \<lparr>arp_ethernet = decode_ethernet bs,
     arp_hardware_type = le16 (bs ! 14) (bs ! 15), arp_protocol_type = le16 (bs ! 16) (bs ! 17),
     arp_hardware_size = bs ! 18, arp_protocol_size = bs ! 19, arp_operation = le16 (bs ! 20) (bs ! 21),
     arp_sender_mac = take 6 (drop 22 bs), arp_sender_ip = take 4 (drop 28 bs),
     arp_target_mac = take 6 (drop 32 bs), arp_target_ip = take 4 (drop 38 bs)\<rparr>"

definition encode_arp :: "arp_ipv4 \<Rightarrow> u8 list" where
  "encode_arp h = encode_ethernet (arp_ethernet h) @ put16 (arp_hardware_type h) @ put16 (arp_protocol_type h) @
     [arp_hardware_size h, arp_protocol_size h] @ put16 (arp_operation h) @
     arp_sender_mac h @ arp_sender_ip h @ arp_target_mac h @ arp_target_ip h"

definition decode_ipv4 :: "u8 list \<Rightarrow> ipv4_header" where
  "decode_ipv4 bs = \<lparr>ip_version_ihl = bs ! 0, ip_dscp_ecn = bs ! 1,
     ip_total_length = le16 (bs ! 2) (bs ! 3), ip_identification = le16 (bs ! 4) (bs ! 5),
     ip_flags_fragment = le16 (bs ! 6) (bs ! 7), ip_ttl = bs ! 8, ip_protocol = bs ! 9,
     ip_checksum = le16 (bs ! 10) (bs ! 11), ip_source = take 4 (drop 12 bs), ip_destination = take 4 (drop 16 bs)\<rparr>"

definition encode_ipv4 :: "ipv4_header \<Rightarrow> u8 list" where
  "encode_ipv4 h = [ip_version_ihl h, ip_dscp_ecn h] @ put16 (ip_total_length h) @ put16 (ip_identification h) @
     put16 (ip_flags_fragment h) @ [ip_ttl h, ip_protocol h] @ put16 (ip_checksum h) @ ip_source h @ ip_destination h"

definition decode_icmp :: "u8 list \<Rightarrow> icmp_echo_header" where
  "decode_icmp bs = \<lparr>icmp_type = bs ! 0, icmp_code = bs ! 1, icmp_checksum = le16 (bs ! 2) (bs ! 3),
     icmp_identifier = le16 (bs ! 4) (bs ! 5), icmp_sequence = le16 (bs ! 6) (bs ! 7)\<rparr>"

definition encode_icmp :: "icmp_echo_header \<Rightarrow> u8 list" where
  "encode_icmp h = [icmp_type h, icmp_code h] @ put16 (icmp_checksum h) @ put16 (icmp_identifier h) @
     put16 (icmp_sequence h)"

text \<open>The summing loop shared by \<open>internet_checksum\<close> and \<open>checksum_add\<close>, and the folding loop.\<close>

fun checksum_add :: "u32 \<Rightarrow> u8 list \<Rightarrow> u32" where
  "checksum_add acc (a # b # bytes) =
     checksum_add (acc + ucast (push_bit 8 (ucast a) OR ucast b :: u16)) bytes"
| "checksum_add acc [a] = acc + ucast (push_bit 8 (ucast a) :: u16)"
| "checksum_add acc [] = acc"

lemma checksum_fold_decreases:
  assumes "drop_bit 16 s \<noteq> (0 :: u32)"
  shows "unat ((s AND 0xffff) + drop_bit 16 s) = unat s mod 65536 + unat s div 65536"
    and "unat ((s AND 0xffff) + drop_bit 16 s) < unat s"
proof -
  have d: "unat (drop_bit 16 s) = unat s div 65536"
    by (simp only: unat_drop_bit_eq) (simp add: drop_bit_eq_div)
  have "(0xffff :: u32) = mask 16" by (simp add: mask_eq_exp_minus_1)
  then have m: "unat (s AND 0xffff) = unat s mod 65536"
    using and_mask_unat [of s 16] by simp
  have "unat s div 65536 < 65536" using unat_u32_less [of s] by (simp add: div_less_iff_less_mult)
  moreover have "unat s mod 65536 < 65536" by simp
  ultimately show e: "unat ((s AND 0xffff) + drop_bit 16 s) = unat s mod 65536 + unat s div 65536"
    unfolding m [symmetric] d [symmetric] by (intro unat_add_u32) simp
  have "0 < unat s div 65536" using assms d by (metis neq0_conv unat_eq_zero)
  moreover have "unat s = 65536 * (unat s div 65536) + unat s mod 65536" by simp
  ultimately show "unat ((s AND 0xffff) + drop_bit 16 s) < unat s" unfolding e by linarith
qed

function checksum_fold :: "u32 \<Rightarrow> u32" where
  "checksum_fold acc =
     (if drop_bit 16 acc \<noteq> 0 then checksum_fold ((acc AND 0xffff) + drop_bit 16 acc) else acc)"
  by pat_completeness auto
termination
  by (relation "measure unat") (use checksum_fold_decreases(2) in auto)

declare checksum_fold.simps [simp del]

definition checksum_finish :: "u32 \<Rightarrow> u16" where
  "checksum_finish acc = ucast (NOT (checksum_fold acc))"

definition internet_checksum :: "u8 list \<Rightarrow> u16" where
  "internet_checksum bytes = ucast (NOT (checksum_fold (checksum_add 0 bytes)))"

text \<open>The replies return the frame after the call and the size to transmit, zero for no reply.\<close>

definition make_arp_reply :: "u8 list \<Rightarrow> mac_address \<Rightarrow> ipv4_address \<Rightarrow> u8 list \<times> nat" where
  "make_arp_reply bytes local_mac local_ip =
     (if length bytes < 42 then (bytes, 0)
      else let packet = decode_arp bytes
           in if eth_type (arp_ethernet packet) \<noteq> net16 0x0806 \<or> arp_hardware_type packet \<noteq> net16 1 \<or>
                 arp_protocol_type packet \<noteq> net16 0x0800 \<or> arp_hardware_size packet \<noteq> 6 \<or>
                 arp_protocol_size packet \<noteq> 4 \<or> arp_operation packet \<noteq> net16 1
              then (bytes, 0)
              else if arp_target_ip packet \<noteq> local_ip then (bytes, 0)
              else let requester_mac = arp_sender_mac packet;
                       requester_ip = arp_sender_ip packet;
                       reply = packet\<lparr>arp_ethernet := (arp_ethernet packet)\<lparr>eth_destination := requester_mac,
                                   eth_source := local_mac\<rparr>,
                                 arp_operation := net16 2, arp_target_mac := requester_mac,
                                 arp_target_ip := requester_ip, arp_sender_mac := local_mac,
                                 arp_sender_ip := local_ip\<rparr>
                   in (encode_arp reply @ drop 42 bytes, 42))"

definition make_icmp_echo_reply :: "u8 list \<Rightarrow> mac_address \<Rightarrow> ipv4_address \<Rightarrow> u8 list \<times> nat" where
  "make_icmp_echo_reply bytes local_mac local_ip =
     (if length bytes < 42 then (bytes, 0)
      else let ethernet = decode_ethernet bytes; ip = decode_ipv4 (drop 14 bytes)
           in if eth_type ethernet \<noteq> net16 0x0800 \<or> ip_version_ihl ip \<noteq> 0x45 \<or> ip_protocol ip \<noteq> 1 \<or>
                 internet_checksum (take 20 (drop 14 bytes)) \<noteq> 0
              then (bytes, 0)
              else if ip_destination ip \<noteq> local_ip then (bytes, 0)
              else let ip_size = unat (net16 (ip_total_length ip))
                   in if ip_size < 28 \<or> ip_size > length bytes - 14 then (bytes, 0)
                      else let icmp_bytes = take (ip_size - 20) (drop 34 bytes); icmp = decode_icmp icmp_bytes
                           in if icmp_type icmp \<noteq> 8 \<or> icmp_code icmp \<noteq> 0 \<or> internet_checksum icmp_bytes \<noteq> 0
                              then (bytes, 0)
                              else let ethernet1 = ethernet\<lparr>eth_destination := eth_source ethernet, eth_source := local_mac\<rparr>;
                                       ip1 = ip\<lparr>ip_destination := ip_source ip, ip_source := local_ip, ip_ttl := 64, ip_checksum := 0\<rparr>;
                                       ip2 = ip1\<lparr>ip_checksum := net16 (internet_checksum (encode_ipv4 ip1))\<rparr>;
                                       icmp1 = icmp\<lparr>icmp_type := 0, icmp_checksum := 0\<rparr>;
                                       icmp2 = icmp1\<lparr>icmp_checksum := net16 (internet_checksum (encode_icmp icmp1 @ drop 8 icmp_bytes))\<rparr>
                                   in (encode_ethernet ethernet1 @ encode_ipv4 ip2 @ encode_icmp icmp2 @
                                         drop 8 icmp_bytes @ drop (14 + ip_size) bytes,
                                       14 + ip_size))"

section \<open>Byte order\<close>

lemma bit_u16_le: "bit (w :: u16) k \<Longrightarrow> k < 16"
  using bit_imp_le_length [of w k] by simp

lemma bit_u8_le: "bit (w :: u8) k \<Longrightarrow> k < 8"
  using bit_imp_le_length [of w k] by simp

lemma net16_net16 [simp]: "net16 (net16 w) = w"
  by (rule bit_word_eqI)
    (auto simp: net16_def bit_or_iff bit_push_bit_iff bit_drop_bit_eq dest: bit_u16_le)

lemma le16_put16 [simp]: "le16 (ucast w) (ucast (drop_bit 8 w)) = w"
  by (rule bit_word_eqI)
    (auto simp: le16_def bit_or_iff bit_push_bit_iff bit_drop_bit_eq bit_ucast_iff dest: bit_u16_le)

lemma ucast_le16 [simp]: "ucast (le16 a b) = a" "ucast (drop_bit 8 (le16 a b)) = b"
  by (rule bit_word_eqI;
      auto simp: le16_def bit_or_iff bit_push_bit_iff bit_drop_bit_eq bit_ucast_iff dest: bit_u8_le)+

lemma length_put16 [simp]: "length (put16 w) = 2"
  by (simp add: put16_def)

lemma put16_le16 [simp]: "put16 (le16 a b) = [a, b]"
  by (simp add: put16_def)

section \<open>Headers\<close>

text \<open>
  What the packet code relies on for every header: the encoding has the size of the packed struct, and
  reading a header back from the front of any bytes returns the record that was written.
\<close>

locale header_codec =
  fixes enc :: "'h \<Rightarrow> u8 list" and dec :: "u8 list \<Rightarrow> 'h" and wf :: "'h \<Rightarrow> bool" and n :: nat
  assumes enc_length: "wf h \<Longrightarrow> length (enc h) = n"
    and dec_enc: "wf h \<Longrightarrow> dec (enc h @ rest) = h"
    and wf_dec: "n \<le> length bs \<Longrightarrow> wf (dec bs)"
    and enc_dec: "n \<le> length bs \<Longrightarrow> enc (dec bs) = take n bs"
begin

lemma enc_split: "n \<le> length bs \<Longrightarrow> bs = enc (dec bs) @ drop n bs"
  by (simp add: enc_dec)

lemma enc_inject: "wf h \<Longrightarrow> wf h' \<Longrightarrow> enc h @ rest = enc h' @ rest' \<Longrightarrow> h = h' \<and> rest = rest'"
  by (metis append_eq_append_conv dec_enc enc_length)

lemma drop_enc: "wf h \<Longrightarrow> drop n (enc h @ rest) = rest"
  by (simp add: enc_length)

lemma take_enc: "wf h \<Longrightarrow> take n (enc h @ rest) = enc h"
  by (simp add: enc_length)

end

definition ethernet_wf :: "ethernet_header \<Rightarrow> bool" where
  "ethernet_wf h \<longleftrightarrow> length (eth_destination h) = 6 \<and> length (eth_source h) = 6"

definition arp_wf :: "arp_ipv4 \<Rightarrow> bool" where
  "arp_wf h \<longleftrightarrow> ethernet_wf (arp_ethernet h) \<and> length (arp_sender_mac h) = 6 \<and> length (arp_sender_ip h) = 4 \<and>
     length (arp_target_mac h) = 6 \<and> length (arp_target_ip h) = 4"

definition ipv4_wf :: "ipv4_header \<Rightarrow> bool" where
  "ipv4_wf h \<longleftrightarrow> length (ip_source h) = 4 \<and> length (ip_destination h) = 4"

definition any_wf :: "'h \<Rightarrow> bool" where
  "any_wf h \<longleftrightarrow> True"

lemma take_pair: "Suc i < length bs \<Longrightarrow> [bs ! i, bs ! Suc i] = take 2 (drop i bs)"
  by (simp add: take_Suc_conv_app_nth numeral_2_eq_2 Cons_nth_drop_Suc [symmetric])

interpretation ethernet_codec: header_codec encode_ethernet decode_ethernet ethernet_wf 14
proof
  fix h :: ethernet_header and rest bs :: "u8 list"
  show "ethernet_wf h \<Longrightarrow> length (encode_ethernet h) = 14"
    by (simp add: ethernet_wf_def encode_ethernet_def)
  show "ethernet_wf h \<Longrightarrow> decode_ethernet (encode_ethernet h @ rest) = h"
    by (simp add: ethernet_wf_def encode_ethernet_def decode_ethernet_def nth_append put16_def)
  assume *: "14 \<le> length bs"
  then show "ethernet_wf (decode_ethernet bs)"
    by (simp add: ethernet_wf_def decode_ethernet_def)
  show "encode_ethernet (decode_ethernet bs) = take 14 bs"
    using * take_pair [of 12 bs] take_add [of 6 8 bs] take_add [of 6 2 "drop 6 bs"]
    by (simp add: encode_ethernet_def decode_ethernet_def)
qed

interpretation icmp_codec: header_codec encode_icmp decode_icmp any_wf 8
proof
  fix h :: icmp_echo_header and rest bs :: "u8 list"
  show "any_wf h \<Longrightarrow> length (encode_icmp h) = 8"
    by (simp add: encode_icmp_def)
  show "any_wf h \<Longrightarrow> decode_icmp (encode_icmp h @ rest) = h"
    by (simp add: encode_icmp_def decode_icmp_def put16_def)
  show "any_wf (decode_icmp bs)" by (simp add: any_wf_def)
  assume "8 \<le> length bs"
  then show "encode_icmp (decode_icmp bs) = take 8 bs"
    by (auto simp: encode_icmp_def decode_icmp_def numeral_eq_Suc Suc_le_length_iff)
qed

interpretation ipv4_codec: header_codec encode_ipv4 decode_ipv4 ipv4_wf 20
proof
  fix h :: ipv4_header and rest bs :: "u8 list"
  show "ipv4_wf h \<Longrightarrow> length (encode_ipv4 h) = 20"
    by (simp add: ipv4_wf_def encode_ipv4_def)
  show "ipv4_wf h \<Longrightarrow> decode_ipv4 (encode_ipv4 h @ rest) = h"
    by (simp add: ipv4_wf_def encode_ipv4_def decode_ipv4_def put16_def)
  assume *: "20 \<le> length bs"
  then show "ipv4_wf (decode_ipv4 bs)"
    by (simp add: ipv4_wf_def decode_ipv4_def)
  from * show "encode_ipv4 (decode_ipv4 bs) = take 20 bs"
    by (auto simp: encode_ipv4_def decode_ipv4_def numeral_eq_Suc Suc_le_length_iff)
qed

interpretation arp_codec: header_codec encode_arp decode_arp arp_wf 42
proof
  fix h :: arp_ipv4 and rest bs :: "u8 list"
  show "arp_wf h \<Longrightarrow> length (encode_arp h) = 42"
    by (simp add: arp_wf_def encode_arp_def ethernet_codec.enc_length)
  show "arp_wf h \<Longrightarrow> decode_arp (encode_arp h @ rest) = h"
    by (simp add: arp_wf_def encode_arp_def decode_arp_def put16_def ethernet_codec.enc_length
        ethernet_codec.dec_enc nth_append)
  assume *: "42 \<le> length bs"
  then show "arp_wf (decode_arp bs)"
    by (simp add: arp_wf_def decode_arp_def ethernet_codec.wf_dec)
  from * show "encode_arp (decode_arp bs) = take 42 bs"
    using take_pair [of 14 bs] take_pair [of 16 bs] take_pair [of 18 bs] take_pair [of 20 bs]
      ethernet_codec.enc_dec [of bs]
      take_add [of 14 28 "drop 0 bs"] take_add [of 2 26 "drop 14 bs"] take_add [of 2 24 "drop 16 bs"]
      take_add [of 2 22 "drop 18 bs"] take_add [of 2 20 "drop 20 bs"] take_add [of 6 14 "drop 22 bs"]
      take_add [of 4 10 "drop 28 bs"] take_add [of 6 4 "drop 32 bs"]
    by (simp add: encode_arp_def decode_arp_def)
qed

section \<open>The internet checksum\<close>

text \<open>The sum of the big-endian 16-bit words, a missing last byte counting as zero.\<close>

fun be_sum :: "u8 list \<Rightarrow> nat" where
  "be_sum (a # b # bytes) = 256 * unat a + unat b + be_sum bytes"
| "be_sum [a] = 256 * unat a"
| "be_sum [] = 0"

lemma unat_be16: "unat (push_bit 8 (ucast a) OR ucast b :: u16) = 256 * unat a + unat b" for a b :: u8
proof -
  have "push_bit 8 (ucast a) AND ucast b = (0 :: u16)"
    by (rule bit_word_eqI) (auto simp: bit_and_iff bit_push_bit_iff bit_ucast_iff dest: bit_u8_le)
  then have "push_bit 8 (ucast a) OR ucast b = (push_bit 8 (ucast a) + ucast b :: u16)"
    by (simp only: disjunctive_add_eq_or)
  moreover have "push_bit 8 (ucast a :: u16) = 256 * ucast a" by (simp add: push_bit_eq_mult)
  moreover have "unat (256 * ucast a + ucast b :: u16) = 256 * unat a + unat b"
  proof -
    have "256 * unat a + unat b < 65536" using unat_u8_less [of a] unat_u8_less [of b] by linarith
    then show ?thesis by (simp add: unat_word_ariths unsigned_ucast_eq take_bit_eq_mod mod_add_left_eq less_trans [OF unat_u8_less])
  qed
  ultimately show ?thesis by (simp only:)
qed

lemma unat_ucast_u16_u32 [simp]: "unat (ucast (w :: u16) :: u32) = unat w"
  by (simp add: unsigned_ucast_eq take_bit_eq_mod less_trans [OF unat_u16_less])

lemma be_sum_bound: "be_sum bytes \<le> 65535 * ((length bytes + 1) div 2)"
proof (induction bytes rule: be_sum.induct)
  case (1 a b bytes)
  have "256 * unat a + unat b \<le> 65535" using unat_u8_less [of a] unat_u8_less [of b] by linarith
  with 1 show ?case by simp
next
  case (2 a)
  have "256 * unat a \<le> 65535" using unat_u8_less [of a] by linarith
  then show ?case by simp
qed simp

lemma be_sum_fits: "length bytes \<le> 65535 \<Longrightarrow> be_sum bytes \<le> 2147450880"
proof -
  assume "length bytes \<le> 65535"
  then have "(length bytes + 1) div 2 \<le> 32768" by linarith
  with be_sum_bound [of bytes] show ?thesis by linarith
qed

lemma unat_checksum_add:
  "unat s + be_sum bytes < 4294967296 \<Longrightarrow> unat (checksum_add s bytes) = unat s + be_sum bytes"
proof (induction s bytes rule: checksum_add.induct)
  case (1 s a b bytes)
  have "unat (s + ucast (push_bit 8 (ucast a) OR ucast b :: u16)) = unat s + (256 * unat a + unat b)"
    using 1(2) by (subst unat_add_u32) (simp_all add: unat_be16)
  with 1 show ?case by (simp del: unat_add_lem)
next
  case (2 s a)
  have "push_bit 8 (ucast a) = (push_bit 8 (ucast a) OR ucast (0 :: u8) :: u16)" by simp
  then have "unat (push_bit 8 (ucast a) :: u16) = 256 * unat a"
    using unat_be16 [of a 0] by (simp only: unsigned_0)
  with 2 show ?case by (simp add: unat_add_u32)
qed simp

lemma unat_drop_16: "unat (drop_bit 16 s) = unat s div 65536" for s :: u32
  by (simp only: unat_drop_bit_eq) (simp add: drop_bit_eq_div)

lemma checksum_fold_spec:
  "unat (checksum_fold s) < 65536 \<and> unat (checksum_fold s) mod 65535 = unat s mod 65535 \<and>
   (checksum_fold s = 0 \<longleftrightarrow> s = 0)"
proof (induction s rule: checksum_fold.induct)
  case (1 s)
  show ?case
  proof (cases "drop_bit 16 s = 0")
    case True
    have "unat s div 65536 = 0" using True unat_drop_16 [of s] by simp
    then have "unat s < 65536" by (simp add: div_eq_0_iff)
    with True show ?thesis by (simp add: checksum_fold.simps [of s])
  next
    case False
    define t where "t = (s AND 0xffff) + drop_bit 16 s"
    have t: "unat t = unat s mod 65536 + unat s div 65536"
      unfolding t_def by (rule checksum_fold_decreases(1) [OF False])
    have "unat s = 65535 * (unat s div 65536) + unat t" unfolding t by simp
    then have "unat t mod 65535 = unat s mod 65535" by (metis mod_mult_self4)
    moreover have "0 < unat s div 65536"
      using False unat_drop_16 [of s] by (metis neq0_conv unat_eq_zero)
    then have "t \<noteq> 0" "s \<noteq> 0" using t by (auto simp: word_neq_0_unat div_greater_zero_iff)
    moreover have "checksum_fold s = checksum_fold t" using False by (simp add: checksum_fold.simps [of s] t_def)
    ultimately show ?thesis using 1 [OF False] by (simp add: t_def)
  qed
qed

lemma checksum_finish_zero:
  "checksum_finish s = 0 \<longleftrightarrow> s \<noteq> 0 \<and> unat s mod 65535 = 0"
  and unat_checksum_finish: "unat (checksum_finish s) = 65535 - unat (checksum_fold s)"
proof -
  define r where "r = checksum_fold s"
  have r: "unat r < 65536" "unat r mod 65535 = unat s mod 65535" "r = 0 \<longleftrightarrow> s = 0"
    using checksum_fold_spec [of s] by (simp_all add: r_def)
  have "NOT r = (- 1) - r" by (simp add: not_eq_complement)
  moreover have "unat ((- 1) - r) = unat (- 1 :: u32) - unat r" by (intro unat_sub) simp
  ultimately have "unat (NOT r) = 4294967295 - unat r"
    by (simp add: unsigned_minus_1_eq_mask mask_eq_exp_minus_1)
  then have "unat (ucast (NOT r) :: u16) = (4294967295 - unat r) mod 65536"
    by (simp add: unsigned_ucast_eq take_bit_eq_mod)
  also have "\<dots> = 65535 - unat r"
  proof -
    have e: "4294967295 - unat r = (65535 - unat r) + 65536 * 65535" using r(1) by linarith
    show ?thesis unfolding e mod_mult_self2 by simp
  qed
  finally show u: "unat (checksum_finish s) = 65535 - unat (checksum_fold s)"
    by (simp add: checksum_finish_def r_def)
  have "checksum_finish s = 0 \<longleftrightarrow> unat r = 65535"
    using u r(1) by (auto simp: unat_eq_zero [symmetric] r_def)
  also have "\<dots> \<longleftrightarrow> unat r \<noteq> 0 \<and> unat r mod 65535 = 0"
  proof -
    have "unat r mod 65535 = unat r" if "unat r < 65535" using that by simp
    moreover have "unat r = 65535" if "\<not> unat r < 65535" using that r(1) by linarith
    ultimately show ?thesis by (cases "unat r < 65535") auto
  qed
  finally show "checksum_finish s = 0 \<longleftrightarrow> s \<noteq> 0 \<and> unat s mod 65535 = 0"
    using r(2,3) by (simp add: unat_eq_zero)
qed

lemma be_sum_append: "even (length xs) \<Longrightarrow> be_sum (xs @ ys) = be_sum xs + be_sum ys"
  by (induction xs rule: be_sum.induct) auto

lemma be_sum_field:
  "even (length xs) \<Longrightarrow> be_sum (xs @ put16 (net16 w) @ ys) = be_sum xs + unat w + be_sum ys"
proof -
  assume e: "even (length xs)"
  have "put16 (net16 w) = [ucast (drop_bit 8 w), ucast w]"
    unfolding put16_def
    by (intro list.inject [THEN iffD2] conjI refl bit_word_eqI)
      (auto simp: net16_def bit_or_iff bit_push_bit_iff bit_drop_bit_eq bit_ucast_iff dest: bit_u16_le)
  moreover have "256 * unat (ucast (drop_bit 8 w) :: u8) + unat (ucast w :: u8) = unat w"
  proof -
    have "push_bit 8 (ucast (ucast (drop_bit 8 w) :: u8)) OR ucast (ucast w :: u8) = w"
      by (rule bit_word_eqI)
        (auto simp: bit_or_iff bit_push_bit_iff bit_drop_bit_eq bit_ucast_iff dest: bit_u16_le)
    then show ?thesis using unat_be16 [of "ucast (drop_bit 8 w)" "ucast w"] by simp
  qed
  ultimately show ?thesis using e by (simp add: be_sum_append)
qed

text \<open>Storing the checksum computed over a zero field makes the sum over the whole header zero.\<close>

lemma checksum_field:
  assumes "even (length xs)" "even (length pre)" "length pre + length xs + length ys \<le> 65533"
    and "c = checksum_finish (checksum_add (checksum_add 0 pre) (xs @ put16 0 @ ys))"
  shows "checksum_finish (checksum_add (checksum_add 0 pre) (xs @ put16 (net16 c) @ ys)) = 0"
proof -
  define z where "z = be_sum pre + be_sum xs + be_sum ys"
  have z: "z \<le> 2147450880"
    using be_sum_fits [of "pre @ xs @ ys"] assms(1-3) by (simp add: z_def be_sum_append)
  have pre: "unat (checksum_add 0 pre) = be_sum pre"
    using z by (subst unat_checksum_add) (simp_all add: z_def)
  have sums: "unat (checksum_add (checksum_add 0 pre) (xs @ put16 (net16 w) @ ys)) = z + unat w" for w
  proof -
    have "be_sum pre + (be_sum xs + unat w + be_sum ys) < 4294967296"
      using z unat_u16_less [of w] unfolding z_def by linarith
    then show ?thesis by (subst unat_checksum_add) (simp_all add: pre be_sum_field [OF assms(1)] z_def)
  qed
  define s where "s = checksum_add (checksum_add 0 pre) (xs @ put16 0 @ ys)"
  have "net16 0 = 0" by (simp add: net16_def)
  then have s: "unat s = z" using sums [of 0] by (simp add: s_def)
  have f: "unat (checksum_fold s) < 65536" "unat (checksum_fold s) mod 65535 = z mod 65535" "checksum_fold s = 0 \<longleftrightarrow> z = 0"
    using checksum_fold_spec [of s] s by (auto simp: unat_eq_zero)
  have c: "unat c = 65535 - unat (checksum_fold s)"
    unfolding assms(4) s_def [symmetric] by (rule unat_checksum_finish)
  have "(z + unat c) mod 65535 = (unat (checksum_fold s) + unat c) mod 65535"
    using f(2) by (metis mod_add_left_eq)
  also have "\<dots> = 0" using c f(1) by simp
  finally have "(z + unat c) mod 65535 = 0" .
  moreover have "z + unat c \<noteq> 0" using c f(3) by auto
  ultimately show ?thesis
    unfolding checksum_finish_zero using sums [of c] by (metis unat_0)
qed

lemma internet_checksum_field:
  assumes "even (length xs)" "length xs + length ys \<le> 65533" "c = internet_checksum (xs @ put16 0 @ ys)"
  shows "internet_checksum (xs @ put16 (net16 c) @ ys) = 0"
  using checksum_field [of xs "[]" ys c] assms
  by (simp add: internet_checksum_def checksum_finish_def)

section \<open>Replies\<close>

text \<open>The requests the host answers.\<close>

definition arp_request :: "ipv4_address \<Rightarrow> u8 list \<Rightarrow> bool" where
  "arp_request ip bytes \<longleftrightarrow> 42 \<le> length bytes \<and>
     (let p = decode_arp bytes in eth_type (arp_ethernet p) = net16 0x0806 \<and> arp_hardware_type p = net16 1 \<and>
        arp_protocol_type p = net16 0x0800 \<and> arp_hardware_size p = 6 \<and> arp_protocol_size p = 4 \<and>
        arp_operation p = net16 1 \<and> arp_target_ip p = ip)"

definition echo_size :: "u8 list \<Rightarrow> nat" where
  "echo_size bytes = unat (net16 (ip_total_length (decode_ipv4 (drop 14 bytes))))"

definition icmp_of :: "u8 list \<Rightarrow> u8 list" where
  "icmp_of bytes = take (echo_size bytes - 20) (drop 34 bytes)"

definition echo_packet :: "u8 \<Rightarrow> u8 list \<Rightarrow> bool" where
  "echo_packet kind bytes \<longleftrightarrow>
     eth_type (decode_ethernet bytes) = net16 0x0800 \<and> ip_version_ihl (decode_ipv4 (drop 14 bytes)) = 0x45 \<and>
     ip_protocol (decode_ipv4 (drop 14 bytes)) = 1 \<and> internet_checksum (take 20 (drop 14 bytes)) = 0 \<and>
     28 \<le> echo_size bytes \<and> echo_size bytes + 14 \<le> length bytes \<and>
     icmp_type (decode_icmp (icmp_of bytes)) = kind \<and> icmp_code (decode_icmp (icmp_of bytes)) = 0 \<and>
     internet_checksum (icmp_of bytes) = 0"

lemma make_arp_reply_None: "\<not> arp_request ip bytes \<Longrightarrow> make_arp_reply bytes mac ip = (bytes, 0)"
  by (auto simp: arp_request_def make_arp_reply_def Let_def)

lemma net16_inject [simp]: "net16 a = net16 b \<longleftrightarrow> a = b"
  by (metis net16_net16)

text \<open>
  C35: an ARP request for the local address is answered in place: the reply goes to the
  requester, announces the local addresses to it and leaves the bytes behind the packet alone. Any
  other frame is left unchanged, and a reply is never answered again.
\<close>

theorem arp_reply:
  assumes "length mac = 6" "length ip = 4"
  shows "if arp_request ip bytes
    then (\<exists>reply. make_arp_reply bytes mac ip = (reply, 42) \<and> length reply = length bytes \<and>
       drop 42 reply = drop 42 bytes \<and>
       (let q = decode_arp bytes; r = decode_arp reply
        in eth_destination (arp_ethernet r) = arp_sender_mac q \<and> eth_source (arp_ethernet r) = mac \<and>
           eth_type (arp_ethernet r) = net16 0x0806 \<and>
           arp_operation r = net16 2 \<and> arp_sender_mac r = mac \<and> arp_sender_ip r = ip \<and>
           arp_target_mac r = arp_sender_mac q \<and> arp_target_ip r = arp_sender_ip q) \<and>
       (\<forall>mac' ip'. make_arp_reply reply mac' ip' = (reply, 0)))
    else make_arp_reply bytes mac ip = (bytes, 0)"
proof (cases "arp_request ip bytes")
  case True
  define q where "q = decode_arp bytes"
  define r where "r = q\<lparr>arp_ethernet := (arp_ethernet q)\<lparr>eth_destination := arp_sender_mac q, eth_source := mac\<rparr>,
    arp_operation := net16 2, arp_target_mac := arp_sender_mac q, arp_target_ip := arp_sender_ip q,
    arp_sender_mac := mac, arp_sender_ip := ip\<rparr>"
  have len: "42 \<le> length bytes" using True by (simp add: arp_request_def)
  then have "arp_wf q" using arp_codec.wf_dec by (simp add: q_def)
  then have wf: "arp_wf r" using assms by (simp add: arp_wf_def ethernet_wf_def r_def)
  have m: "make_arp_reply bytes mac ip = (encode_arp r @ drop 42 bytes, 42)"
    using True by (simp add: arp_request_def make_arp_reply_def Let_def q_def r_def)
  have d: "decode_arp (encode_arp r @ drop 42 bytes) = r" by (rule arp_codec.dec_enc [OF wf])
  have "eth_type (arp_ethernet q) = net16 0x0806" using True by (simp add: arp_request_def Let_def q_def)
  then have fields: "eth_destination (arp_ethernet r) = arp_sender_mac q" "eth_source (arp_ethernet r) = mac"
    "eth_type (arp_ethernet r) = net16 0x0806" "arp_operation r = net16 2" "arp_sender_mac r = mac" "arp_sender_ip r = ip"
    "arp_target_mac r = arp_sender_mac q" "arp_target_ip r = arp_sender_ip q"
    by (simp_all add: r_def)
  have "\<not> arp_request ip' (encode_arp r @ drop 42 bytes)" for ip'
    by (simp add: arp_request_def Let_def d fields)
  moreover have "length (encode_arp r @ drop 42 bytes) = length bytes"
    using len arp_codec.enc_length [OF wf] by simp
  ultimately show ?thesis
    using True m d arp_codec.enc_length [OF wf]
    by (simp add: make_arp_reply_None Let_def q_def [symmetric] fields)
next
  case False
  then show ?thesis by (simp add: make_arp_reply_None)
qed


theorem arp_reply_witness:
  "let mac = [2, 0, 0, 0, 0, 1]; ip = [10, 0, 2, 15];
       request = replicate 6 255 @ [2, 0, 0, 0, 0, 9, 8, 6, 0, 1, 8, 0, 6, 4, 0, 1, 2, 0, 0, 0, 0, 9, 10, 0, 2, 2,
         0, 0, 0, 0, 0, 0, 10, 0, 2, 15, 77]
   in arp_request ip request \<and> snd (make_arp_reply request mac ip) = 42"
proof -
  let ?ip = "[10, 0, 2, 15] :: u8 list"
  let ?r = "replicate 6 255 @ [2, 0, 0, 0, 0, 9, 8, 6, 0, 1, 8, 0, 6, 4, 0, 1, 2, 0, 0, 0, 0, 9, 10, 0, 2, 2,
         0, 0, 0, 0, 0, 0, 10, 0, 2, 15, 77] :: u8 list"
  have "arp_request ?ip ?r" by code_simp
  then show ?thesis using arp_reply [of "[2, 0, 0, 0, 0, 1]" ?ip ?r] by (auto simp: Let_def)
qed

lemma make_icmp_echo_reply_None:
  "\<not> (42 \<le> length bytes \<and> echo_packet 8 bytes \<and> ip_destination (decode_ipv4 (drop 14 bytes)) = ip) \<Longrightarrow>
   make_icmp_echo_reply bytes mac ip = (bytes, 0)"
  by (auto simp: echo_packet_def make_icmp_echo_reply_def echo_size_def icmp_of_def Let_def)

lemma encode_ipv4_checksum:
  assumes "ipv4_wf h" "ip_checksum h = 0"
  shows "internet_checksum (encode_ipv4 (h\<lparr>ip_checksum := net16 (internet_checksum (encode_ipv4 h))\<rparr>)) = 0"
proof -
  let ?xs = "[ip_version_ihl h, ip_dscp_ecn h] @ put16 (ip_total_length h) @ put16 (ip_identification h) @
     put16 (ip_flags_fragment h) @ [ip_ttl h, ip_protocol h]"
  let ?ys = "ip_source h @ ip_destination h"
  have e: "encode_ipv4 (h\<lparr>ip_checksum := c\<rparr>) = ?xs @ put16 c @ ?ys" for c
    by (simp add: encode_ipv4_def)
  have "encode_ipv4 h = ?xs @ put16 0 @ ?ys" using e [of 0] assms(2) by (cases h) simp
  moreover have "length ?xs + length ?ys \<le> 65533" using assms(1) by (simp add: ipv4_wf_def)
  ultimately show ?thesis unfolding e by (intro internet_checksum_field) simp_all
qed

lemma encode_icmp_checksum:
  assumes "icmp_checksum h = 0" "length data \<le> 65527"
  shows "internet_checksum (encode_icmp (h\<lparr>icmp_checksum := net16 (internet_checksum (encode_icmp h @ data))\<rparr>) @ data) = 0"
proof -
  let ?xs = "[icmp_type h, icmp_code h]"
  let ?ys = "put16 (icmp_identifier h) @ put16 (icmp_sequence h) @ data"
  have e: "encode_icmp (h\<lparr>icmp_checksum := c\<rparr>) @ data = ?xs @ put16 c @ ?ys" for c
    by (simp add: encode_icmp_def)
  have "encode_icmp h @ data = ?xs @ put16 0 @ ?ys" using e [of 0] assms(1) by (cases h) simp
  moreover have "length ?xs + length ?ys \<le> 65533" using assms(2) by simp
  ultimately show ?thesis unfolding e by (intro internet_checksum_field) simp_all
qed


text \<open>The parts of the reply built by \<open>make_icmp_echo_reply\<close>.\<close>

lemma icmp_reply_parts:
  assumes "42 \<le> length bytes" "echo_packet 8 bytes" "ip_destination (decode_ipv4 (drop 14 bytes)) = ip"
    and "length mac = 6" "length ip = 4"
  obtains e i c where
    "make_icmp_echo_reply bytes mac ip =
       (encode_ethernet e @ encode_ipv4 i @ encode_icmp c @ drop 8 (icmp_of bytes) @ drop (14 + echo_size bytes) bytes,
        14 + echo_size bytes)"
    "ethernet_wf e" "eth_destination e = eth_source (decode_ethernet bytes)" "eth_source e = mac" "eth_type e = net16 0x0800"
    "ipv4_wf i" "ip_source i = ip" "ip_destination i = ip_source (decode_ipv4 (drop 14 bytes))" "ip_ttl i = 64"
    "ip_total_length i = ip_total_length (decode_ipv4 (drop 14 bytes))" "ip_version_ihl i = 0x45" "ip_protocol i = 1"
    "internet_checksum (encode_ipv4 i) = 0"
    "icmp_type c = 0" "icmp_code c = 0" "icmp_identifier c = icmp_identifier (decode_icmp (icmp_of bytes))"
    "icmp_sequence c = icmp_sequence (decode_icmp (icmp_of bytes))"
    "internet_checksum (encode_icmp c @ drop 8 (icmp_of bytes)) = 0"
proof -
  define e0 i0 c0 where "e0 = decode_ethernet bytes" and "i0 = decode_ipv4 (drop 14 bytes)" and "c0 = decode_icmp (icmp_of bytes)"
  define i1 c1 where "i1 = i0\<lparr>ip_destination := ip_source i0, ip_source := ip, ip_ttl := 64, ip_checksum := 0\<rparr>"
    and "c1 = c0\<lparr>icmp_type := 0, icmp_checksum := 0\<rparr>"
  define e i c where "e = e0\<lparr>eth_destination := eth_source e0, eth_source := mac\<rparr>"
    and "i = i1\<lparr>ip_checksum := net16 (internet_checksum (encode_ipv4 i1))\<rparr>"
    and "c = c1\<lparr>icmp_checksum := net16 (internet_checksum (encode_icmp c1 @ drop 8 (icmp_of bytes)))\<rparr>"
  have wf0: "ethernet_wf e0" "ipv4_wf i0"
    using assms(1) by (simp_all add: e0_def i0_def ethernet_codec.wf_dec ipv4_codec.wf_dec)
  then have wf: "ethernet_wf e" "ipv4_wf i1" "ipv4_wf i"
    using assms(4,5) by (simp_all add: ethernet_wf_def ipv4_wf_def e_def i1_def i_def)
  have "length (drop 8 (icmp_of bytes)) \<le> 65527"
  proof -
    have "length (icmp_of bytes) \<le> echo_size bytes" by (simp add: icmp_of_def)
    moreover have "echo_size bytes < 65536" unfolding echo_size_def by (rule unat_u16_less)
    ultimately show ?thesis by simp
  qed
  then have sums: "internet_checksum (encode_ipv4 i) = 0" "internet_checksum (encode_icmp c @ drop 8 (icmp_of bytes)) = 0"
    using encode_ipv4_checksum [OF wf(2)] encode_icmp_checksum [of c1]
    by (simp_all add: i_def c_def i1_def c1_def)
  have p: "eth_type e0 = net16 0x0800" "ip_version_ihl i0 = 0x45" "ip_protocol i0 = 1" "icmp_code c0 = 0"
    using assms(2) by (simp_all add: echo_packet_def e0_def i0_def c0_def)
  have g: "eth_type (decode_ethernet bytes) = net16 0x0800" "ip_version_ihl (decode_ipv4 (drop 14 bytes)) = 0x45"
    "ip_protocol (decode_ipv4 (drop 14 bytes)) = 1" "internet_checksum (take 20 (drop 14 bytes)) = 0"
    "\<not> echo_size bytes < 28" "\<not> length bytes - 14 < echo_size bytes" "icmp_type (decode_icmp (icmp_of bytes)) = 8"
    "icmp_code (decode_icmp (icmp_of bytes)) = 0" "internet_checksum (icmp_of bytes) = 0"
    using assms(2) by (auto simp: echo_packet_def)
  have m: "make_icmp_echo_reply bytes mac ip =
       (encode_ethernet e @ encode_ipv4 i @ encode_icmp c @ drop 8 (icmp_of bytes) @ drop (14 + echo_size bytes) bytes,
        14 + echo_size bytes)"
    unfolding make_icmp_echo_reply_def Let_def echo_size_def [symmetric] icmp_of_def [symmetric]
    using assms(1,3) g by (simp add: e_def i_def c_def e0_def i1_def i0_def c1_def c0_def)
  show thesis
    by (rule that [OF m wf(1) _ _ _ wf(3) _ _ _ _ _ _ sums(1) _ _ _ _ sums(2)])
      (simp_all add: p e_def i_def c_def i1_def c1_def e0_def [symmetric] i0_def [symmetric] c0_def [symmetric])
qed

text \<open>
  C34: an ICMP echo request to the local address, with valid IP and ICMP checksums, is answered in
  place by a packet of the same size whose two checksums are valid again, with the addresses exchanged
  and the identifier, the sequence number and the data of the request; the bytes behind the packet do
  not change. Any other frame is left unchanged, and a reply is never answered again.
\<close>

theorem icmp_echo_reply:
  assumes "length mac = 6" "length ip = 4"
  shows "if echo_packet 8 bytes \<and> ip_destination (decode_ipv4 (drop 14 bytes)) = ip
    then (\<exists>reply. make_icmp_echo_reply bytes mac ip = (reply, 14 + echo_size bytes) \<and>
       length reply = length bytes \<and> drop (14 + echo_size bytes) reply = drop (14 + echo_size bytes) bytes \<and>
       echo_packet 0 reply \<and> echo_size reply = echo_size bytes \<and>
       eth_destination (decode_ethernet reply) = eth_source (decode_ethernet bytes) \<and>
       eth_source (decode_ethernet reply) = mac \<and>
       ip_source (decode_ipv4 (drop 14 reply)) = ip \<and>
       ip_destination (decode_ipv4 (drop 14 reply)) = ip_source (decode_ipv4 (drop 14 bytes)) \<and>
       drop 4 (icmp_of reply) = drop 4 (icmp_of bytes) \<and>
       (\<forall>mac' ip'. make_icmp_echo_reply reply mac' ip' = (reply, 0)))
    else make_icmp_echo_reply bytes mac ip = (bytes, 0)"
proof (cases "echo_packet 8 bytes \<and> ip_destination (decode_ipv4 (drop 14 bytes)) = ip")
  case True
  then have size: "28 \<le> echo_size bytes" "echo_size bytes + 14 \<le> length bytes" by (simp_all add: echo_packet_def)
  then have "42 \<le> length bytes" by simp
  then obtain e i c where p:
    "make_icmp_echo_reply bytes mac ip =
       (encode_ethernet e @ encode_ipv4 i @ encode_icmp c @ drop 8 (icmp_of bytes) @ drop (14 + echo_size bytes) bytes,
        14 + echo_size bytes)"
    "ethernet_wf e" "eth_destination e = eth_source (decode_ethernet bytes)" "eth_source e = mac" "eth_type e = net16 0x0800"
    "ipv4_wf i" "ip_source i = ip" "ip_destination i = ip_source (decode_ipv4 (drop 14 bytes))" "ip_ttl i = 64"
    "ip_total_length i = ip_total_length (decode_ipv4 (drop 14 bytes))" "ip_version_ihl i = 0x45" "ip_protocol i = 1"
    "internet_checksum (encode_ipv4 i) = 0"
    "icmp_type c = 0" "icmp_code c = 0" "icmp_identifier c = icmp_identifier (decode_icmp (icmp_of bytes))"
    "icmp_sequence c = icmp_sequence (decode_icmp (icmp_of bytes))"
    "internet_checksum (encode_icmp c @ drop 8 (icmp_of bytes)) = 0"
    using icmp_reply_parts [of bytes ip mac thesis] True assms by blast
  define body where "body = encode_icmp c @ drop 8 (icmp_of bytes)"
  define tail where "tail = drop (14 + echo_size bytes) bytes"
  define reply where "reply = encode_ethernet e @ encode_ipv4 i @ body @ tail"
  have len: "length (icmp_of bytes) = echo_size bytes - 20" using size by (simp add: icmp_of_def)
  have lens: "length (encode_ethernet e) = 14" "length (encode_ipv4 i) = 20" "length (encode_icmp c) = 8"
    using p(2,6) by (simp_all add: ethernet_codec.enc_length ipv4_codec.enc_length icmp_codec.enc_length any_wf_def)
  have blen: "length body = echo_size bytes - 20" using len lens size by (simp add: body_def)
  have d: "decode_ethernet reply = e" "decode_ipv4 (drop 14 reply) = i" "take 20 (drop 14 reply) = encode_ipv4 i"
    using p(2,6) lens by (simp_all add: reply_def ethernet_codec.dec_enc ipv4_codec.dec_enc)
  have es: "echo_size reply = echo_size bytes" using p(10) by (simp add: echo_size_def d)
  have ic: "icmp_of reply = body" unfolding icmp_of_def es using lens blen size by (simp add: reply_def)
  have dc: "decode_icmp body = c" by (simp add: body_def icmp_codec.dec_enc any_wf_def)
  have h: "drop 4 (encode_icmp c) = drop 4 (encode_icmp (decode_icmp (icmp_of bytes)))"
    using p(16,17) by (simp add: encode_icmp_def put16_def)
  have "drop 4 (icmp_of bytes) = drop 4 (encode_icmp (decode_icmp (icmp_of bytes)) @ drop 8 (icmp_of bytes))"
    using icmp_codec.enc_split [of "icmp_of bytes"] len size by simp
  also have "\<dots> = drop 4 body"
    using h lens(3) icmp_codec.enc_length [of "decode_icmp (icmp_of bytes)"] by (simp add: body_def any_wf_def)
  finally have d4: "drop 4 body = drop 4 (icmp_of bytes)" by simp
  have pk: "echo_packet 0 reply"
    unfolding echo_packet_def ic d dc es using p size lens blen
    by (simp add: body_def [symmetric] reply_def tail_def)
  then have none: "make_icmp_echo_reply reply mac' ip' = (reply, 0)" for mac' ip'
    using make_icmp_echo_reply_None [of reply ip' mac'] by (simp add: echo_packet_def)
  have m: "make_icmp_echo_reply bytes mac ip = (reply, 14 + echo_size bytes)"
    using p(1) by (simp add: reply_def body_def tail_def)
  have "length reply = length bytes" "drop (14 + echo_size bytes) reply = tail"
    using lens blen size by (simp_all add: reply_def tail_def)
  then show ?thesis
    unfolding if_P [OF True] using m pk es d p(3,4,7,8) d4 ic none by (intro exI [of _ reply]) (simp add: tail_def)
next
  case False
  then show ?thesis using make_icmp_echo_reply_None [of bytes ip mac] by auto
qed


definition demo_echo :: "u8 list" where
  "demo_echo = [2, 0, 0, 0, 0, 1, 2, 0, 0, 0, 0, 9, 8, 0, 69, 0, 0, 31, 0, 7, 0, 0, 99, 1, 63, 199, 10, 0, 2, 2, 10, 0, 2, 15, 8, 0, 110, 144, 0, 5, 0, 1, 104, 105, 33, 0, 0]"

theorem icmp_echo_reply_witness:
  "let mac = [2, 0, 0, 0, 0, 1]; ip = [10, 0, 2, 15]
   in echo_packet 8 demo_echo \<and> snd (make_icmp_echo_reply demo_echo mac ip) = 45"
proof -
  have p: "echo_packet 8 demo_echo" by code_simp
  have d: "ip_destination (decode_ipv4 (drop 14 demo_echo)) = [10, 0, 2, 15]" "echo_size demo_echo = 31"
    by code_simp+
  show ?thesis using icmp_echo_reply [of "[2, 0, 0, 0, 0, 1]" "[10, 0, 2, 15]" demo_echo] p d by (auto simp: Let_def)
qed

end
