(* ===== verification/Tcp_Segment.thy ===== *)
theory Tcp_Segment
  imports Ethernet
begin

text \<open>
  \<^verbatim>\<open>include/mikos/net/tcp.hpp\<close>: the TCP header, its checksum over the pseudo header, the
  option parser and the parser of a whole frame. A \<open>std::span\<close> is the list of its bytes and
  \<open>subspan\<close> is \<open>drop\<close> and \<open>take\<close>; \<open>std::nullopt\<close> is \<open>None\<close>.
\<close>

unbundle bit_operations_syntax

section \<open>Definitions\<close>

definition le32 :: "u8 \<Rightarrow> u8 \<Rightarrow> u8 \<Rightarrow> u8 \<Rightarrow> u32" where
  "le32 a b c d = ucast a OR push_bit 8 (ucast b) OR push_bit 16 (ucast c) OR push_bit 24 (ucast d)"

definition put32 :: "u32 \<Rightarrow> u8 list" where
  "put32 w = [ucast w, ucast (drop_bit 8 w), ucast (drop_bit 16 w), ucast (drop_bit 24 w)]"

definition net32 :: "u32 \<Rightarrow> u32" where
  "net32 w = le32 (ucast (drop_bit 24 w)) (ucast (drop_bit 16 w)) (ucast (drop_bit 8 w)) (ucast w)"

record tcp_header =
  tcp_source_port :: u16
  tcp_destination_port :: u16
  tcp_sequence :: u32
  tcp_acknowledgement :: u32
  tcp_data_offset :: u8
  tcp_flags :: u8
  tcp_window :: u16
  tcp_checksum_field :: u16
  tcp_urgent :: u16

abbreviation tcp_fin :: u8 where "tcp_fin \<equiv> 0x01"
abbreviation tcp_syn :: u8 where "tcp_syn \<equiv> 0x02"
abbreviation tcp_rst :: u8 where "tcp_rst \<equiv> 0x04"
abbreviation tcp_psh :: u8 where "tcp_psh \<equiv> 0x08"
abbreviation tcp_ack :: u8 where "tcp_ack \<equiv> 0x10"

definition decode_tcp :: "u8 list \<Rightarrow> tcp_header" where
  "decode_tcp bs = \<lparr>tcp_source_port = le16 (bs ! 0) (bs ! 1), tcp_destination_port = le16 (bs ! 2) (bs ! 3),
     tcp_sequence = le32 (bs ! 4) (bs ! 5) (bs ! 6) (bs ! 7),
     tcp_acknowledgement = le32 (bs ! 8) (bs ! 9) (bs ! 10) (bs ! 11),
     tcp_data_offset = bs ! 12, tcp_flags = bs ! 13, tcp_window = le16 (bs ! 14) (bs ! 15),
     tcp_checksum_field = le16 (bs ! 16) (bs ! 17), tcp_urgent = le16 (bs ! 18) (bs ! 19)\<rparr>"

definition encode_tcp :: "tcp_header \<Rightarrow> u8 list" where
  "encode_tcp h = put16 (tcp_source_port h) @ put16 (tcp_destination_port h) @ put32 (tcp_sequence h) @
     put32 (tcp_acknowledgement h) @ [tcp_data_offset h, tcp_flags h] @ put16 (tcp_window h) @
     put16 (tcp_checksum_field h) @ put16 (tcp_urgent h)"

definition tcp_pseudo :: "nat \<Rightarrow> u8 list" where
  "tcp_pseudo sz = [0, 6, of_nat (sz div 256), of_nat sz]"

definition tcp_checksum :: "ipv4_address \<Rightarrow> ipv4_address \<Rightarrow> u8 list \<Rightarrow> u16" where
  "tcp_checksum source destination segment =
     (let s1 = checksum_add 0 source;
          s2 = checksum_add s1 destination;
          s3 = checksum_add s2 (tcp_pseudo (length segment))
      in checksum_finish (checksum_add s3 segment))"

record tcp_options =
  opt_maximum_segment_size :: "u16 option"
  opt_window_scale :: "u8 option"

definition no_options :: tcp_options where
  "no_options = \<lparr>opt_maximum_segment_size = None, opt_window_scale = None\<rparr>"

text \<open>The \<open>switch\<close> on one framed option.\<close>

definition parse_option :: "u8 \<Rightarrow> u8 list \<Rightarrow> tcp_options \<Rightarrow> tcp_options option" where
  "parse_option kind option result =
     (if kind = 2 then
        (if length option \<noteq> 4 \<or> opt_maximum_segment_size result \<noteq> None then None
         else let mss = push_bit 8 (ucast (option ! 2)) OR ucast (option ! 3)
              in if mss = 0 then None else Some (result\<lparr>opt_maximum_segment_size := Some mss\<rparr>))
      else if kind = 3 then
        (if length option \<noteq> 3 \<or> opt_window_scale result \<noteq> None then None
         else Some (result\<lparr>opt_window_scale := Some (min (option ! 2) 14)\<rparr>))
      else if kind = 4 then (if length option \<noteq> 2 then None else Some result)
      else if kind = 5 then (if length option < 10 \<or> (length option - 2) mod 8 \<noteq> 0 then None else Some result)
      else if kind = 8 then (if length option \<noteq> 10 then None else Some result)
      else Some result)"

function parse_options_from :: "tcp_options \<Rightarrow> u8 list \<Rightarrow> tcp_options option" where
  "parse_options_from result [] = Some result"
| "parse_options_from result (kind # rest) =
     (if kind = 0 then Some result
      else if kind = 1 then parse_options_from result rest
      else case rest of
             [] \<Rightarrow> None
           | sz # _ \<Rightarrow>
               if unat sz < 2 \<or> unat sz > length (kind # rest) then None
               else (case parse_option kind (take (unat sz) (kind # rest)) result of
                       None \<Rightarrow> None
                     | Some result' \<Rightarrow> parse_options_from result' (drop (unat sz) (kind # rest))))"
  by pat_completeness auto
termination
  by (relation "measure (\<lambda>(result, bytes). length bytes)") auto

definition parse_tcp_options :: "u8 list \<Rightarrow> tcp_options option" where
  "parse_tcp_options bytes = parse_options_from no_options bytes"

record tcp_view =
  view_ethernet :: ethernet_header
  view_ip :: ipv4_header
  view_tcp :: tcp_header
  view_payload :: "u8 list"
  view_options :: tcp_options

definition ip_header_size :: "ipv4_header \<Rightarrow> nat" where
  "ip_header_size ip = unat (ip_version_ihl ip AND 0x0f) * 4"

definition tcp_header_size :: "tcp_header \<Rightarrow> nat" where
  "tcp_header_size tcp = unat (drop_bit 4 (tcp_data_offset tcp)) * 4"

definition ip_acceptable :: "ethernet_header \<Rightarrow> ipv4_header \<Rightarrow> u8 list \<Rightarrow> ipv4_address \<Rightarrow> bool" where
  "ip_acceptable ethernet ip ip_bytes local_ip \<longleftrightarrow>
     \<not> (eth_type ethernet \<noteq> net16 0x0800 \<or> drop_bit 4 (ip_version_ihl ip) \<noteq> 4 \<or>
        ip_header_size ip < 20 \<or> ip_header_size ip > length ip_bytes \<or>
        unat (net16 (ip_total_length ip)) < ip_header_size ip + 20 \<or>
        unat (net16 (ip_total_length ip)) > length ip_bytes \<or> ip_protocol ip \<noteq> 6 \<or>
        net16 (ip_flags_fragment ip) AND 0x3fff \<noteq> 0 \<or>
        ip_destination ip \<noteq> local_ip \<or>
        internet_checksum (take (ip_header_size ip) ip_bytes) \<noteq> 0)"

definition parse_tcp :: "u8 list \<Rightarrow> ipv4_address \<Rightarrow> tcp_view option" where
  "parse_tcp bytes local_ip =
     (if length bytes < 54 then None
      else let ethernet = decode_ethernet bytes;
               ip_bytes = drop 14 bytes;
               ip = decode_ipv4 ip_bytes
           in if \<not> ip_acceptable ethernet ip ip_bytes local_ip then None
              else let tcp_bytes = take (unat (net16 (ip_total_length ip)) - ip_header_size ip)
                                     (drop (ip_header_size ip) ip_bytes);
                       tcp = decode_tcp tcp_bytes
                   in if tcp_header_size tcp < 20 \<or> tcp_header_size tcp > length tcp_bytes \<or>
                         tcp_checksum (ip_source ip) local_ip tcp_bytes \<noteq> 0
                      then None
                      else (case parse_tcp_options (take (tcp_header_size tcp - 20) (drop 20 tcp_bytes)) of
                              None \<Rightarrow> None
                            | Some options \<Rightarrow>
                                Some \<lparr>view_ethernet = ethernet, view_ip = ip, view_tcp = tcp,
                                      view_payload = drop (tcp_header_size tcp) tcp_bytes, view_options = options\<rparr>))"

section \<open>Byte order and the header codec\<close>

lemma bit_u32_le: "bit (w :: u32) k \<Longrightarrow> k < 32"
  using bit_imp_le_length [of w k] by simp

lemma le32_put32 [simp]:
  "le32 (ucast w) (ucast (drop_bit 8 w)) (ucast (drop_bit 16 w)) (ucast (drop_bit 24 w)) = w"
proof (rule bit_word_eqI)
  fix n assume n: "n < LENGTH(32)"
  consider "n < 8" | "8 \<le> n" "n < 16" | "16 \<le> n" "n < 24" | "24 \<le> n" by linarith
  then show "bit (le32 (ucast w) (ucast (drop_bit 8 w)) (ucast (drop_bit 16 w)) (ucast (drop_bit 24 w))) n \<longleftrightarrow> bit w n"
    using n by cases (auto simp: le32_def bit_or_iff bit_push_bit_iff bit_drop_bit_eq bit_ucast_iff)
qed

lemma ucast_le32 [simp]:
  "ucast (le32 a b c d) = a" "ucast (drop_bit 8 (le32 a b c d)) = b"
  "ucast (drop_bit 16 (le32 a b c d)) = c" "ucast (drop_bit 24 (le32 a b c d)) = d"
  by (rule bit_word_eqI;
      auto simp: le32_def bit_or_iff bit_push_bit_iff bit_drop_bit_eq bit_ucast_iff dest: bit_u8_le)+

lemma net32_net32 [simp]: "net32 (net32 w) = w"
  by (simp add: net32_def)

lemma length_put32 [simp]: "length (put32 w) = 4"
  by (simp add: put32_def)

lemma put32_le32 [simp]: "put32 (le32 a b c d) = [a, b, c, d]"
  by (simp add: put32_def)

interpretation tcp_codec: header_codec encode_tcp decode_tcp any_wf 20
proof
  fix h :: tcp_header and rest bs :: "u8 list"
  show "any_wf h \<Longrightarrow> length (encode_tcp h) = 20"
    by (simp add: encode_tcp_def)
  show "any_wf h \<Longrightarrow> decode_tcp (encode_tcp h @ rest) = h"
    by (simp add: encode_tcp_def decode_tcp_def put16_def put32_def)
  show "any_wf (decode_tcp bs)" by (simp add: any_wf_def)
  assume "20 \<le> length bs"
  then show "encode_tcp (decode_tcp bs) = take 20 bs"
    by (auto simp: encode_tcp_def decode_tcp_def numeral_eq_Suc Suc_le_length_iff)
qed

section \<open>The option list\<close>

text \<open>
  The grammar of the option field: padding options and framed options of a kind, a length byte and a
  body, then either the end of the field or an end-of-list byte and anything behind it. The meaning of
  an option sequence is the fold of the meaning of each option.
\<close>

datatype tcp_option = Nop | Framed u8 "u8 list"

fun render_option :: "tcp_option \<Rightarrow> u8 list" where
  "render_option Nop = [1]"
| "render_option (Framed kind body) = kind # of_nat (length body + 2) # body"

definition body_ok :: "u8 \<Rightarrow> u8 list \<Rightarrow> bool" where
  "body_ok kind body \<longleftrightarrow>
     (kind = 2 \<longrightarrow> length body = 2 \<and> body \<noteq> [0, 0]) \<and> (kind = 3 \<longrightarrow> length body = 1) \<and> (kind = 4 \<longrightarrow> body = []) \<and>
     (kind = 5 \<longrightarrow> 8 \<le> length body \<and> 8 dvd length body) \<and> (kind = 8 \<longrightarrow> length body = 8)"

fun option_ok :: "tcp_option \<Rightarrow> bool" where
  "option_ok Nop = True"
| "option_ok (Framed kind body) = (kind \<noteq> 0 \<and> kind \<noteq> 1 \<and> length body \<le> 253 \<and> body_ok kind body)"

fun option_kinds :: "tcp_option list \<Rightarrow> u8 list" where
  "option_kinds [] = []"
| "option_kinds (Nop # opts) = option_kinds opts"
| "option_kinds (Framed kind body # opts) = kind # option_kinds opts"

fun option_meaning :: "tcp_option list \<Rightarrow> tcp_options \<Rightarrow> tcp_options" where
  "option_meaning [] r = r"
| "option_meaning (Nop # opts) r = option_meaning opts r"
| "option_meaning (Framed kind body # opts) r =
     option_meaning opts
       (if kind = 2 then r\<lparr>opt_maximum_segment_size := Some (of_nat (be_sum body))\<rparr>
        else if kind = 3 then r\<lparr>opt_window_scale := Some (min (hd body) 14)\<rparr> else r)"

text \<open>Options that may still follow: a maximum segment size or a scale not seen before, once.\<close>

definition kinds_ok :: "tcp_options \<Rightarrow> u8 list \<Rightarrow> bool" where
  "kinds_ok r ks \<longleftrightarrow>
     length (filter (\<lambda>k. k = 2) ks) \<le> (if opt_maximum_segment_size r = None then 1 else 0) \<and>
     length (filter (\<lambda>k. k = 3) ks) \<le> (if opt_window_scale r = None then 1 else 0)"

lemma be16_of_nat: "push_bit 8 (ucast a) OR ucast b = (of_nat (256 * unat a + unat b) :: u16)" for a b :: u8
  unfolding unat_be16 [symmetric] by simp

lemma be16_zero: "(of_nat (256 * unat a + unat b) :: u16) = 0 \<longleftrightarrow> a = 0 \<and> b = 0" for a b :: u8
proof -
  have "unat (of_nat (256 * unat a + unat b) :: u16) = 256 * unat a + unat b"
    using unat_be16 [of a b] by (simp only: be16_of_nat)
  then show ?thesis by (metis add_is_0 mult_eq_0_iff unat_0 unat_eq_zero zero_neq_numeral)
qed

lemma length_2E: "length xs = 2 \<Longrightarrow> \<exists>a b. xs = [a, b]"
  by (auto simp: length_Suc_conv numeral_2_eq_2)

lemma parse_option_render:
  assumes "kind \<noteq> 0" "kind \<noteq> 1"
  shows "parse_option kind (kind # l # body) r =
     (if body_ok kind body \<and> kinds_ok r [kind] then Some (option_meaning [Framed kind body] r) else None)"
proof -
  have "length body = 1 \<Longrightarrow> \<exists>a. body = [a]" by (auto simp: length_Suc_conv)
  with length_2E [of body] show ?thesis
    by (auto simp: parse_option_def body_ok_def kinds_ok_def be16_of_nat be16_zero [simplified] Let_def dvd_eq_mod_eq_0)
qed

lemma kinds_ok_Cons:
  "kinds_ok r (k # ks) \<longleftrightarrow> kinds_ok r [k] \<and> kinds_ok (option_meaning [Framed k body] r) ks"
  by (auto simp: kinds_ok_def)

lemma parse_options_framed:
  assumes "kind \<noteq> 0" "kind \<noteq> 1" "length body \<le> 253"
  shows "parse_options_from r (kind # of_nat (length body + 2) # body @ rest) =
     (if body_ok kind body \<and> kinds_ok r [kind] then parse_options_from (option_meaning [Framed kind body] r) rest else None)"
proof -
  define l where "l = (of_nat (length body + 2) :: u8)"
  have l: "unat l = length body + 2" unfolding l_def using assms(3) by (intro unat_of_nat_u8) simp
  have "parse_options_from r (kind # l # body @ rest) =
     (if body_ok kind body \<and> kinds_ok r [kind] then parse_options_from (option_meaning [Framed kind body] r) rest else None)"
    using assms(1,2) parse_option_render [OF assms(1,2), of l body r]
    by (simp add: l del: option_meaning.simps)
  then show ?thesis unfolding l_def .
qed

lemma parse_options_complete:
  assumes "list_all option_ok opts" "kinds_ok r (option_kinds opts)" "tail = [] \<or> hd tail = 0"
  shows "parse_options_from r (concat (map render_option opts) @ tail) = Some (option_meaning opts r)"
  using assms
proof (induction opts arbitrary: r)
  case Nil
  then show ?case by (cases tail) auto
next
  case (Cons opt opts)
  show ?case
  proof (cases opt)
    case Nop
    with Cons show ?thesis by simp
  next
    case (Framed kind body)
    have k: "kinds_ok r [kind]" "kinds_ok (option_meaning [Framed kind body] r) (option_kinds opts)"
      using Cons.prems(2) Framed kinds_ok_Cons [of r kind "option_kinds opts" body] by simp_all
    have o: "kind \<noteq> 0" "kind \<noteq> 1" "length body \<le> 253" "body_ok kind body"
      using Cons.prems(1) Framed by simp_all
    have "parse_options_from r (concat (map render_option (opt # opts)) @ tail) =
        parse_options_from (option_meaning [Framed kind body] r) (concat (map render_option opts) @ tail)"
      using parse_options_framed [OF o(1-3), of r] k(1) o(4) Framed by (simp del: option_meaning.simps of_nat_add)
    also have "\<dots> = Some (option_meaning opts (option_meaning [Framed kind body] r))"
      using Cons.IH [OF _ k(2) Cons.prems(3)] Cons.prems(1) by simp
    finally show ?thesis using Framed by simp
  qed
qed

lemma parse_options_sound:
  "parse_options_from r bytes = Some r' \<Longrightarrow>
   \<exists>opts tail. bytes = concat (map render_option opts) @ tail \<and> (tail = [] \<or> hd tail = 0) \<and>
     list_all option_ok opts \<and> kinds_ok r (option_kinds opts) \<and> r' = option_meaning opts r"
proof (induction "length bytes" arbitrary: r bytes rule: less_induct)
  case less
  show ?case
  proof (cases bytes)
    case Nil
    then show ?thesis using less.prems by (intro exI [of _ "[]"]) (simp add: kinds_ok_def)
  next
    case bytes: (Cons kind rest)
    consider "kind = 0" | "kind = 1" | "kind \<noteq> 0" "kind \<noteq> 1" by blast
    then show ?thesis
    proof cases
      case 1
      with less.prems bytes show ?thesis
        by (intro exI [of _ "[]"] exI [of _ "kind # rest"]) (simp add: kinds_ok_def)
    next
      case k: 2
      with less.prems bytes have "parse_options_from r rest = Some r'" by simp
      from less.hyps [OF _ this] bytes obtain opts tail where "rest = concat (map render_option opts) @ tail"
        "tail = [] \<or> hd tail = 0" "list_all option_ok opts" "kinds_ok r (option_kinds opts)" "r' = option_meaning opts r"
        by auto
      with k bytes show ?thesis by (intro exI [of _ "Nop # opts"] exI [of _ tail]) simp
    next
      case k: 3
      from less.prems bytes k obtain sz rest' where rest: "rest = sz # rest'" by (cases rest) auto
      have sz: "2 \<le> unat sz" "unat sz \<le> length rest' + 2" using less.prems bytes k rest by (auto split: if_splits)
      define body more where "body = take (unat sz - 2) rest'" and "more = drop (unat sz - 2) rest'"
      have b: "length body + 2 = unat sz" "rest' = body @ more" using sz by (simp_all add: body_def more_def)
      have s: "sz = of_nat (length body + 2)" unfolding b(1) by simp
      have l: "length body \<le> 253" using b(1) unat_u8_less [of sz] by linarith
      have all: "bytes = kind # of_nat (length body + 2) # body @ more" unfolding bytes rest b(2) s [symmetric] ..
      have ok: "body_ok kind body" "kinds_ok r [kind]"
        and r': "parse_options_from (option_meaning [Framed kind body] r) more = Some r'"
        using less.prems unfolding all parse_options_framed [OF k l] by (simp_all split: if_splits)
      have "length more < length bytes" unfolding all by simp
      from less.hyps [OF this r'] obtain opts tail where "more = concat (map render_option opts) @ tail"
        "tail = [] \<or> hd tail = 0" "list_all option_ok opts"
        "kinds_ok (option_meaning [Framed kind body] r) (option_kinds opts)"
        "r' = option_meaning opts (option_meaning [Framed kind body] r)"
        by blast
      with k l ok all show ?thesis
        by (intro exI [of _ "Framed kind body # opts"] exI [of _ tail])
          (simp add: kinds_ok_Cons [of r kind "option_kinds opts" body])
    qed
  qed
qed

definition options_bounded :: "tcp_options \<Rightarrow> bool" where
  "options_bounded r \<longleftrightarrow> opt_maximum_segment_size r \<noteq> Some 0 \<and> (\<forall>s. opt_window_scale r = Some s \<longrightarrow> s \<le> 14)"

lemma option_meaning_bounded:
  "list_all option_ok opts \<Longrightarrow> options_bounded r \<Longrightarrow> options_bounded (option_meaning opts r)"
proof (induction opts r rule: option_meaning.induct)
  case (3 kind body opts r)
  have "of_nat (be_sum body) \<noteq> (0 :: u16)" if "kind = 2"
    using 3(2) that length_2E [of body] be16_zero [simplified] by (auto simp: body_ok_def)
  then have "options_bounded (option_meaning [Framed kind body] r)"
    using 3(3) by (auto simp: options_bounded_def)
  with 3 show ?case by simp
qed simp_all

text \<open>
  C33: \<open>parse_tcp_options\<close> accepts exactly the option fields of the grammar in which every option is well
  formed and neither a maximum segment size nor a window scale is repeated, and returns the meaning of
  the option sequence; on every accepted field the segment size is not zero and the scale at most 14.
\<close>

theorem parse_tcp_options_correct:
  "(parse_tcp_options bytes = Some r \<longleftrightarrow>
     (\<exists>opts tail. bytes = concat (map render_option opts) @ tail \<and> (tail = [] \<or> hd tail = 0) \<and>
       list_all option_ok opts \<and> kinds_ok no_options (option_kinds opts) \<and> r = option_meaning opts no_options)) \<and>
   (parse_tcp_options bytes = Some r \<longrightarrow>
     opt_maximum_segment_size r \<noteq> Some 0 \<and> (\<forall>s. opt_window_scale r = Some s \<longrightarrow> s \<le> 14))"
proof -
  have "parse_tcp_options bytes = Some r \<longleftrightarrow>
     (\<exists>opts tail. bytes = concat (map render_option opts) @ tail \<and> (tail = [] \<or> hd tail = 0) \<and>
       list_all option_ok opts \<and> kinds_ok no_options (option_kinds opts) \<and> r = option_meaning opts no_options)"
    unfolding parse_tcp_options_def using parse_options_sound parse_options_complete by blast
  moreover have "options_bounded no_options" by (simp add: options_bounded_def no_options_def)
  ultimately show ?thesis using option_meaning_bounded unfolding options_bounded_def by blast
qed

theorem parse_tcp_options_correct_witness:
  "parse_tcp_options [2, 4, 5, 0xb4, 1, 3, 3, 0] =
     Some \<lparr>opt_maximum_segment_size = Some 1460, opt_window_scale = Some 0\<rparr>"
proof -
  let ?opts = "[Framed 2 [5, 0xb4], Nop, Framed 3 [0]]"
  have "[2, 4, 5, 0xb4, 1, 3, 3, 0] = concat (map render_option ?opts) @ []" "list_all option_ok ?opts"
    "kinds_ok no_options (option_kinds ?opts)"
    "\<lparr>opt_maximum_segment_size = Some 1460, opt_window_scale = Some 0\<rparr> = option_meaning ?opts no_options"
    by code_simp+
  then show ?thesis
    using parse_tcp_options_correct [of "[2, 4, 5, 0xb4, 1, 3, 3, 0]"
        "\<lparr>opt_maximum_segment_size = Some 1460, opt_window_scale = Some 0\<rparr>"]
    by blast
qed

section \<open>Frames\<close>

lemma tcp_checksum_field:
  assumes "tcp_checksum_field h = 0" "length src = 4" "length dst = 4" "length data \<le> 65500"
  shows "tcp_checksum src dst
    (encode_tcp (h\<lparr>tcp_checksum_field := net16 (tcp_checksum src dst (encode_tcp h @ data))\<rparr>) @ data) = 0"
proof -
  let ?xs = "put16 (tcp_source_port h) @ put16 (tcp_destination_port h) @ put32 (tcp_sequence h) @
     put32 (tcp_acknowledgement h) @ [tcp_data_offset h, tcp_flags h] @ put16 (tcp_window h)"
  let ?ys = "put16 (tcp_urgent h) @ data"
  let ?pre = "src @ dst @ tcp_pseudo (20 + length data)"
  have add: "even (length a) \<Longrightarrow> checksum_add s (a @ b) = checksum_add (checksum_add s a) b" for s a b
    by (induction s a rule: checksum_add.induct) auto
  have e: "encode_tcp (h\<lparr>tcp_checksum_field := c\<rparr>) @ data = ?xs @ put16 c @ ?ys" for c
    by (simp add: encode_tcp_def)
  have t: "tcp_checksum src dst (encode_tcp h' @ data) =
      checksum_finish (checksum_add (checksum_add 0 ?pre) (encode_tcp h' @ data))" for h'
    using assms(2,3) by (simp add: tcp_checksum_def Let_def add tcp_codec.enc_length any_wf_def)
  have "encode_tcp h @ data = ?xs @ put16 0 @ ?ys" using e [of 0] assms(1) by (cases h) simp
  moreover have "length ?pre + length ?xs + length ?ys \<le> 65533" "even (length ?pre)"
    using assms(2-4) by (simp_all add: tcp_pseudo_def)
  ultimately show ?thesis unfolding t unfolding e by (intro checksum_field) simp_all
qed

lemma parse_tcp_frame:
  assumes e: "ethernet_wf e" "eth_type e = net16 0x0800"
    and i: "ipv4_wf i" "ip_version_ihl i = 0x45" "ip_protocol i = 6" "ip_flags_fragment i = 0"
      "net16 (ip_total_length i) = of_nat (40 + length opts + length payload)" "internet_checksum (encode_ipv4 i) = 0"
    and t: "tcp_header_size t = 20 + length opts" "parse_tcp_options opts = Some o1"
      "tcp_checksum (ip_source i) (ip_destination i) (encode_tcp t @ opts @ payload) = 0"
    and l: "40 + length opts + length payload < 65536"
  shows "parse_tcp (encode_ethernet e @ encode_ipv4 i @ encode_tcp t @ opts @ payload) (ip_destination i) =
     Some \<lparr>view_ethernet = e, view_ip = i, view_tcp = t, view_payload = payload, view_options = o1\<rparr>"
proof -
  have len: "length (encode_ethernet e) = 14" "length (encode_ipv4 i) = 20" "length (encode_tcp t) = 20"
    using e i by (simp_all add: ethernet_codec.enc_length ipv4_codec.enc_length tcp_codec.enc_length any_wf_def)
  have ihs: "ip_header_size i = 20" by (simp add: ip_header_size_def i(2))
  have tot: "unat (net16 (ip_total_length i)) = 40 + length opts + length payload"
    unfolding i(5) using l by (simp add: unat_of_nat del: of_nat_add)
  have v4: "drop_bit 4 (0x45 :: u8) = 4" by simp
  have "net16 0 = 0" by (simp add: net16_def)
  then have acc: "ip_acceptable e i (encode_ipv4 i @ encode_tcp t @ opts @ payload) (ip_destination i)"
    using e i tot len by (simp add: ip_acceptable_def ihs)
  have d: "decode_ethernet (encode_ethernet e @ x) = e" "decode_ipv4 (encode_ipv4 i @ x) = i" "decode_tcp (encode_tcp t @ x) = t" for x
    using e i by (simp_all add: ethernet_codec.dec_enc ipv4_codec.dec_enc tcp_codec.dec_enc any_wf_def)
  show ?thesis
    unfolding parse_tcp_def Let_def
    using len acc t tot l by (simp add: d ihs)
qed

end
