(* ===== verification/Interface.thy ===== *)
theory Interface
  imports Ethernet
begin

text \<open>
  \<^verbatim>\<open>include/mikos/net/interface.hpp\<close>: the state of the only network interface and the
  \<open>ioctl\<close> requests that read and change it. The union \<open>IfreqValue32\<close> is its sixteen bytes; each member
  is a view of the bytes at its offset.
\<close>

unbundle bit_operations_syntax

section \<open>Definitions\<close>

abbreviation interface_up :: u16 where "interface_up \<equiv> 0x0001"
abbreviation interface_broadcast :: u16 where "interface_broadcast \<equiv> 0x0002"
abbreviation interface_running :: u16 where "interface_running \<equiv> 0x0040"
abbreviation interface_multicast :: u16 where "interface_multicast \<equiv> 0x1000"

abbreviation siocgifflags :: u32 where "siocgifflags \<equiv> 0x8913"
abbreviation siocsifflags :: u32 where "siocsifflags \<equiv> 0x8914"
abbreviation siocgifaddr :: u32 where "siocgifaddr \<equiv> 0x8915"
abbreviation siocsifaddr :: u32 where "siocsifaddr \<equiv> 0x8916"
abbreviation siocgifbrdaddr :: u32 where "siocgifbrdaddr \<equiv> 0x8919"
abbreviation siocsifbrdaddr :: u32 where "siocsifbrdaddr \<equiv> 0x891a"
abbreviation siocgifnetmask :: u32 where "siocgifnetmask \<equiv> 0x891b"
abbreviation siocsifnetmask :: u32 where "siocsifnetmask \<equiv> 0x891c"
abbreviation siocgifmetric :: u32 where "siocgifmetric \<equiv> 0x891d"
abbreviation siocgifmtu :: u32 where "siocgifmtu \<equiv> 0x8921"
abbreviation siocgifhwaddr :: u32 where "siocgifhwaddr \<equiv> 0x8927"
abbreviation siocgifindex :: u32 where "siocgifindex \<equiv> 0x8933"
abbreviation siocgiftxqlen :: u32 where "siocgiftxqlen \<equiv> 0x8942"

record ifreq =
  ifr_name :: string
  ifr_value :: "u8 list"

record interface_state =
  if_mac :: mac_address
  if_address :: ipv4_address
  if_netmask :: ipv4_address
  if_broadcast :: ipv4_address
  if_flags :: u16

definition interface_state_init :: interface_state where
  "interface_state_init = \<lparr>if_mac = [0, 0, 0, 0, 0, 0], if_address = [10, 0, 2, 15], if_netmask = [255, 255, 255, 0],
     if_broadcast = [10, 0, 2, 255],
     if_flags = interface_up OR interface_broadcast OR interface_running OR interface_multicast\<rparr>"

datatype interface_control_result = If_success | If_no_device | If_invalid_argument | If_unsupported

definition interface_name_matches :: "string \<Rightarrow> bool" where
  "interface_name_matches name \<longleftrightarrow> name ! 0 = CHR ''e'' \<and> name ! 1 = CHR ''t'' \<and> name ! 2 = CHR ''h'' \<and>
     name ! 3 = CHR ''0'' \<and> name ! 4 = CHR 0x00"

definition write_interface_name :: string where
  "write_interface_name = (replicate 16 (CHR 0x00))[0 := CHR ''e'', 1 := CHR ''t'', 2 := CHR ''h'', 3 := CHR ''0'']"

definition value_put16 :: "u16 \<Rightarrow> u8 list \<Rightarrow> u8 list" where
  "value_put16 w v = put16 w @ drop 2 v"

definition value_get16 :: "u8 list \<Rightarrow> u16" where
  "value_get16 v = le16 (v ! 0) (v ! 1)"

definition value_put32 :: "u32 \<Rightarrow> u8 list \<Rightarrow> u8 list" where
  "value_put32 w v = put16 (ucast w) @ put16 (ucast (drop_bit 16 w)) @ drop 4 v"

definition sockaddr_ipv4 :: "u8 list \<Rightarrow> ipv4_address" where
  "sockaddr_ipv4 v = [v ! 4, v ! 5, v ! 6, v ! 7]"

definition write_sockaddr_ipv4 :: "ipv4_address \<Rightarrow> u8 list" where
  "write_sockaddr_ipv4 address = put16 2 @ [0, 0] @ map (\<lambda>i. address ! i) [0, 1, 2, 3] @ replicate 8 0"

definition update_broadcast :: "interface_state \<Rightarrow> interface_state" where
  "update_broadcast s = s\<lparr>if_broadcast := map (\<lambda>i. if_address s ! i OR NOT (if_netmask s ! i)) [0, 1, 2, 3]\<rparr>"

definition apply_interface_ioctl ::
  "interface_state \<Rightarrow> u32 \<Rightarrow> ifreq \<Rightarrow> interface_state \<times> ifreq \<times> interface_control_result" where
  "apply_interface_ioctl s request r =
     (let v = ifr_value r in
      if \<not> interface_name_matches (ifr_name r) then (s, r, If_no_device)
      else if request = siocgifindex then (s, r\<lparr>ifr_value := value_put32 1 v\<rparr>, If_success)
      else if request = siocgifflags then (s, r\<lparr>ifr_value := value_put16 (if_flags s) v\<rparr>, If_success)
      else if request = siocgifmetric then (s, r\<lparr>ifr_value := value_put32 0 v\<rparr>, If_success)
      else if request = siocgifmtu then (s, r\<lparr>ifr_value := value_put32 1500 v\<rparr>, If_success)
      else if request = siocgiftxqlen then (s, r\<lparr>ifr_value := value_put32 1000 v\<rparr>, If_success)
      else if request = siocsifflags then (s\<lparr>if_flags := value_get16 v\<rparr>, r, If_success)
      else if request = siocgifaddr then (s, r\<lparr>ifr_value := write_sockaddr_ipv4 (if_address s)\<rparr>, If_success)
      else if request = siocsifaddr then
        (if value_get16 v \<noteq> 2 then (s, r, If_invalid_argument)
         else (update_broadcast (s\<lparr>if_address := sockaddr_ipv4 v\<rparr>), r, If_success))
      else if request = siocgifnetmask then (s, r\<lparr>ifr_value := write_sockaddr_ipv4 (if_netmask s)\<rparr>, If_success)
      else if request = siocsifnetmask then
        (if value_get16 v \<noteq> 2 then (s, r, If_invalid_argument)
         else (update_broadcast (s\<lparr>if_netmask := sockaddr_ipv4 v\<rparr>), r, If_success))
      else if request = siocgifbrdaddr then (s, r\<lparr>ifr_value := write_sockaddr_ipv4 (if_broadcast s)\<rparr>, If_success)
      else if request = siocsifbrdaddr then
        (if value_get16 v \<noteq> 2 then (s, r, If_invalid_argument)
         else (s\<lparr>if_broadcast := sockaddr_ipv4 v\<rparr>, r, If_success))
      else if request = siocgifhwaddr then
        (s, r\<lparr>ifr_value := put16 1 @ map (\<lambda>i. if_mac s ! i) [0, 1, 2, 3, 4, 5] @ replicate 8 0\<rparr>, If_success)
      else (s, r, If_unsupported))"

section \<open>Properties\<close>

definition interface_ok :: "interface_state \<Rightarrow> bool" where
  "interface_ok s \<longleftrightarrow> length (if_mac s) = 6 \<and> length (if_address s) = 4 \<and> length (if_netmask s) = 4 \<and>
     length (if_broadcast s) = 4"

lemma interface_state_init_ok: "interface_ok interface_state_init"
  by (simp add: interface_ok_def interface_state_init_def)

lemma apply_interface_ioctl_ok:
  "interface_ok s \<Longrightarrow> interface_ok (fst (apply_interface_ioctl s request r))"
  by (simp add: apply_interface_ioctl_def interface_ok_def update_broadcast_def sockaddr_ipv4_def Let_def)

lemma get_put16 [simp]: "value_get16 (value_put16 w v) = w"
  by (simp add: value_get16_def value_put16_def put16_def)

lemma length_4_nths: "length a = 4 \<Longrightarrow> [a ! 0, a ! 1, a ! 2, a ! 3] = a"
  by (auto simp: length_Suc_conv numeral_eq_Suc)

lemma write_sockaddr_round_trip:
  "length a = 4 \<Longrightarrow> sockaddr_ipv4 (write_sockaddr_ipv4 a) = a \<and> value_get16 (write_sockaddr_ipv4 a) = 2 \<and>
   length (write_sockaddr_ipv4 a) = 16"
  using length_4_nths [of a]
  by (simp add: sockaddr_ipv4_def write_sockaddr_ipv4_def value_get16_def put16_def le16_def nth_append)

text \<open>
  C36: on the interface \<open>eth0\<close>, an address, netmask, broadcast address or flag word that is set is what
  the matching request reads back, whatever the request buffer held; setting the address or the mask
  makes the broadcast address the address with all host bits set. Any request with any buffer is refused as
  \<open>no_device\<close> exactly when the buffer names another interface, and a request that fails, for this or any other
  reason, changes neither the interface nor the buffer.
\<close>

theorem interface_set_get:
  assumes "interface_ok s" "interface_name_matches (ifr_name r)" "interface_name_matches (ifr_name q)" "length a = 4"
  shows "(\<forall>(set_request, get_request) \<in> {(siocsifaddr, siocgifaddr), (siocsifnetmask, siocgifnetmask),
        (siocsifbrdaddr, siocgifbrdaddr)}.
      case apply_interface_ioctl s set_request (r\<lparr>ifr_value := write_sockaddr_ipv4 a\<rparr>) of (s', _, result) \<Rightarrow>
        result = If_success \<and>
        apply_interface_ioctl s' get_request q = (s', q\<lparr>ifr_value := write_sockaddr_ipv4 a\<rparr>, If_success) \<and>
        (set_request \<noteq> siocsifbrdaddr \<longrightarrow>
           if_broadcast s' = map2 (\<lambda>x m. x OR NOT m) (if_address s') (if_netmask s'))) \<and>
    (case apply_interface_ioctl s siocsifflags r of (s', _, result) \<Rightarrow>
       result = If_success \<and> (case apply_interface_ioctl s' siocgifflags q of (_, q', result') \<Rightarrow>
         result' = If_success \<and> value_get16 (ifr_value q') = value_get16 (ifr_value r))) \<and>
    (\<forall>request buffer. case apply_interface_ioctl s request buffer of (s', buffer', result) \<Rightarrow>
       (result = If_no_device \<longleftrightarrow> \<not> interface_name_matches (ifr_name buffer)) \<and>
       (result \<noteq> If_success \<longrightarrow> s' = s \<and> buffer' = buffer))"
proof -
  have b: "if_broadcast (update_broadcast t) = map2 (\<lambda>x m. x OR NOT m) (if_address t) (if_netmask t)"
    if "length (if_address t) = 4" "length (if_netmask t) = 4" for t :: interface_state
    using that by (auto simp: update_broadcast_def length_Suc_conv numeral_eq_Suc)
  have u: "if_address (update_broadcast t) = if_address t" "if_netmask (update_broadcast t) = if_netmask t" for t :: interface_state
    by (simp_all add: update_broadcast_def)
  have "case apply_interface_ioctl s request buffer of (s', buffer', result) \<Rightarrow>
       (result = If_no_device \<longleftrightarrow> \<not> interface_name_matches (ifr_name buffer)) \<and>
       (result \<noteq> If_success \<longrightarrow> s' = s \<and> buffer' = buffer)" for request buffer
    by (simp add: apply_interface_ioctl_def Let_def)
  then show ?thesis
    using assms write_sockaddr_round_trip [OF assms(4)] unfolding interface_ok_def
    by (simp add: apply_interface_ioctl_def Let_def b u)
qed

theorem interface_set_get_witness:
  "let r = \<lparr>ifr_name = write_interface_name, ifr_value = replicate 16 7\<rparr>
   in if_broadcast (fst (apply_interface_ioctl interface_state_init siocsifaddr
        (r\<lparr>ifr_value := write_sockaddr_ipv4 [192, 168, 1, 7]\<rparr>))) = [192, 168, 1, 255]"
proof -
  have n: "interface_name_matches write_interface_name" by code_simp
  show ?thesis
    using interface_set_get [of interface_state_init "\<lparr>ifr_name = write_interface_name, ifr_value = replicate 16 7\<rparr>"
        "\<lparr>ifr_name = write_interface_name, ifr_value = replicate 16 7\<rparr>" "[192, 168, 1, 7]"] interface_state_init_ok n
    by (simp add: Let_def apply_interface_ioctl_def write_sockaddr_round_trip update_broadcast_def interface_state_init_def)
qed

end
