(* ===== verification/Net_Timing.thy ===== *)
theory Net_Timing
  imports Prelude
begin

text \<open>
  \<^verbatim>\<open>include/mikos/net/timing.hpp\<close>: the intervals of the TCP timers in clock ticks, the deadline
  test on the wrapping 64-bit clock, and the exponential backoff.
\<close>

section \<open>Definitions\<close>

abbreviation tcp_second :: u64 where "tcp_second \<equiv> 10000000"
abbreviation tcp_initial_rto :: u64 where "tcp_initial_rto \<equiv> 10000000"
abbreviation tcp_max_rto :: u64 where "tcp_max_rto \<equiv> 600000000"
abbreviation tcp_user_timeout :: u64 where "tcp_user_timeout \<equiv> 1200000000"
abbreviation tcp_syn_timeout :: u64 where "tcp_syn_timeout \<equiv> 1200000000"
abbreviation tcp_fin_wait_timeout :: u64 where "tcp_fin_wait_timeout \<equiv> 1200000000"
abbreviation tcp_time_wait :: u64 where "tcp_time_wait \<equiv> 1200000000"
abbreviation tcp_driver_retry :: u64 where "tcp_driver_retry \<equiv> 100000"

definition deadline_reached :: "u64 \<Rightarrow> u64 \<Rightarrow> bool" where
  "deadline_reached now deadline \<longleftrightarrow> now - deadline < 2 ^ 63"

definition backoff :: "u64 \<Rightarrow> u64" where
  "backoff delay = min (delay * 2) tcp_max_rto"

section \<open>Properties\<close>

lemma unat_u64_lt: "unat (w :: u64) < 18446744073709551616"
  using unat_less_exp [of w] by simp

text \<open>A timer armed at time \<open>t\<close> for \<open>d\<close> ticks fires exactly when \<open>d\<close> ticks have passed, across clock wrap.\<close>

lemma deadline_reached_elapsed:
  assumes "d < 2 ^ 63" "e < 2 ^ 63"
  shows "deadline_reached (t + of_nat e) (t + of_nat d) \<longleftrightarrow> d \<le> e"
proof -
  have diff: "t + of_nat e - (t + of_nat d) = (of_nat e - of_nat d :: u64)" by simp
  have u: "unat (of_nat d :: u64) = d" "unat (of_nat e :: u64) = e"
    using assms by (simp_all add: unat_of_nat)
  have p: "unat (2 ^ 63 :: u64) = 2 ^ 63" by simp
  show ?thesis
  proof (cases "d \<le> e")
    case True
    then have "unat (of_nat e - of_nat d :: u64) = e - d"
      using u by (subst unat_sub) (simp_all add: word_le_nat_alt)
    then show ?thesis
      using True assms unfolding deadline_reached_def diff word_less_nat_alt p by simp
  next
    case False
    then have "unat (of_nat e - of_nat d :: u64) = 2 ^ 64 + e - d"
      using u by (simp add: unat_sub_if')
    then show ?thesis
      using False assms unfolding deadline_reached_def diff word_less_nat_alt p by simp
  qed
qed

lemma backoff_bounds:
  assumes "tcp_driver_retry \<le> d" "d \<le> tcp_max_rto"
  shows "d \<le> backoff d" "backoff d \<le> tcp_max_rto"
proof -
  have "unat d \<le> 600000000" using assms(2) by (simp add: word_le_nat_alt)
  then have "unat (d * 2) = 2 * unat d" by (simp add: unat_word_ariths)
  then show "d \<le> backoff d" using assms(2) by (simp add: backoff_def min_def word_le_nat_alt)
  show "backoff d \<le> tcp_max_rto" by (simp add: backoff_def)
qed

end
