(* ===== verification/Socket_Table.thy ===== *)
theory Socket_Table
  imports Ethernet Net_Timing
begin

text \<open>
  \<^verbatim>\<open>include/mikos/net/socket.hpp\<close> (with the socket type of \<^verbatim>\<open>include/mikos/abi/socket.hpp\<close>): the
  table of sockets, binding and listening, the backlog of a listener, and the receive side of a
  connection with its reassembly store.

  A handle is the index of a slot, \<open>invalid_socket\<close> is 255. Arrays are lists of the capacity, a slot of
  the reassembly store is an option, and bounded vectors are lists; \<open>i32\<close> distances of sequence
  numbers are \<open>sint\<close> of the 32-bit difference. A call that changes the table returns it.
\<close>

unbundle bit_operations_syntax

section \<open>Definitions\<close>

abbreviation socket_capacity :: nat where "socket_capacity \<equiv> 13"
abbreviation socket_receive_capacity :: nat where "socket_receive_capacity \<equiv> 4096"
abbreviation listen_backlog_capacity :: nat where "listen_backlog_capacity \<equiv> 4"
abbreviation reassembly_capacity :: nat where "reassembly_capacity \<equiv> 16"
abbreviation reassembly_segment_capacity :: nat where "reassembly_segment_capacity \<equiv> 1500"

datatype socket_type = Stream | Datagram

datatype validation_result =
  Val_success | Val_address_family_not_supported | Val_socket_type_not_supported | Val_protocol_not_supported

definition socket_base_type :: "u32 \<Rightarrow> u32" where
  "socket_base_type t = t AND NOT (0x800 OR 0x80000)"

definition socket_validate :: "u32 \<Rightarrow> u32 \<Rightarrow> u32 \<Rightarrow> validation_result" where
  "socket_validate domain t protocol =
     (if domain \<noteq> 2 then Val_address_family_not_supported
      else let base_type = socket_base_type t
           in if base_type \<noteq> 1 \<and> base_type \<noteq> 2 then Val_socket_type_not_supported
              else if protocol \<noteq> 0 \<and> \<not> (base_type = 1 \<and> protocol = 6) then Val_protocol_not_supported
              else Val_success)"

definition socket_type_of :: "u32 \<Rightarrow> socket_type" where
  "socket_type_of v = (if socket_base_type v = 1 then Stream else Datagram)"

type_synonym socket_handle = nat

abbreviation invalid_socket :: socket_handle where "invalid_socket \<equiv> 255"

datatype socket_state =
  St_free | St_control | St_created | St_bound | St_listening | St_syn_received | St_established | St_close_wait
| St_fin_wait_1 | St_fin_wait_2 | St_closing | St_last_ack | St_time_wait | St_closed | St_reset

datatype socket_result =
  Sr_success | Sr_bad_handle | Sr_wrong_type | Sr_invalid_argument | Sr_address_in_use | Sr_not_bound
| Sr_not_listening | Sr_would_block | Sr_not_connected | Sr_no_space | Sr_reset | Sr_end_of_file | Sr_timed_out

record endpoint =
  ep_address :: ipv4_address
  ep_port :: u16

definition no_endpoint :: endpoint where
  "no_endpoint = \<lparr>ep_address = [0, 0, 0, 0], ep_port = 0\<rparr>"

fun is_connection :: "socket_state \<Rightarrow> bool" where
  "is_connection St_syn_received = True"
| "is_connection St_established = True"
| "is_connection St_close_wait = True"
| "is_connection St_fin_wait_1 = True"
| "is_connection St_fin_wait_2 = True"
| "is_connection St_closing = True"
| "is_connection St_last_ack = True"
| "is_connection St_time_wait = True"
| "is_connection St_reset = True"
| "is_connection _ = False"

record socket_slot =
  sk_state :: socket_state
  sk_type :: socket_type
  sk_local :: endpoint
  sk_remote :: endpoint
  sk_remote_mac :: mac_address
  sk_send_next :: u32
  sk_send_unacknowledged :: u32
  sk_peer_window :: u32
  sk_congestion_window :: u32
  sk_slow_start_threshold :: u32
  sk_congestion_credit :: u32
  sk_duplicate_acks :: u8
  sk_fast_recovery :: bool
  sk_window_sequence :: u32
  sk_window_acknowledgement :: u32
  sk_peer_mss :: u16
  sk_peer_scale :: u8
  sk_scale_negotiated :: bool
  sk_receive_closed :: bool
  sk_read_closed :: bool
  sk_detached :: bool
  sk_fin_sent :: bool
  sk_fin_acked :: bool
  sk_active_close :: bool
  sk_persist_waiting :: bool
  sk_rtt_measured :: bool
  sk_failure :: socket_result
  sk_opened_at :: u64
  sk_progress_at :: u64
  sk_control_retry_at :: u64
  sk_control_delay :: u64
  sk_persist_retry_at :: u64
  sk_persist_delay :: u64
  sk_state_since :: u64
  sk_rto :: u64
  sk_smoothed_rtt :: u64
  sk_rtt_variance :: u64
  sk_receive_next :: u32
  sk_references :: u16
  sk_listener :: socket_handle
  sk_backlog :: u8
  sk_acknowledgement_retries :: u8
  sk_accepted :: bool
  sk_send_closed :: bool
  sk_receive_buffer :: "u8 list"

definition socket_slot_init :: socket_slot where
  "socket_slot_init = \<lparr>sk_state = St_free, sk_type = Datagram, sk_local = no_endpoint, sk_remote = no_endpoint,
     sk_remote_mac = [0, 0, 0, 0, 0, 0], sk_send_next = 0, sk_send_unacknowledged = 0, sk_peer_window = 65535,
     sk_congestion_window = 2144, sk_slow_start_threshold = 65535, sk_congestion_credit = 0, sk_duplicate_acks = 0,
     sk_fast_recovery = False, sk_window_sequence = 0, sk_window_acknowledgement = 0, sk_peer_mss = 536,
     sk_peer_scale = 0, sk_scale_negotiated = False, sk_receive_closed = False, sk_read_closed = False,
     sk_detached = False, sk_fin_sent = False, sk_fin_acked = False, sk_active_close = False,
     sk_persist_waiting = False, sk_rtt_measured = False, sk_failure = Sr_reset, sk_opened_at = 0, sk_progress_at = 0,
     sk_control_retry_at = 0, sk_control_delay = tcp_initial_rto, sk_persist_retry_at = 0,
     sk_persist_delay = tcp_initial_rto, sk_state_since = 0, sk_rto = tcp_initial_rto, sk_smoothed_rtt = 0,
     sk_rtt_variance = 0, sk_receive_next = 0, sk_references = 0, sk_listener = invalid_socket, sk_backlog = 0,
     sk_acknowledgement_retries = 0, sk_accepted = False, sk_send_closed = False, sk_receive_buffer = []\<rparr>"

record reassembly_segment =
  rs_finish :: bool
  rs_data :: "u8 list"

type_synonym reassembly_store = "((socket_handle \<times> u32) \<times> reassembly_segment) option list"

record socket_table =
  st_slots :: "socket_slot list"
  st_reassembly :: reassembly_store

definition socket_table_init :: socket_table where
  "socket_table_init = \<lparr>st_slots = replicate socket_capacity socket_slot_init,
     st_reassembly = replicate reassembly_capacity None\<rparr>"

definition sock_slot :: "socket_table \<Rightarrow> socket_handle \<Rightarrow> socket_slot option" where
  "sock_slot t h = (if h < length (st_slots t) \<and> sk_state (st_slots t ! h) \<noteq> St_free then Some (st_slots t ! h) else None)"

definition put_slot :: "socket_handle \<Rightarrow> socket_slot \<Rightarrow> socket_table \<Rightarrow> socket_table" where
  "put_slot h v t = t\<lparr>st_slots := (st_slots t)[h := v]\<rparr>"

definition sock_unspecified :: "ipv4_address \<Rightarrow> bool" where
  "sock_unspecified address \<longleftrightarrow> address = [0, 0, 0, 0]"

definition sock_allocate :: "socket_table \<Rightarrow> socket_handle" where
  "sock_allocate t = (case first_index (\<lambda>v. sk_state v = St_free) (st_slots t) of Some i \<Rightarrow> i | None \<Rightarrow> invalid_socket)"

definition holds_port :: "endpoint \<Rightarrow> socket_slot \<Rightarrow> bool" where
  "holds_port local v \<longleftrightarrow> sk_type v = Stream \<and> sk_state v \<noteq> St_free \<and> sk_state v \<noteq> St_control \<and>
     ep_port (sk_local v) = ep_port local \<and>
     (sock_unspecified (ep_address (sk_local v)) \<or> sock_unspecified (ep_address local) \<or>
      ep_address (sk_local v) = ep_address local)"

definition port_conflicts :: "socket_table \<Rightarrow> socket_handle \<Rightarrow> endpoint \<Rightarrow> bool" where
  "port_conflicts t excluded local \<longleftrightarrow>
     (\<exists>i \<in> set [0..<length (st_slots t)]. i \<noteq> excluded \<and> holds_port local (st_slots t ! i))"

function ephemeral_port_from :: "socket_table \<Rightarrow> ipv4_address \<Rightarrow> nat \<Rightarrow> u16" where
  "ephemeral_port_from t address port =
     (if port \<le> 65535 then
        (if \<not> port_conflicts t invalid_socket \<lparr>ep_address = address, ep_port = of_nat port\<rparr> then of_nat port
         else ephemeral_port_from t address (port + 1))
      else 0)"
  by pat_completeness auto
termination
  by (relation "measure (\<lambda>(t, address, port). 65536 - port)") auto

declare ephemeral_port_from.simps [simp del]

definition allocate_ephemeral_port :: "socket_table \<Rightarrow> ipv4_address \<Rightarrow> u16" where
  "allocate_ephemeral_port t address = ephemeral_port_from t address 49152"

definition sock_pending :: "socket_table \<Rightarrow> socket_handle \<Rightarrow> nat" where
  "sock_pending t h = length (filter (\<lambda>c. sk_listener c = h \<and> \<not> sk_accepted c) (st_slots t))"

definition clear_reassembly :: "socket_handle \<Rightarrow> reassembly_store \<Rightarrow> reassembly_store" where
  "clear_reassembly h rs = map (\<lambda>s. case s of Some ((k, _), _) \<Rightarrow> if k = h then None else s | None \<Rightarrow> None) rs"

definition sock_open :: "socket_table \<Rightarrow> socket_type \<Rightarrow> socket_table \<times> socket_result \<times> socket_handle" where
  "sock_open t ty =
     (let h = sock_allocate t
      in if h = invalid_socket then (t, Sr_no_space, invalid_socket)
         else (put_slot h ((st_slots t ! h)\<lparr>sk_type := ty,
                 sk_state := (if ty = Datagram then St_control else St_created), sk_references := 1\<rparr>) t,
               Sr_success, h))"

definition sock_retain :: "socket_table \<Rightarrow> socket_handle \<Rightarrow> socket_table \<times> socket_result" where
  "sock_retain t h =
     (case sock_slot t h of
        None \<Rightarrow> (t, Sr_bad_handle)
      | Some v \<Rightarrow> if sk_references v = 0xffff then (t, Sr_bad_handle)
                  else (put_slot h (v\<lparr>sk_references := sk_references v + 1\<rparr>) t, Sr_success))"

text \<open>The loop over the connections a closed listener leaves unaccepted.\<close>

definition drop_pending :: "socket_handle \<Rightarrow> nat \<Rightarrow> socket_table \<Rightarrow> socket_table" where
  "drop_pending h i t =
     (let c = st_slots t ! i
      in if sk_listener c = h \<and> \<not> sk_accepted c
         then \<lparr>st_slots = (st_slots t)[i := socket_slot_init], st_reassembly = clear_reassembly i (st_reassembly t)\<rparr>
         else t)"

definition sock_release :: "socket_table \<Rightarrow> socket_handle \<Rightarrow> socket_table \<times> socket_result" where
  "sock_release t h =
     (case sock_slot t h of
        None \<Rightarrow> (t, Sr_bad_handle)
      | Some v \<Rightarrow>
          if sk_references v = 0 then (t, Sr_bad_handle)
          else let v1 = v\<lparr>sk_references := sk_references v - 1\<rparr>; t1 = put_slot h v1 t
               in if sk_references v1 \<noteq> 0 then (t1, Sr_success)
                  else let t2 = (if sk_state v1 = St_listening then fold (drop_pending h) [0..<length (st_slots t1)] t1 else t1)
                       in (put_slot h socket_slot_init (t2\<lparr>st_reassembly := clear_reassembly h (st_reassembly t2)\<rparr>), Sr_success))"

definition sock_bind :: "socket_table \<Rightarrow> socket_handle \<Rightarrow> endpoint \<Rightarrow> socket_table \<times> socket_result" where
  "sock_bind t h local =
     (case sock_slot t h of
        None \<Rightarrow> (t, Sr_bad_handle)
      | Some v \<Rightarrow>
          if sk_type v \<noteq> Stream then (t, Sr_wrong_type)
          else if sk_state v \<noteq> St_created then (t, Sr_invalid_argument)
          else let local1 = (if ep_port local = 0 then local\<lparr>ep_port := allocate_ephemeral_port t (ep_address local)\<rparr> else local)
               in if ep_port local1 = 0 then (t, Sr_no_space)
                  else if port_conflicts t h local1 then (t, Sr_address_in_use)
                  else (put_slot h (v\<lparr>sk_local := local1, sk_state := St_bound\<rparr>) t, Sr_success))"

definition sock_listen :: "socket_table \<Rightarrow> socket_handle \<Rightarrow> u32 \<Rightarrow> socket_table \<times> socket_result" where
  "sock_listen t h backlog =
     (case sock_slot t h of
        None \<Rightarrow> (t, Sr_bad_handle)
      | Some v \<Rightarrow>
          if sk_type v \<noteq> Stream then (t, Sr_wrong_type)
          else if sk_state v \<noteq> St_bound \<and> sk_state v \<noteq> St_listening then (t, Sr_not_bound)
          else (put_slot h (v\<lparr>sk_backlog := ucast (max 1 (min backlog 4)), sk_state := St_listening\<rparr>) t, Sr_success))"

definition sock_listener :: "socket_table \<Rightarrow> endpoint \<Rightarrow> socket_handle" where
  "sock_listener t local =
     (case first_index (\<lambda>v. sk_state v = St_listening \<and> ep_port (sk_local v) = ep_port local \<and>
              (sock_unspecified (ep_address (sk_local v)) \<or> ep_address (sk_local v) = ep_address local)) (st_slots t) of
        Some i \<Rightarrow> i | None \<Rightarrow> invalid_socket)"

definition sock_connection :: "socket_table \<Rightarrow> endpoint \<Rightarrow> endpoint \<Rightarrow> socket_handle" where
  "sock_connection t local remote =
     (case first_index (\<lambda>v. is_connection (sk_state v) \<and> sk_local v = local \<and> sk_remote v = remote) (st_slots t) of
        Some i \<Rightarrow> i | None \<Rightarrow> invalid_socket)"

definition begin_connection ::
  "socket_table \<Rightarrow> socket_handle \<Rightarrow> endpoint \<Rightarrow> endpoint \<Rightarrow> mac_address \<Rightarrow> u32 \<Rightarrow> u32 \<Rightarrow>
   socket_table \<times> socket_result \<times> socket_handle" where
  "begin_connection t lh local remote remote_mac remote_sequence local_sequence =
     (case sock_slot t lh of
        None \<Rightarrow> (t, Sr_not_listening, invalid_socket)
      | Some l \<Rightarrow>
          if sk_state l \<noteq> St_listening then (t, Sr_not_listening, invalid_socket)
          else (case first_index (\<lambda>c. sk_listener c = lh \<and> sk_remote c = remote \<and> \<not> sk_accepted c) (st_slots t) of
                  Some i \<Rightarrow> (t, Sr_success, i)
                | None \<Rightarrow>
                    if sock_pending t lh \<ge> unat (sk_backlog l) then (t, Sr_no_space, invalid_socket)
                    else let h = sock_allocate t
                         in if h = invalid_socket then (t, Sr_no_space, invalid_socket)
                            else (put_slot h ((st_slots t ! h)\<lparr>sk_state := St_syn_received, sk_type := Stream,
                                    sk_local := local, sk_remote := remote, sk_remote_mac := remote_mac,
                                    sk_send_next := local_sequence + 1, sk_send_unacknowledged := local_sequence,
                                    sk_window_sequence := remote_sequence, sk_window_acknowledgement := local_sequence,
                                    sk_receive_next := remote_sequence + 1, sk_references := 1, sk_listener := lh\<rparr>) t,
                                  Sr_success, h)))"

definition sock_establish :: "socket_table \<Rightarrow> socket_handle \<Rightarrow> u32 \<Rightarrow> socket_table \<times> socket_result" where
  "sock_establish t h acknowledgement =
     (case sock_slot t h of
        None \<Rightarrow> (t, Sr_bad_handle)
      | Some v \<Rightarrow>
          if sk_state v = St_established \<or> sk_state v = St_close_wait then (t, Sr_success)
          else if sk_state v \<noteq> St_syn_received \<or> acknowledgement \<noteq> sk_send_next v then (t, Sr_invalid_argument)
          else (put_slot h (v\<lparr>sk_state := St_established, sk_send_unacknowledged := acknowledgement\<rparr>) t, Sr_success))"

definition acceptable_connection :: "socket_handle \<Rightarrow> socket_slot \<Rightarrow> bool" where
  "acceptable_connection lh c \<longleftrightarrow> sk_listener c = lh \<and> \<not> sk_accepted c \<and>
     (sk_state c = St_established \<or> sk_state c = St_close_wait \<or> sk_state c = St_reset)"

definition sock_accept :: "socket_table \<Rightarrow> socket_handle \<Rightarrow> socket_table \<times> socket_result \<times> socket_handle \<times> endpoint" where
  "sock_accept t lh =
     (case sock_slot t lh of
        None \<Rightarrow> (t, Sr_bad_handle, invalid_socket, no_endpoint)
      | Some l \<Rightarrow>
          if sk_state l \<noteq> St_listening then (t, Sr_not_listening, invalid_socket, no_endpoint)
          else (case first_index (acceptable_connection lh) (st_slots t) of
                  Some i \<Rightarrow> (put_slot i ((st_slots t ! i)\<lparr>sk_accepted := True\<rparr>) t, Sr_success, i, sk_remote (st_slots t ! i))
                | None \<Rightarrow> (t, Sr_would_block, invalid_socket, no_endpoint)))"

definition append_received :: "socket_slot \<Rightarrow> u8 list \<Rightarrow> bool \<Rightarrow> socket_slot \<times> socket_result \<times> nat" where
  "append_received v data finish =
     (let accepted = min (length data) (socket_receive_capacity - length (sk_receive_buffer v));
          v1 = v\<lparr>sk_receive_buffer := sk_receive_buffer v @ take accepted data,
                 sk_receive_next := sk_receive_next v + of_nat accepted\<rparr>;
          v2 = (if finish \<and> accepted = length data
                then v1\<lparr>sk_receive_next := sk_receive_next v1 + 1, sk_receive_closed := True,
                       sk_state := (if sk_state v1 = St_fin_wait_1 then St_closing
                                    else if sk_state v1 = St_fin_wait_2 then St_time_wait else St_close_wait)\<rparr>
                else v1)
      in (v2, Sr_success, accepted))"

definition store_reassembly ::
  "reassembly_store \<Rightarrow> socket_handle \<Rightarrow> u32 \<Rightarrow> u8 list \<Rightarrow> bool \<Rightarrow> reassembly_store \<times> socket_result" where
  "store_reassembly rs h sequence data finish =
     (if length data > reassembly_segment_capacity then (rs, Sr_no_space)
      else if list_ex (\<lambda>s. case s of Some (key, _) \<Rightarrow> key = (h, sequence) | None \<Rightarrow> False) rs then (rs, Sr_success)
      else (case first_index (\<lambda>s. s = None) rs of
              None \<Rightarrow> (rs, Sr_no_space)
            | Some i \<Rightarrow> (rs[i := Some ((h, sequence), \<lparr>rs_finish = finish, rs_data = data\<rparr>)], Sr_success)))"

text \<open>The inner loop of \<open>drain_reassembly\<close>: the closest queued segment at or before \<open>receive_next\<close>.\<close>

definition drain_pick :: "socket_handle \<Rightarrow> u32 \<Rightarrow> reassembly_store \<Rightarrow> nat \<Rightarrow> (nat \<times> u32) option \<Rightarrow> (nat \<times> u32) option" where
  "drain_pick h receive_next rs i selected =
     (case rs ! i of
        None \<Rightarrow> selected
      | Some ((kh, ks), _) \<Rightarrow>
          if kh \<noteq> h \<or> sint (ks - receive_next) > 0 then selected
          else (case selected of
                  None \<Rightarrow> Some (i, ks)
                | Some (_, js) \<Rightarrow> if sint (ks - js) > 0 then Some (i, ks) else selected))"

definition drain_select :: "socket_handle \<Rightarrow> u32 \<Rightarrow> reassembly_store \<Rightarrow> (nat \<times> u32) option" where
  "drain_select h receive_next rs = fold (drain_pick h receive_next rs) [0..<length rs] None"

definition stored :: "reassembly_store \<Rightarrow> nat" where
  "stored rs = length (filter (\<lambda>s. s \<noteq> None) rs)"

text \<open>The selected entry is in the store; it is for this socket and not beyond the expected byte.\<close>

definition eligible :: "socket_handle \<Rightarrow> u32 \<Rightarrow> reassembly_store \<Rightarrow> nat \<Rightarrow> u32 \<Rightarrow> bool" where
  "eligible h rn rs i ks \<longleftrightarrow> i < length rs \<and> (\<exists>seg. rs ! i = Some ((h, ks), seg)) \<and> \<not> sint (ks - rn) > 0"

lemma drain_fold_SomeD:
  "fold (drain_pick h rn rs) is None = Some (i, ks) \<Longrightarrow> set is \<subseteq> {..<length rs} \<Longrightarrow> eligible h rn rs i ks"
proof (induction "is" arbitrary: i ks rule: rev_induct)
  case (snoc j js)
  define sel where "sel = fold (drain_pick h rn rs) js None"
  have step: "drain_pick h rn rs j sel = Some (i, ks)" using snoc.prems(1) by (simp add: sel_def)
  have keep: "sel = Some (i, ks) \<Longrightarrow> eligible h rn rs i ks" using snoc by (simp add: sel_def)
  have j: "j < length rs" using snoc.prems(2) by simp
  show ?case
  proof (cases "rs ! j")
    case None
    then show ?thesis using step keep by (simp add: drain_pick_def)
  next
    case (Some e)
    obtain kh s seg where e: "rs ! j = Some ((kh, s), seg)" using Some by (cases e) auto
    then show ?thesis
      using step keep j by (auto simp: drain_pick_def eligible_def split: if_splits option.splits prod.splits)
  qed
qed simp

lemma drain_select_SomeD: "drain_select h rn rs = Some (i, ks) \<Longrightarrow> eligible h rn rs i ks"
  unfolding drain_select_def by (rule drain_fold_SomeD) auto

lemma stored_clear: "i < length rs \<Longrightarrow> rs ! i \<noteq> None \<Longrightarrow> stored (rs[i := None]) < stored rs"
  using length_filter_update [of i rs "\<lambda>s. s \<noteq> None" None] by (simp add: stored_def)

lemma stored_select: "drain_select h rn rs = Some (i, ks) \<Longrightarrow> stored (rs[i := None]) < stored rs"
  using drain_select_SomeD [of h rn rs i ks] stored_clear [of i rs] by (auto simp: eligible_def)

definition segment_at :: "reassembly_store \<Rightarrow> nat \<Rightarrow> reassembly_segment" where
  "segment_at rs i = snd (the (rs ! i))"

function drain_reassembly ::
  "socket_handle \<Rightarrow> socket_slot \<Rightarrow> reassembly_store \<Rightarrow> nat \<Rightarrow> socket_slot \<times> reassembly_store \<times> socket_result \<times> nat" where
  "drain_reassembly h v rs n =
     (if sk_receive_closed v then (v, clear_reassembly h rs, Sr_success, n)
      else (case drain_select h (sk_receive_next v) rs of
              None \<Rightarrow> (v, rs, Sr_success, n)
            | Some (i, sequence) \<Rightarrow>
                let queued = segment_at rs i;
                    acknowledged = unat (sk_receive_next v - sequence)
                in if acknowledged > length (rs_data queued) \<or>
                      (acknowledged = length (rs_data queued) \<and> \<not> rs_finish queued)
                   then drain_reassembly h v (rs[i := None]) n
                   else let remaining = length (rs_data queued) - acknowledged
                        in if remaining > socket_receive_capacity - length (sk_receive_buffer v)
                           then (v, rs, Sr_success, n)
                           else (case append_received v (drop acknowledged (rs_data queued)) (rs_finish queued) of
                                   (v', result, accepted) \<Rightarrow>
                                     if result \<noteq> Sr_success \<or> accepted \<noteq> remaining
                                     then (v', rs[i := None], result, n + accepted)
                                     else drain_reassembly h v' (rs[i := None]) (n + accepted))))"
  by pat_completeness auto
termination
  by (relation "measure (\<lambda>(h, v, rs, n). stored rs)") (auto intro: stored_select)

declare drain_reassembly.simps [simp del]

text \<open>The part of \<open>receive\<close> behind the trimming of an overlap: \<open>distance\<close> is not negative.\<close>

definition receive_in_window ::
  "socket_table \<Rightarrow> socket_handle \<Rightarrow> socket_slot \<Rightarrow> u32 \<Rightarrow> u8 list \<Rightarrow> bool \<Rightarrow> u32 \<Rightarrow> socket_table \<times> socket_result \<times> nat" where
  "receive_in_window t h v sequence data finish distance =
     (let window = of_nat (socket_receive_capacity - length (sk_receive_buffer v)) :: u32
      in if distance \<ge> window \<and> (data \<noteq> [] \<or> finish) then (t, Sr_success, 0)
         else
           let available = unat (window - distance);
               finish1 = (finish \<and> length data < available);
               data1 = take available data
           in if distance \<noteq> 0 then
                (if data1 = [] \<and> \<not> finish1 then (t, Sr_success, 0)
                 else case store_reassembly (st_reassembly t) h sequence data1 finish1 of
                        (rs, result) \<Rightarrow> (t\<lparr>st_reassembly := rs\<rparr>, result, 0))
              else
                (case append_received v data1 finish1 of
                   (v1, result, accepted) \<Rightarrow>
                     if result \<noteq> Sr_success \<or> accepted \<noteq> length data1 then (put_slot h v1 t, result, accepted)
                     else (case drain_reassembly h v1 (st_reassembly t) 0 of
                             (v2, rs, result2, drained) \<Rightarrow>
                               (put_slot h v2 (t\<lparr>st_reassembly := rs\<rparr>), result2, accepted + drained))))"

definition sock_receive ::
  "socket_table \<Rightarrow> socket_handle \<Rightarrow> u32 \<Rightarrow> u8 list \<Rightarrow> bool \<Rightarrow> socket_table \<times> socket_result \<times> nat" where
  "sock_receive t h sequence data finish =
     (case sock_slot t h of
        None \<Rightarrow> (t, Sr_bad_handle, 0)
      | Some v \<Rightarrow>
          if \<not> is_connection (sk_state v) \<or> sk_state v = St_syn_received \<or> sk_state v = St_reset
          then (t, if sk_state v = St_reset then Sr_reset else Sr_not_connected, 0)
          else if sk_receive_closed v then (t, Sr_success, 0)
          else if sint (sequence - sk_receive_next v) < 0 then
            (let acknowledged = sk_receive_next v - sequence
             in if unat acknowledged > length data \<or> (unat acknowledged = length data \<and> \<not> finish) then (t, Sr_success, 0)
                else receive_in_window t h v (sequence + acknowledged) (drop (unat acknowledged) data) finish 0)
          else receive_in_window t h v sequence data finish (sequence - sk_receive_next v))"

definition sock_read :: "socket_table \<Rightarrow> socket_handle \<Rightarrow> nat \<Rightarrow> socket_table \<times> socket_result \<times> u8 list" where
  "sock_read t h sz =
     (case sock_slot t h of
        None \<Rightarrow> (t, Sr_bad_handle, [])
      | Some v \<Rightarrow>
          if sk_read_closed v then (t, Sr_end_of_file, [])
          else if sk_receive_buffer v = [] then
            (t, (if sk_receive_closed v then Sr_end_of_file
                 else if sk_state v = St_reset then sk_failure v
                 else if \<not> is_connection (sk_state v) \<or> sk_state v = St_syn_received then Sr_not_connected
                 else Sr_would_block), [])
          else
            let count = min sz (length (sk_receive_buffer v));
                v1 = v\<lparr>sk_receive_buffer := drop count (sk_receive_buffer v)\<rparr>
            in (case drain_reassembly h v1 (st_reassembly t) 0 of
                  (v2, rs, _, _) \<Rightarrow>
                    (put_slot h v2 (t\<lparr>st_reassembly := rs\<rparr>), Sr_success, take count (sk_receive_buffer v))))"

definition sock_reset :: "socket_table \<Rightarrow> socket_handle \<Rightarrow> socket_result \<Rightarrow> socket_table" where
  "sock_reset t h failure =
     (case sock_slot t h of
        None \<Rightarrow> t
      | Some v \<Rightarrow>
          if sk_state v = St_syn_received then fst (sock_release t h)
          else put_slot h (v\<lparr>sk_receive_buffer := [], sk_state := St_reset, sk_failure := failure,
                 sk_receive_closed := False, sk_persist_waiting := False\<rparr>)
                 (t\<lparr>st_reassembly := clear_reassembly h (st_reassembly t)\<rparr>))"

definition sock_readable :: "socket_table \<Rightarrow> socket_handle \<Rightarrow> bool" where
  "sock_readable t h \<longleftrightarrow>
     (case sock_slot t h of
        None \<Rightarrow> False
      | Some v \<Rightarrow>
          if sk_state v = St_listening then list_ex (acceptable_connection h) (st_slots t)
          else sk_receive_buffer v \<noteq> [] \<or> sk_receive_closed v \<or> sk_read_closed v \<or> sk_state v = St_reset)"

definition sock_writable :: "socket_table \<Rightarrow> socket_handle \<Rightarrow> bool" where
  "sock_writable t h \<longleftrightarrow>
     (case sock_slot t h of
        None \<Rightarrow> False
      | Some v \<Rightarrow> (sk_state v = St_established \<or> sk_state v = St_close_wait) \<and> \<not> sk_send_closed v)"

section \<open>Receiving a byte stream\<close>

text \<open>
  \<open>S\<close> is the byte stream of the peer and \<open>base\<close> the sequence number of its first byte. Streams are
  shorter than half of the sequence space, so that serial number comparison is comparison of positions.
\<close>

definition stream_piece :: "u32 \<Rightarrow> u8 list \<Rightarrow> u32 \<Rightarrow> u8 list \<Rightarrow> bool \<Rightarrow> nat \<Rightarrow> bool" where
  "stream_piece base S sequence data finish pos \<longleftrightarrow>
     sequence = base + of_nat pos \<and> pos + length data \<le> length S \<and> data = take (length data) (drop pos S) \<and>
     (finish \<longrightarrow> pos + length data = length S)"

lemma sequence_distance:
  assumes "p < 2 ^ 31" "q < 2 ^ 31"
  shows "sint ((base + of_nat p) - (base + of_nat q) :: u32) = int p - int q"
proof -
  define z where "z = int p - int q"
  have z: "- (2 ^ 31) \<le> z" "z < 2 ^ 31" using assms by (simp_all add: z_def)
  have "sint (of_int z :: u32) = signed_take_bit 31 z" by (simp add: signed_of_int)
  also have "\<dots> = z" using z by (intro signed_take_bit_int_eq_self) simp_all
  finally have "sint (of_int z :: u32) = z" .
  moreover have "(base + of_nat p) - (base + of_nat q) = (of_int z :: u32)" by (simp add: z_def)
  ultimately show ?thesis by (simp only: z_def)
qed

lemma sequence_ahead:
  assumes "p < 2 ^ 31" "q \<le> p"
  shows "unat ((base + of_nat p) - (base + of_nat q) :: u32) = p - q"
proof -
  have "(base + of_nat p) - (base + of_nat q) = (of_nat (p - q) :: u32)"
    using assms(2) by simp
  moreover have "p - q < 4294967296" using assms(1) by simp
  ultimately show ?thesis by (simp add: unat_of_nat_u32)
qed

definition rx_live :: "socket_slot \<Rightarrow> bool" where
  "rx_live v \<longleftrightarrow> is_connection (sk_state v) \<and> sk_state v \<noteq> St_syn_received \<and> sk_state v \<noteq> St_reset"

definition rx_ok :: "u32 \<Rightarrow> u8 list \<Rightarrow> u8 list \<Rightarrow> nat \<Rightarrow> socket_slot \<Rightarrow> bool" where
  "rx_ok base S out r v \<longleftrightarrow>
     sk_receive_next v = base + of_nat r + (if sk_receive_closed v then 1 else 0) \<and> r \<le> length S \<and>
     (sk_receive_closed v \<longrightarrow> r = length S) \<and> out @ sk_receive_buffer v = take r S \<and>
     length (sk_receive_buffer v) \<le> socket_receive_capacity \<and> rx_live v"

definition store_ok :: "u32 \<Rightarrow> u8 list \<Rightarrow> socket_handle \<Rightarrow> reassembly_store \<Rightarrow> bool" where
  "store_ok base S h rs \<longleftrightarrow>
     (\<forall>ks seg. Some ((h, ks), seg) \<in> set rs \<longrightarrow>
        (\<exists>pos. stream_piece base S ks (rs_data seg) (rs_finish seg) pos))"

lemma stream_piece_drop:
  "stream_piece base S sequence data finish pos \<Longrightarrow> k \<le> length data \<Longrightarrow>
   stream_piece base S (sequence + of_nat k) (drop k data) finish (pos + k)"
proof -
  assume p: "stream_piece base S sequence data finish pos" and k: "k \<le> length data"
  have "drop k data = drop k (take (length data) (drop pos S))" using p by (simp add: stream_piece_def)
  also have "\<dots> = take (length data - k) (drop (pos + k) S)" by (simp add: drop_take add.commute)
  finally have d: "drop k data = take (length data - k) (drop (pos + k) S)" .
  have "drop k data = take (length (drop k data)) (drop (pos + k) S)" unfolding length_drop by (rule d)
  moreover have "pos + k + length (drop k data) = pos + length data" using k by simp
  ultimately show ?thesis using p unfolding stream_piece_def by (simp only: of_nat_add add.assoc) simp
qed

lemma stream_piece_take:
  "stream_piece base S sequence data finish pos \<Longrightarrow>
   stream_piece base S sequence (take k data) (finish \<and> length data < k) pos"
proof -
  assume p: "stream_piece base S sequence data finish pos"
  have "take k data = take k (take (length data) (drop pos S))" using p by (simp add: stream_piece_def)
  also have "\<dots> = take (length (take k data)) (drop pos S)" by (simp add: min.commute)
  finally have "take k data = take (length (take k data)) (drop pos S)" .
  moreover have "length (take k data) \<le> length data" "length data < k \<Longrightarrow> length (take k data) = length data" by simp_all
  ultimately show ?thesis using p unfolding stream_piece_def by auto
qed

text \<open>Appending the next piece of the stream.\<close>

definition accepted_bytes :: "socket_slot \<Rightarrow> u8 list \<Rightarrow> nat" where
  "accepted_bytes v data = min (length data) (socket_receive_capacity - length (sk_receive_buffer v))"

lemma append_received_snd: "snd (append_received v data finish) = (Sr_success, accepted_bytes v data)"
  by (simp add: append_received_def Let_def accepted_bytes_def)

lemma append_received_fields:
  "sk_receive_buffer (fst (append_received v data finish)) = sk_receive_buffer v @ take (accepted_bytes v data) data"
  "sk_receive_closed (fst (append_received v data finish)) \<longleftrightarrow>
     sk_receive_closed v \<or> finish \<and> accepted_bytes v data = length data"
  "sk_receive_next (fst (append_received v data finish)) =
     sk_receive_next v + of_nat (accepted_bytes v data) + (if finish \<and> accepted_bytes v data = length data then 1 else 0)"
  "rx_live v \<Longrightarrow> rx_live (fst (append_received v data finish))"
  unfolding append_received_def Let_def fst_conv accepted_bytes_def [symmetric] by (auto simp: rx_live_def)

lemma append_received_ok:
  assumes "rx_ok base S out r v" "\<not> sk_receive_closed v" "stream_piece base S (sk_receive_next v) data finish r"
  shows "rx_ok base S out (r + accepted_bytes v data) (fst (append_received v data finish))"
proof -
  define k where "k = accepted_bytes v data"
  have k: "k \<le> length data" "length (sk_receive_buffer v) + k \<le> socket_receive_capacity"
    using assms(1) by (auto simp: k_def accepted_bytes_def rx_ok_def)
  have p: "r + length data \<le> length S" "data = take (length data) (drop r S)" "finish \<longrightarrow> r + length data = length S"
    using assms(3) by (simp_all add: stream_piece_def)
  have "take k data = take k (drop r S)" using p(2) k(1) by (metis min.absorb1 take_take)
  then have "out @ sk_receive_buffer v @ take k data = take (r + k) S"
    using assms(1) by (simp add: rx_ok_def take_add flip: append_assoc)
  then show ?thesis
    using k p assms(1,2) append_received_fields(4) [of v data finish]
    unfolding rx_ok_def append_received_fields(1-3) k_def [symmetric] by simp
qed


lemma store_ok_clear: "store_ok base S h rs \<Longrightarrow> store_ok base S h (rs[i := None])"
  unfolding store_ok_def using set_update_subset_insert [of rs i None] by blast

lemma store_ok_clear_reassembly: "store_ok base S h rs \<Longrightarrow> store_ok base S h (clear_reassembly k rs)"
  unfolding store_ok_def clear_reassembly_def by (auto split: option.splits prod.splits if_splits)

lemma drain_reassembly_ok:
  assumes "rx_ok base S out r v" "store_ok base S h rs" "length S < 2 ^ 31"
    and "drain_reassembly h v rs n = (v', rs', result, n')"
  shows "\<exists>r'. r \<le> r' \<and> rx_ok base S out r' v' \<and> store_ok base S h rs' \<and> n' = n + (r' - r) \<and> result = Sr_success"
  using assms
proof (induction "stored rs" arbitrary: v rs n r rule: less_induct)
  case less
  note prems = less.prems
  show ?case
  proof (cases "sk_receive_closed v")
    case True
    then show ?thesis
      using prems store_ok_clear_reassembly by (auto simp: drain_reassembly.simps [of h v rs n])
  next
    case opn: False
    show ?thesis
    proof (cases "drain_select h (sk_receive_next v) rs")
      case None
      then show ?thesis using prems opn by (auto simp: drain_reassembly.simps [of h v rs n])
    next
      case (Some sel)
      obtain i ks where sel: "drain_select h (sk_receive_next v) rs = Some (i, ks)" using Some by (cases sel) auto
      define q where "q = segment_at rs i"
      define a where "a = unat (sk_receive_next v - ks)"
      from drain_select_SomeD [OF sel] have e: "i < length rs" "rs ! i = Some ((h, ks), q)" "\<not> sint (ks - sk_receive_next v) > 0"
        by (auto simp: eligible_def q_def segment_at_def)
      obtain pos where p: "stream_piece base S ks (rs_data q) (rs_finish q) pos"
        using prems(2) e nth_mem [OF e(1)] unfolding store_ok_def by metis
      have rn: "sk_receive_next v = base + of_nat r" "r \<le> length S" using prems(1) opn by (simp_all add: rx_ok_def)
      have ps: "pos < 2 ^ 31" "r < 2 ^ 31" "ks = base + of_nat pos"
        using p rn(2) prems(3) by (simp_all add: stream_piece_def)
      have "pos \<le> r" using e(3) sequence_distance [OF ps(1,2), of base] unfolding rn(1) ps(3) by simp
      then have a: "a = r - pos" using sequence_ahead [OF ps(2), of pos base] unfolding a_def rn(1) ps(3) by simp
      have unf: "drain_reassembly h v rs n =
          (if a > length (rs_data q) \<or> a = length (rs_data q) \<and> \<not> rs_finish q then drain_reassembly h v (rs[i := None]) n
           else if length (rs_data q) - a > socket_receive_capacity - length (sk_receive_buffer v) then (v, rs, Sr_success, n)
           else (case append_received v (drop a (rs_data q)) (rs_finish q) of
                   (v', result, accepted) \<Rightarrow>
                     if result \<noteq> Sr_success \<or> accepted \<noteq> length (rs_data q) - a
                     then (v', rs[i := None], result, n + accepted)
                     else drain_reassembly h v' (rs[i := None]) (n + accepted)))"
        by (subst drain_reassembly.simps) (simp only: opn if_False sel option.case prod.case Let_def q_def a_def)
      note lt = stored_select [OF sel]
      have clear: "store_ok base S h (rs[i := None])" by (rule store_ok_clear [OF prems(2)])
      consider (covered) "a > length (rs_data q) \<or> a = length (rs_data q) \<and> \<not> rs_finish q"
        | (full) "\<not> (a > length (rs_data q) \<or> a = length (rs_data q) \<and> \<not> rs_finish q)"
            "length (rs_data q) - a > socket_receive_capacity - length (sk_receive_buffer v)"
        | (taken) "\<not> (a > length (rs_data q) \<or> a = length (rs_data q) \<and> \<not> rs_finish q)"
            "\<not> length (rs_data q) - a > socket_receive_capacity - length (sk_receive_buffer v)"
        by blast
      then show ?thesis
      proof cases
        case covered
        then have "drain_reassembly h v (rs[i := None]) n = (v', rs', result, n')"
          using prems(4) unfolding unf if_P [OF covered] by simp
        from less.hyps [OF lt prems(1) clear prems(3) this] show ?thesis .
      next
        case full
        then show ?thesis
          using prems unfolding unf if_not_P [OF full(1)] if_P [OF full(2)] by (intro exI [of _ r]) simp
      next
        case taken
        define d where "d = drop a (rs_data q)"
        define v1 where "v1 = fst (append_received v d (rs_finish q))"
        have acc: "accepted_bytes v d = length (rs_data q) - a" using taken(2) by (simp add: accepted_bytes_def d_def)
        have app: "append_received v d (rs_finish q) = (v1, Sr_success, length (rs_data q) - a)"
          using append_received_snd [of v d "rs_finish q"] by (simp add: v1_def acc prod_eq_iff)
        have "a \<le> length (rs_data q)" using taken(1) by auto
        from stream_piece_drop [OF p this] have "stream_piece base S (sk_receive_next v) d (rs_finish q) r"
          unfolding d_def rn(1) ps(3) a using \<open>pos \<le> r\<close> by (simp add: add.assoc flip: of_nat_add)
        from append_received_ok [OF prems(1) opn this] have ok1: "rx_ok base S out (r + (length (rs_data q) - a)) v1"
          by (simp add: v1_def acc)
        have "drain_reassembly h v1 (rs[i := None]) (n + (length (rs_data q) - a)) = (v', rs', result, n')"
          using prems(4) app unfolding unf if_not_P [OF taken(1)] if_not_P [OF taken(2)] d_def [symmetric] by simp
        from less.hyps [OF lt ok1 clear prems(3) this] obtain r' where "r + (length (rs_data q) - a) \<le> r'" "rx_ok base S out r' v'"
          "store_ok base S h rs'" "n' = n + (length (rs_data q) - a) + (r' - (r + (length (rs_data q) - a)))" "result = Sr_success"
          by blast
        then show ?thesis by (intro exI [of _ r']) simp
      qed
    qed
  qed
qed


lemma put_slot_simps [simp]:
  "length (st_slots (put_slot h v t)) = length (st_slots t)"
  "st_reassembly (put_slot h v t) = st_reassembly t"
  "st_slots (put_slot h v t) = (st_slots t)[h := v]"
  by (simp_all add: put_slot_def)

lemma sock_slot_put:
  "h < length (st_slots t) \<Longrightarrow> sk_state v \<noteq> St_free \<Longrightarrow> sock_slot (put_slot h v t) h = Some v"
  by (simp add: sock_slot_def)

lemma sock_slot_reassembly [simp]: "sock_slot (t\<lparr>st_reassembly := rs\<rparr>) h = sock_slot t h"
  by (simp add: sock_slot_def)

lemma sock_slot_SomeD:
  "sock_slot t h = Some v \<Longrightarrow> h < length (st_slots t) \<and> st_slots t ! h = v \<and> sk_state v \<noteq> St_free"
  by (simp add: sock_slot_def split: if_splits)

lemma rx_live_not_free: "rx_live v \<Longrightarrow> sk_state v \<noteq> St_free"
  by (auto simp: rx_live_def)

lemma store_reassembly_ok:
  assumes "store_ok base S h rs" "stream_piece base S sequence data finish pos"
    and "store_reassembly rs h sequence data finish = (rs', result)"
  shows "store_ok base S h rs'"
proof -
  have "rs' = rs \<or> (\<exists>i. rs' = rs[i := Some ((h, sequence), \<lparr>rs_finish = finish, rs_data = data\<rparr>)])"
    using assms(3) by (auto simp: store_reassembly_def split: if_splits option.splits)
  then show ?thesis
  proof
    assume "\<exists>i. rs' = rs[i := Some ((h, sequence), \<lparr>rs_finish = finish, rs_data = data\<rparr>)]"
    then obtain i where "set rs' \<subseteq> insert (Some ((h, sequence), \<lparr>rs_finish = finish, rs_data = data\<rparr>)) (set rs)"
      using set_update_subset_insert by metis
    with assms(1,2) show ?thesis unfolding store_ok_def by fastforce
  qed (use assms(1) in simp)
qed

definition rx_inv :: "u32 \<Rightarrow> u8 list \<Rightarrow> socket_handle \<Rightarrow> u8 list \<Rightarrow> nat \<Rightarrow> socket_table \<Rightarrow> bool" where
  "rx_inv base S h out r t \<longleftrightarrow>
     (\<exists>v. sock_slot t h = Some v \<and> rx_ok base S out r v) \<and> store_ok base S h (st_reassembly t)"

lemma sock_read_ok:
  assumes "rx_inv base S h out r t" "length S < 2 ^ 31" "sock_read t h sz = (t', result, bytes)"
  shows "\<exists>r'. r \<le> r' \<and> rx_inv base S h (out @ bytes) r' t'"
proof -
  obtain v where v: "sock_slot t h = Some v" "rx_ok base S out r v" and st: "store_ok base S h (st_reassembly t)"
    using assms(1) by (auto simp: rx_inv_def)
  show ?thesis
  proof (cases "sk_read_closed v \<or> sk_receive_buffer v = []")
    case True
    then have "t' = t" "bytes = []" using assms(3) v(1) by (auto simp: sock_read_def split: if_splits)
    then show ?thesis using assms(1) by auto
  next
    case False
    define k where "k = min sz (length (sk_receive_buffer v))"
    define v1 where "v1 = v\<lparr>sk_receive_buffer := drop k (sk_receive_buffer v)\<rparr>"
    obtain v2 rs res n where d: "drain_reassembly h v1 (st_reassembly t) 0 = (v2, rs, res, n)" by (metis prod_cases4)
    have t': "t' = put_slot h v2 (t\<lparr>st_reassembly := rs\<rparr>)" "bytes = take k (sk_receive_buffer v)"
      using assms(3) v(1) False d by (auto simp: sock_read_def Let_def k_def v1_def)
    have "rx_ok base S (out @ bytes) r v1"
      using v(2) by (auto simp: rx_ok_def v1_def t'(2) rx_live_def)
    from drain_reassembly_ok [OF this st assms(2) d] obtain r'
      where r': "r \<le> r'" "rx_ok base S (out @ bytes) r' v2" "store_ok base S h rs" by blast
    moreover have "sock_slot t' h = Some v2"
      unfolding t'(1) using sock_slot_SomeD [OF v(1)] r'(2) rx_live_not_free by (intro sock_slot_put) (auto simp: rx_ok_def)
    ultimately show ?thesis unfolding rx_inv_def t'(1) by auto
  qed
qed


lemma receive_in_window_ok:
  assumes "rx_inv base S h out r t" "sock_slot t h = Some v" "\<not> sk_receive_closed v" "length S < 2 ^ 31"
    and "stream_piece base S sequence data finish pos" "r \<le> pos"
    and "receive_in_window t h v sequence data finish (of_nat (pos - r)) = (t', result, n)"
  shows "\<exists>r'. r \<le> r' \<and> rx_inv base S h out r' t' \<and>
     (pos = r \<longrightarrow> min (pos + length data) (r + (socket_receive_capacity - length (sk_receive_buffer v))) \<le> r')"
proof -
  have v: "rx_ok base S out r v" and st: "store_ok base S h (st_reassembly t)"
    using assms(1,2) by (auto simp: rx_inv_def)
  define f where "f = socket_receive_capacity - length (sk_receive_buffer v)"
  define d where "d = (of_nat (pos - r) :: u32)"
  have "pos \<le> length S" using assms(5) by (simp add: stream_piece_def)
  then have d: "unat d = pos - r" using assms(4) unfolding d_def by (intro unat_of_nat_u32) simp
  have f: "unat (of_nat f :: u32) = f" by (intro unat_of_nat_u32) (simp add: f_def)
  define avail where "avail = unat (of_nat f - d)"
  define fin where "fin = (finish \<and> length data < avail)"
  have piece: "stream_piece base S sequence (take avail data) fin pos"
    unfolding fin_def by (rule stream_piece_take [OF assms(5)])
  note unf = assms(7) [unfolded receive_in_window_def Let_def f_def [symmetric] d_def [symmetric] avail_def [symmetric] fin_def [symmetric]]
  consider (outside) "d \<ge> of_nat f \<and> (data \<noteq> [] \<or> finish)"
    | (queue) "\<not> (d \<ge> of_nat f \<and> (data \<noteq> [] \<or> finish))" "d \<noteq> 0"
    | (inorder) "\<not> (d \<ge> of_nat f \<and> (data \<noteq> [] \<or> finish))" "\<not> d \<noteq> 0" by blast
  then show ?thesis
  proof cases
    case outside
    then have "t' = t" using unf by simp
    moreover have "f = 0" if "pos = r" using outside that d f by (simp add: word_le_nat_alt)
    ultimately show ?thesis using assms(1) by (intro exI [of _ r]) (auto simp: f_def)
  next
    case queue
    have "t' = t \<or> (\<exists>rs. store_reassembly (st_reassembly t) h sequence (take avail data) fin = (rs, result) \<and> t' = t\<lparr>st_reassembly := rs\<rparr>)"
      using unf unfolding if_not_P [OF queue(1)] if_P [OF queue(2)] by (auto split: if_splits prod.splits)
    then have "rx_inv base S h out r t'"
      using assms(1) store_reassembly_ok [OF st piece] by (auto simp: rx_inv_def)
    moreover have "pos \<noteq> r" using queue(2) by (auto simp: d_def)
    ultimately show ?thesis by blast
  next
    case inorder
    then have pr: "pos = r" using d assms(6) by simp
    have sq: "sequence = sk_receive_next v" using assms(3,5) v pr by (simp add: stream_piece_def rx_ok_def)
    have av: "avail = f" using inorder(2) f by (simp add: avail_def)
    define v1 where "v1 = fst (append_received v (take avail data) fin)"
    have acc: "accepted_bytes v (take avail data) = length (take avail data)" by (simp add: accepted_bytes_def av f_def)
    have app: "append_received v (take avail data) fin = (v1, Sr_success, length (take avail data))"
      using append_received_snd [of v "take avail data" fin] unfolding acc by (simp add: v1_def prod_eq_iff)
    have ok1: "rx_ok base S out (r + length (take avail data)) v1"
      using append_received_ok [OF v assms(3), of "take avail data" fin] piece unfolding v1_def acc sq pr by simp
    obtain v2 rs res n2 where dr: "drain_reassembly h v1 (st_reassembly t) 0 = (v2, rs, res, n2)" by (metis prod_cases4)
    have t': "t' = put_slot h v2 (t\<lparr>st_reassembly := rs\<rparr>)"
      using unf unfolding if_not_P [OF inorder(1)] if_not_P [OF inorder(2)] by (simp add: app dr)
    from drain_reassembly_ok [OF ok1 st assms(4) dr] obtain r'
      where r': "r + length (take avail data) \<le> r'" "rx_ok base S out r' v2" "store_ok base S h rs" by blast
    moreover have "sock_slot t' h = Some v2"
      unfolding t' using sock_slot_SomeD [OF assms(2)] r'(2) rx_live_not_free by (intro sock_slot_put) (auto simp: rx_ok_def)
    ultimately have "rx_inv base S h out r' t'" unfolding rx_inv_def t' by auto
    then show ?thesis using r'(1) pr av by (intro exI [of _ r']) (auto simp: f_def)
  qed
qed

lemma sock_receive_ok:
  assumes "rx_inv base S h out r t" "length S < 2 ^ 31"
    and "stream_piece base S sequence data finish pos" "sock_receive t h sequence data finish = (t', result, n)"
  shows "\<exists>r'. r \<le> r' \<and> rx_inv base S h out r' t' \<and>
     (pos \<le> r \<longrightarrow> min (pos + length data)
        (r + (socket_receive_capacity - length (sk_receive_buffer (the (sock_slot t h))))) \<le> r')"
proof -
  obtain v where v: "sock_slot t h = Some v" "rx_ok base S out r v" using assms(1) by (auto simp: rx_inv_def)
  have live: "\<not> (\<not> is_connection (sk_state v) \<or> sk_state v = St_syn_received \<or> sk_state v = St_reset)"
    using v(2) by (simp add: rx_ok_def rx_live_def)
  have p: "sequence = base + of_nat pos" "pos + length data \<le> length S" using assms(3) by (simp_all add: stream_piece_def)
  show ?thesis
  proof (cases "sk_receive_closed v")
    case True
    then have "t' = t" using assms(4) v(1) live by (simp add: sock_receive_def)
    moreover have "r = length S" using True v(2) by (simp add: rx_ok_def)
    ultimately show ?thesis using assms(1) p(2) by (intro exI [of _ r]) simp
  next
    case opn: False
    then have rn: "sk_receive_next v = base + of_nat r" "r \<le> length S" using v(2) by (simp_all add: rx_ok_def)
    have small: "pos < 2 ^ 31" "r < 2 ^ 31" using p(2) rn(2) assms(2) by simp_all
    have sd: "sint (sequence - sk_receive_next v) = int pos - int r"
      unfolding p(1) rn(1) by (rule sequence_distance [OF small])
    show ?thesis
    proof (cases "pos < r")
      case True
      define a where "a = r - pos"
      have a: "sk_receive_next v - sequence = of_nat a" using True by (simp add: p(1) rn(1) a_def)
      have ua: "unat (of_nat a :: u32) = a" using small(2) unfolding a_def by (intro unat_of_nat_u32) simp
      have rec: "sock_receive t h sequence data finish =
          (if a > length data \<or> a = length data \<and> \<not> finish then (t, Sr_success, 0)
           else receive_in_window t h v (sequence + of_nat a) (drop a data) finish 0)"
        unfolding sock_receive_def v(1) option.case if_not_P [OF live] if_not_P [OF opn] sd Let_def a ua
        using True by simp
      show ?thesis
      proof (cases "a > length data \<or> a = length data \<and> \<not> finish")
        case covered: True
        then have "t' = t" using assms(4) unfolding rec by auto
        moreover have "pos + length data \<le> r" using covered True by (auto simp: a_def)
        ultimately show ?thesis using assms(1) by (intro exI [of _ r]) simp
      next
        case False
        have "receive_in_window t h v (sequence + of_nat a) (drop a data) finish (of_nat (r - r)) = (t', result, n)"
          using assms(4) unfolding rec if_not_P [OF False] by simp
        moreover have "stream_piece base S (sequence + of_nat a) (drop a data) finish r"
          using stream_piece_drop [OF assms(3), of a] False True by (auto simp: a_def)
        ultimately obtain r' where "r \<le> r'" "rx_inv base S h out r' t'"
          "min (r + length (drop a data)) (r + (socket_receive_capacity - length (sk_receive_buffer v))) \<le> r'"
          using receive_in_window_ok [OF assms(1) v(1) opn assms(2)] by blast
        moreover have "r + length (drop a data) = pos + length data" using False True by (auto simp: a_def)
        ultimately show ?thesis using v(1) by auto
      qed
    next
      case False
      then have "sequence - sk_receive_next v = of_nat (pos - r)" by (simp add: p(1) rn(1))
      then have "receive_in_window t h v sequence data finish (of_nat (pos - r)) = (t', result, n)"
        using assms(4) False unfolding sock_receive_def v(1) option.case if_not_P [OF live] if_not_P [OF opn] sd by simp
      from receive_in_window_ok [OF assms(1) v(1) opn assms(2,3) _ this] False v(1) show ?thesis by fastforce
    qed
  qed
qed

text \<open>Operations on another socket do not touch the stream.\<close>

lemma drain_store_subset:
  "drain_reassembly h v rs n = (v', rs', result, n') \<Longrightarrow> set rs' \<subseteq> insert None (set rs)"
proof (induction "stored rs" arbitrary: v rs n rule: less_induct)
  case less
  have clear: "set (clear_reassembly h rs) \<subseteq> insert None (set rs)"
    by (auto simp: clear_reassembly_def split: option.splits prod.splits if_splits)
  show ?case
  proof (cases "sk_receive_closed v \<or> drain_select h (sk_receive_next v) rs = None")
    case True
    then show ?thesis using less.prems clear by (auto simp: drain_reassembly.simps [of h v rs n] split: if_splits)
  next
    case False
    then obtain i ks where sel: "drain_select h (sk_receive_next v) rs = Some (i, ks)" by auto
    have upd: "set (rs[i := None]) \<subseteq> insert None (set rs)" by (rule set_update_subset_insert)
    have "rs' = rs \<or> rs' = rs[i := None] \<or> (\<exists>v1 m. drain_reassembly h v1 (rs[i := None]) m = (v', rs', result, n'))"
      using less.prems False sel
      by (subst (asm) drain_reassembly.simps) (auto simp: Let_def split: if_splits prod.splits)
    then show ?thesis using less.hyps [OF stored_select [OF sel]] upd by blast
  qed
qed

lemma rx_inv_other:
  fixes t t' :: socket_table
  assumes "rx_inv base S h out r t" "st_slots t' ! h = st_slots t ! h" "length (st_slots t') = length (st_slots t)"
    and "set (st_reassembly t') \<subseteq> {Some ((k, s), seg) | s seg. True} \<union> insert None (set (st_reassembly t))" "k \<noteq> h"
  shows "rx_inv base S h out r t'"
proof -
  have "sock_slot t' h = sock_slot t h" using assms(2,3) by (simp add: sock_slot_def)
  moreover have "store_ok base S h (st_reassembly t')"
    using assms(1,4,5) unfolding rx_inv_def store_ok_def by blast
  ultimately show ?thesis using assms(1) by (simp add: rx_inv_def)
qed

lemma store_reassembly_subset:
  "store_reassembly rs k sequence data finish = (rs', result) \<Longrightarrow>
   set rs' \<subseteq> {Some ((k, s), seg) | s seg. True} \<union> insert None (set rs)"
  using set_update_subset_insert [of rs _ "Some ((k, sequence), \<lparr>rs_finish = finish, rs_data = data\<rparr>)"]
  by (fastforce simp: store_reassembly_def split: if_splits option.splits)

lemma receive_in_window_other:
  assumes "receive_in_window t k v sequence data finish d = (t', result, n)" "k \<noteq> h"
  shows "st_slots t' ! h = st_slots t ! h \<and> length (st_slots t') = length (st_slots t) \<and>
    set (st_reassembly t') \<subseteq> {Some ((k, s), seg) | s seg. True} \<union> insert None (set (st_reassembly t))"
proof -
  define f avail where "f = (of_nat (socket_receive_capacity - length (sk_receive_buffer v)) :: u32)" and "avail = unat (f - d)"
  define fin where "fin = (finish \<and> length data < avail)"
  note unf = assms(1) [unfolded receive_in_window_def Let_def f_def [symmetric] avail_def [symmetric] fin_def [symmetric]]
  show ?thesis
  proof (cases "d \<ge> f \<and> (data \<noteq> [] \<or> finish) \<or> d \<noteq> 0 \<and> take avail data = [] \<and> \<not> fin")
    case True
    then have "t' = t" using unf by (simp split: if_splits)
    then show ?thesis by auto
  next
    case False
    show ?thesis
    proof (cases "d = 0")
      case True
      obtain v1 r1 a1 where app: "append_received v (take avail data) fin = (v1, r1, a1)" by (metis prod_cases3)
      obtain v2 rs r2 m where dr: "drain_reassembly k v1 (st_reassembly t) 0 = (v2, rs, r2, m)" by (metis prod_cases4)
      have "t' = put_slot k v1 t \<or> t' = put_slot k v2 (t\<lparr>st_reassembly := rs\<rparr>)"
        using unf False True app dr by (simp split: if_splits)
      with drain_store_subset [OF dr] assms(2) show ?thesis by auto
    next
      case False2: False
      obtain rs r1 where st: "store_reassembly (st_reassembly t) k sequence (take avail data) fin = (rs, r1)"
        by (metis surj_pair)
      have "t' = t\<lparr>st_reassembly := rs\<rparr>" using unf False False2 st by (simp split: if_splits)
      with store_reassembly_subset [OF st] show ?thesis by simp
    qed
  qed
qed

lemma sock_receive_other:
  assumes "sock_receive t k sequence data finish = (t', result, n)" "k \<noteq> h" "rx_inv base S h out r t"
  shows "rx_inv base S h out r t'"
proof -
  have "t' = t \<or> (\<exists>v s d f x. receive_in_window t k v s d f x = (t', result, n))"
    using assms(1) by (auto simp: sock_receive_def Let_def split: if_splits option.splits)
  then show ?thesis
  proof
    assume "\<exists>v s d f x. receive_in_window t k v s d f x = (t', result, n)"
    then obtain v s d f x where "receive_in_window t k v s d f x = (t', result, n)" by blast
    from receive_in_window_other [OF this assms(2)] show ?thesis
      using rx_inv_other [OF assms(3)] assms(2) by blast
  qed (use assms(3) in simp)
qed

lemma sock_read_other:
  assumes "sock_read t k sz = (t', result, bytes)" "k \<noteq> h" "rx_inv base S h out r t"
  shows "rx_inv base S h out r t'"
proof -
  have "t' = t \<or> (\<exists>v v2 rs res n. drain_reassembly k v (st_reassembly t) 0 = (v2, rs, res, n) \<and>
      t' = put_slot k v2 (t\<lparr>st_reassembly := rs\<rparr>))"
    using assms(1) by (auto simp: sock_read_def Let_def split: if_splits option.splits prod.splits) blast
  then show ?thesis
  proof
    assume "\<exists>v v2 rs res n. drain_reassembly k v (st_reassembly t) 0 = (v2, rs, res, n) \<and> t' = put_slot k v2 (t\<lparr>st_reassembly := rs\<rparr>)"
    then obtain v v2 rs res n where "drain_reassembly k v (st_reassembly t) 0 = (v2, rs, res, n)"
      and t': "t' = put_slot k v2 (t\<lparr>st_reassembly := rs\<rparr>)" by blast
    with drain_store_subset have "set (st_reassembly t') \<subseteq> insert None (set (st_reassembly t))" by fastforce
    then show ?thesis using rx_inv_other [OF assms(3), of t' k] assms(2) t' by auto
  qed (use assms(3) in simp)
qed

datatype rx_op = Rx_segment socket_handle u32 "u8 list" bool | Rx_read socket_handle nat

text \<open>One operation of a run; the bytes read from socket \<open>h\<close> are collected.\<close>

fun rx_step :: "socket_handle \<Rightarrow> rx_op \<Rightarrow> socket_table \<times> u8 list \<Rightarrow> socket_table \<times> u8 list" where
  "rx_step h (Rx_segment k sequence data finish) (t, out) = (fst (sock_receive t k sequence data finish), out)"
| "rx_step h (Rx_read k sz) (t, out) =
     (case sock_read t k sz of (t', _, bytes) \<Rightarrow> (t', if k = h then out @ bytes else out))"

definition rx_run :: "socket_handle \<Rightarrow> rx_op list \<Rightarrow> socket_table \<Rightarrow> socket_table \<times> u8 list" where
  "rx_run h ops t = fold (rx_step h) ops (t, [])"

definition rx_op_ok :: "u32 \<Rightarrow> u8 list \<Rightarrow> socket_handle \<Rightarrow> rx_op \<Rightarrow> bool" where
  "rx_op_ok base S h op \<longleftrightarrow>
     (\<forall>sequence data finish. op = Rx_segment h sequence data finish \<longrightarrow> (\<exists>pos. stream_piece base S sequence data finish pos))"

lemma rx_step_ok:
  assumes "rx_inv base S h out r t" "length S < 2 ^ 31" "rx_op_ok base S h op" "rx_step h op (t, out) = (t', out')"
  shows "\<exists>r'. r \<le> r' \<and> rx_inv base S h out' r' t'"
proof (cases op)
  case (Rx_segment k sequence data finish)
  obtain res n where e: "sock_receive t k sequence data finish = (t', res, n)" "out' = out"
    using assms(4) Rx_segment by (metis Pair_inject fst_conv prod_cases3 rx_step.simps(1))
  show ?thesis
  proof (cases "k = h")
    case True
    then obtain pos where "stream_piece base S sequence data finish pos"
      using assms(3) Rx_segment by (auto simp: rx_op_ok_def)
    from sock_receive_ok [OF assms(1,2) this] e True show ?thesis by blast
  next
    case False
    from sock_receive_other [OF e(1) False assms(1)] e(2) show ?thesis by blast
  qed
next
  case (Rx_read k sz)
  obtain res bytes where e: "sock_read t k sz = (t', res, bytes)" "out' = (if k = h then out @ bytes else out)"
    using assms(4) Rx_read by (auto split: prod.splits)
  then show ?thesis
    using sock_read_ok [OF assms(1,2)] sock_read_other [of t k sz t' res bytes h, OF _ _ assms(1)] by (cases "k = h") auto
qed

lemma rx_fold_ok:
  assumes "length S < 2 ^ 31" "list_all (rx_op_ok base S h) ops" "rx_inv base S h out r t"
    and "fold (rx_step h) ops (t, out) = (t', out')"
  shows "\<exists>r'. r \<le> r' \<and> rx_inv base S h out' r' t'"
  using assms(2-4)
proof (induction ops arbitrary: t out r)
  case (Cons op ops)
  obtain t1 out1 where s: "rx_step h op (t, out) = (t1, out1)" by (cases "rx_step h op (t, out)")
  from rx_step_ok [OF Cons.prems(2) assms(1) _ s] Cons.prems(1) obtain r1
    where "r \<le> r1" "rx_inv base S h out1 r1 t1" by auto
  moreover have "fold (rx_step h) ops (t1, out1) = (t', out')" using Cons.prems(3) s by simp
  ultimately obtain r' where "r1 \<le> r'" "rx_inv base S h out' r' t'" using Cons.IH Cons.prems(1) by force
  then show ?case using \<open>r \<le> r1\<close> by (auto intro: le_trans)
qed auto

text \<open>
  C30: whatever the order, overlap, repetition and loss of the segments of a connection, and however
  reads and the traffic of other sockets are interleaved with them, the bytes read from the socket
  followed by those in its receive buffer are a prefix of the byte stream of the peer; the next expected
  sequence number counts exactly these bytes, the buffer stays within its capacity, and the socket is
  closed for receiving only after the whole stream has arrived.
\<close>

theorem socket_stream_prefix:
  assumes "sock_slot t h = Some v" "rx_live v" "sk_receive_buffer v = []" "\<not> sk_receive_closed v"
    and "sk_receive_next v = base" "\<forall>e \<in> set (st_reassembly t). \<forall>s seg. e \<noteq> Some ((h, s), seg)"
    and "length S < 2 ^ 31" "list_all (rx_op_ok base S h) ops" "rx_run h ops t = (t', out)"
  shows "\<exists>v' r. sock_slot t' h = Some v' \<and> out @ sk_receive_buffer v' = take r S \<and> r \<le> length S \<and>
     sk_receive_next v' = base + of_nat r + (if sk_receive_closed v' then 1 else 0) \<and>
     length (sk_receive_buffer v') \<le> socket_receive_capacity \<and> (sk_receive_closed v' \<longrightarrow> r = length S)"
proof -
  have "rx_inv base S h [] 0 t"
    using assms(1-6) by (auto simp: rx_inv_def rx_ok_def store_ok_def)
  from rx_fold_ok [OF assms(7,8) this] assms(9) obtain r where "rx_inv base S h out r t'"
    by (auto simp: rx_run_def)
  then show ?thesis unfolding rx_inv_def rx_ok_def by blast
qed

text \<open>
  C31: a segment that starts at or before the next expected byte is accepted at once as far as the
  receive buffer has room: afterwards the socket expects a byte behind the segment, or its buffer was
  filled.
\<close>

theorem socket_receive_progress:
  assumes "rx_inv base S h out r t" "length S < 2 ^ 31" "stream_piece base S sequence data finish pos" "pos \<le> r"
    and "sock_receive t h sequence data finish = (t', result, n)" "sock_slot t h = Some v"
  shows "\<exists>r'. rx_inv base S h out r' t' \<and>
     min (pos + length data) (r + (socket_receive_capacity - length (sk_receive_buffer v))) \<le> r'"
  using sock_receive_ok [OF assms(1-3,5)] assms(4,6) by auto

definition demo_sockets :: socket_table where
  "demo_sockets = put_slot 1 (socket_slot_init\<lparr>sk_state := St_established, sk_type := Stream,
     sk_receive_next := 0xfffffffe\<rparr>) socket_table_init"

definition demo_segments :: "rx_op list" where
  "demo_segments = [Rx_segment 1 1 [4, 5, 6] True, Rx_read 1 10, Rx_segment 1 0xfffffffe [1, 2, 3] False, Rx_read 1 4]"

lemma demo_sockets_slot:
  "sock_slot demo_sockets 1 = Some (socket_slot_init\<lparr>sk_state := St_established, sk_type := Stream, sk_receive_next := 0xfffffffe\<rparr>)"
  "st_reassembly demo_sockets = replicate 16 None"
  by (simp_all add: demo_sockets_def socket_table_init_def sock_slot_def)

lemma demo_pieces:
  "stream_piece 0xfffffffe [1, 2, 3, 4, 5, 6] 1 [4, 5, 6] True 3"
  "stream_piece 0xfffffffe [1, 2, 3, 4, 5, 6] 0xfffffffe [1, 2, 3] False 0"
  by code_simp+

lemma demo_run: "snd (rx_run 1 demo_segments demo_sockets) = [1, 2, 3, 4]"
  by code_simp

theorem socket_stream_prefix_witness:
  "snd (rx_run 1 demo_segments demo_sockets) = [1, 2, 3, 4] \<and>
   (\<exists>v r. sock_slot (fst (rx_run 1 demo_segments demo_sockets)) 1 = Some v \<and>
      [1, 2, 3, 4] @ sk_receive_buffer v = take r [1, 2, 3, 4, 5, 6])"
proof -
  have ops: "list_all (rx_op_ok 0xfffffffe [1, 2, 3, 4, 5, 6] 1) demo_segments"
    using demo_pieces by (auto simp: demo_segments_def rx_op_ok_def)
  obtain t' where run: "rx_run 1 demo_segments demo_sockets = (t', [1, 2, 3, 4])"
    using demo_run by (metis prod.collapse)
  show ?thesis
    using socket_stream_prefix [OF demo_sockets_slot(1) _ _ _ _ _ _ ops run] demo_sockets_slot(2) run
    by (auto simp: rx_live_def socket_slot_init_def)
qed

theorem socket_receive_progress_witness:
  "\<exists>r. rx_inv 0xfffffffe [1, 2, 3, 4, 5, 6] 1 [] r (fst (sock_receive demo_sockets 1 0xfffffffe [1, 2, 3] False)) \<and> 3 \<le> r"
proof -
  have "rx_inv 0xfffffffe [1, 2, 3, 4, 5, 6] 1 [] 0 demo_sockets"
    using demo_sockets_slot by (auto simp: rx_inv_def rx_ok_def store_ok_def rx_live_def socket_slot_init_def)
  moreover obtain t' res n where "sock_receive demo_sockets 1 0xfffffffe [1, 2, 3] False = (t', res, n)" by (metis prod_cases3)
  ultimately show ?thesis
    using socket_receive_progress [OF _ _ demo_pieces(2) _ _ demo_sockets_slot(1)] by (fastforce simp: socket_slot_init_def)
qed

section \<open>The table invariant\<close>

text \<open>The endpoint a socket holds for listening.\<close>

definition binding :: "socket_slot \<Rightarrow> endpoint option" where
  "binding v = (if sk_state v = St_bound \<or> sk_state v = St_listening then Some (sk_local v) else None)"

definition overlaps :: "endpoint \<Rightarrow> endpoint \<Rightarrow> bool" where
  "overlaps a b \<longleftrightarrow> ep_port a = ep_port b \<and>
     (sock_unspecified (ep_address a) \<or> sock_unspecified (ep_address b) \<or> ep_address a = ep_address b)"

definition slot_ok :: "socket_slot \<Rightarrow> bool" where
  "slot_ok v \<longleftrightarrow> (sk_state v = St_free \<longrightarrow> v = socket_slot_init) \<and> (sk_state v \<noteq> St_free \<longrightarrow> sk_references v \<noteq> 0) \<and>
     (binding v \<noteq> None \<longrightarrow> sk_type v = Stream) \<and> unat (sk_backlog v) \<le> listen_backlog_capacity \<and>
     length (sk_receive_buffer v) \<le> socket_receive_capacity"

definition pending_for :: "socket_handle \<Rightarrow> socket_slot \<Rightarrow> bool" where
  "pending_for lh c \<longleftrightarrow> sk_listener c = lh \<and> \<not> sk_accepted c"

definition slots_ok :: "socket_slot list \<Rightarrow> bool" where
  "slots_ok ss \<longleftrightarrow> length ss = socket_capacity \<and> list_all slot_ok ss \<and>
     (\<forall>i < length ss. \<forall>j < length ss. \<forall>a b. i \<noteq> j \<longrightarrow> binding (ss ! i) = Some a \<longrightarrow> binding (ss ! j) = Some b \<longrightarrow> \<not> overlaps a b) \<and>
     (\<forall>lh < socket_capacity. length (filter (pending_for lh) ss) \<le> listen_backlog_capacity)"

lemma slot_init_simps [simp]:
  "sk_state socket_slot_init = St_free" "sk_listener socket_slot_init = invalid_socket" "binding socket_slot_init = None"
  "sk_receive_buffer socket_slot_init = []" "sk_backlog socket_slot_init = 0" "sk_accepted socket_slot_init = False"
  by (simp_all add: socket_slot_init_def binding_def)

lemma slot_init_ok [simp]: "slot_ok socket_slot_init"
  by (simp add: slot_ok_def)

lemma slots_ok_init: "slots_ok (st_slots socket_table_init)"
  by (auto simp: slots_ok_def socket_table_init_def list_all_length pending_for_def)

lemma slots_ok_update:
  assumes "slots_ok ss" "h < length ss" "slot_ok v"
    and "\<And>a. binding v = Some a \<Longrightarrow> binding (ss ! h) = Some a \<or>
          (\<forall>i < length ss. i \<noteq> h \<longrightarrow> (\<forall>b. binding (ss ! i) = Some b \<longrightarrow> \<not> overlaps a b))"
    and "\<And>lh. lh < socket_capacity \<Longrightarrow> pending_for lh v \<Longrightarrow> \<not> pending_for lh (ss ! h) \<Longrightarrow>
          length (filter (pending_for lh) ss) < listen_backlog_capacity"
  shows "slots_ok (ss[h := v])"
proof -
  have sym: "overlaps a b \<longleftrightarrow> overlaps b a" for a b by (auto simp: overlaps_def)
  have no: "\<not> overlaps a b" if "i < length ss" "i \<noteq> h" "binding v = Some a" "binding (ss ! i) = Some b" for i a b
    using assms(1,2,4) that unfolding slots_ok_def by metis
  have "length (filter (pending_for lh) (ss[h := v])) \<le> listen_backlog_capacity" if "lh < socket_capacity" for lh
    using length_filter_update [OF assms(2), of "pending_for lh" v] assms(1,5) that
    by (cases "pending_for lh v"; cases "pending_for lh (ss ! h)") (fastforce simp: slots_ok_def)+
  moreover have "\<not> overlaps a b" if "i < length ss" "j < length ss" "i \<noteq> j" "binding (ss[h := v] ! i) = Some a"
    "binding (ss[h := v] ! j) = Some b" for i j a b
    using assms(1) no [of j] no [of i] sym that unfolding slots_ok_def
    by (cases "i = h"; cases "j = h") (simp_all, blast+)
  ultimately show ?thesis
    using assms(1,3) unfolding slots_ok_def by (simp add: list_all_update)
qed

lemma slots_ok_nth: "slots_ok ss \<Longrightarrow> h < length ss \<Longrightarrow> slot_ok (ss ! h)"
  by (simp add: slots_ok_def list_all_length)

lemma slots_ok_keep:
  assumes "slots_ok ss" "h < length ss" "slot_ok v" "binding v = None \<or> binding v = binding (ss ! h)"
    and "sk_listener v = sk_listener (ss ! h) \<or> sk_listener v = invalid_socket" "sk_accepted (ss ! h) \<longrightarrow> sk_accepted v"
  shows "slots_ok (ss[h := v])"
  by (rule slots_ok_update [OF assms(1-3)]) (use assms(4-6) in \<open>auto simp: pending_for_def\<close>)

lemma slots_ok_clear: "slots_ok ss \<Longrightarrow> h < length ss \<Longrightarrow> slots_ok (ss[h := socket_slot_init])"
  by (rule slots_ok_update) (auto simp: pending_for_def)

text \<open>What receiving keeps of a slot.\<close>

definition rx_rest :: "socket_slot \<Rightarrow> socket_slot" where
  "rx_rest v = v\<lparr>sk_state := St_free, sk_receive_buffer := [], sk_receive_next := 0, sk_receive_closed := False\<rparr>"

lemma rx_rest_field: "rx_rest v' = rx_rest v \<Longrightarrow> (\<And>w. f (rx_rest w) = f w) \<Longrightarrow> f v' = f v"
  by metis

lemma rx_rest_fields:
  assumes "rx_rest v' = rx_rest v"
  shows "sk_type v' = sk_type v"
    "sk_local v' = sk_local v"
    "sk_remote v' = sk_remote v"
    "sk_remote_mac v' = sk_remote_mac v"
    "sk_send_next v' = sk_send_next v"
    "sk_send_unacknowledged v' = sk_send_unacknowledged v"
    "sk_peer_window v' = sk_peer_window v"
    "sk_congestion_window v' = sk_congestion_window v"
    "sk_slow_start_threshold v' = sk_slow_start_threshold v"
    "sk_congestion_credit v' = sk_congestion_credit v"
    "sk_duplicate_acks v' = sk_duplicate_acks v"
    "sk_fast_recovery v' = sk_fast_recovery v"
    "sk_peer_mss v' = sk_peer_mss v"
    "sk_peer_scale v' = sk_peer_scale v"
    "sk_scale_negotiated v' = sk_scale_negotiated v"
    "sk_read_closed v' = sk_read_closed v"
    "sk_detached v' = sk_detached v"
    "sk_fin_sent v' = sk_fin_sent v"
    "sk_fin_acked v' = sk_fin_acked v"
    "sk_active_close v' = sk_active_close v"
    "sk_persist_waiting v' = sk_persist_waiting v"
    "sk_rto v' = sk_rto v"
    "sk_listener v' = sk_listener v"
    "sk_accepted v' = sk_accepted v"
    "sk_references v' = sk_references v"
    "sk_backlog v' = sk_backlog v"
    "sk_send_closed v' = sk_send_closed v"
    "sk_acknowledgement_retries v' = sk_acknowledgement_retries v"
  by (rule rx_rest_field [OF assms], simp add: rx_rest_def)+

definition rx_frame :: "socket_slot \<Rightarrow> socket_slot \<Rightarrow> bool" where
  "rx_frame v v' \<longleftrightarrow> rx_rest v' = rx_rest v \<and>
     (sk_state v' = sk_state v \<or> sk_state v' \<in> {St_closing, St_close_wait} \<or> sk_state v' = St_time_wait \<and> sk_state v = St_fin_wait_2) \<and>
     (length (sk_receive_buffer v) \<le> socket_receive_capacity \<longrightarrow> length (sk_receive_buffer v') \<le> socket_receive_capacity)"

lemma rx_frame_refl [simp]: "rx_frame v v"
  by (simp add: rx_frame_def)

lemmas rx_frame_fields = rx_rest_fields [OF conjunct1 [OF rx_frame_def [THEN iffD1]]]

lemma rx_frame_trans: "rx_frame u v \<Longrightarrow> rx_frame v w \<Longrightarrow> rx_frame u w"
  unfolding rx_frame_def by auto

lemma append_received_frame: "rx_frame v (fst (append_received v data finish))"
  unfolding append_received_def Let_def fst_conv by (auto simp: rx_frame_def rx_rest_def)

lemma drain_reassembly_step:
  assumes "\<not> sk_receive_closed v" "drain_select h (sk_receive_next v) rs = Some (i, ks)"
  obtains "drain_reassembly h v rs n = (v, rs, Sr_success, n)"
  | data finish m where "drain_reassembly h v rs n = (fst (append_received v data finish), rs[i := None], Sr_success, m)"
  | "drain_reassembly h v rs n = drain_reassembly h v (rs[i := None]) n"
  | data finish m where "drain_reassembly h v rs n = drain_reassembly h (fst (append_received v data finish)) (rs[i := None]) m"
proof -
  define data finish where "data = drop (unat (sk_receive_next v - ks)) (rs_data (segment_at rs i))"
    and "finish = rs_finish (segment_at rs i)"
  define v1 acc where "v1 = fst (append_received v data finish)" and "acc = accepted_bytes v data"
  have a: "append_received v data finish = (v1, Sr_success, acc)"
    using append_received_snd [of v data finish] by (simp add: v1_def acc_def prod_eq_iff)
  have "drain_reassembly h v rs n = (v, rs, Sr_success, n) \<or>
    drain_reassembly h v rs n = drain_reassembly h v (rs[i := None]) n \<or>
    drain_reassembly h v rs n = (v1, rs[i := None], Sr_success, n + acc) \<or>
    drain_reassembly h v rs n = drain_reassembly h v1 (rs[i := None]) (n + acc)"
    unfolding drain_reassembly.simps [of h v rs n] if_not_P [OF assms(1)] assms(2) option.case prod.case Let_def
      data_def [symmetric] finish_def [symmetric] a
    by (simp only: split: if_split) blast
  then show thesis using that unfolding v1_def by blast
qed

lemma drain_reassembly_frame:
  "drain_reassembly h v rs n = (v', rs', result, n') \<Longrightarrow> rx_frame v v'"
proof (induction "stored rs" arbitrary: v rs n rule: less_induct)
  case less
  note refl = rx_frame_refl [of v]
  show ?case
  proof (cases "sk_receive_closed v \<or> drain_select h (sk_receive_next v) rs = None")
    case True
    then show ?thesis using less.prems refl by (auto simp: drain_reassembly.simps [of h v rs n] split: if_splits)
  next
    case False
    then obtain i ks where sel: "drain_select h (sk_receive_next v) rs = Some (i, ks)" by auto
    have opn: "\<not> sk_receive_closed v" using False by simp
    note IH = less.hyps [OF stored_select [OF sel]]
    from opn sel show ?thesis
    proof (cases rule: drain_reassembly_step [of _ _ _ _ _ n])
      case 4
      then show ?thesis using less.prems IH rx_frame_trans [OF append_received_frame] by metis
    qed (use less.prems IH refl append_received_frame in auto)
  qed
qed

lemma slots_ok_rx:
  assumes "slots_ok ss" "h < length ss" "rx_frame (ss ! h) v" "sk_state (ss ! h) \<noteq> St_free"
  shows "slots_ok (ss[h := v])"
proof (rule slots_ok_keep [OF assms(1,2)])
  show "slot_ok v" "binding v = None \<or> binding v = binding (ss ! h)"
    using slots_ok_nth [OF assms(1,2)] assms(3,4) rx_frame_fields(1,2,25,26) [OF assms(3)]
    by (auto simp: slot_ok_def rx_frame_def binding_def)
qed (use rx_frame_fields(23,24) [OF assms(3)] in auto)

lemma sock_allocate_free:
  assumes "slots_ok (st_slots t)" "sock_allocate t \<noteq> invalid_socket"
  shows "sock_allocate t < length (st_slots t) \<and> st_slots t ! sock_allocate t = socket_slot_init"
proof -
  obtain i where i: "first_index (\<lambda>v. sk_state v = St_free) (st_slots t) = Some i" "sock_allocate t = i"
    using assms(2) by (auto simp: sock_allocate_def split: option.splits)
  with first_index_SomeD [OF i(1)] slots_ok_nth [OF assms(1), of i] show ?thesis by (simp add: slot_ok_def)
qed

lemma sock_open_ok: "slots_ok (st_slots t) \<Longrightarrow> slots_ok (st_slots (fst (sock_open t ty)))"
proof -
  assume t: "slots_ok (st_slots t)"
  show ?thesis
  proof (cases "sock_allocate t = invalid_socket")
    case False
    with sock_allocate_free [OF t] show ?thesis
      by (auto simp: sock_open_def Let_def intro!: slots_ok_keep [OF t]) (auto simp: slot_ok_def binding_def)
  qed (use t in \<open>simp add: sock_open_def\<close>)
qed

lemma sock_retain_ok: "slots_ok (st_slots t) \<Longrightarrow> slots_ok (st_slots (fst (sock_retain t h)))"
proof (cases "sock_slot t h")
  case (Some v)
  assume t: "slots_ok (st_slots t)"
  note v = sock_slot_SomeD [OF Some]
  have "sk_references v + 1 \<noteq> 0" if "sk_references v \<noteq> 0xffff" using u16_inc_nonzero that by blast
  then show ?thesis
    using slots_ok_nth [OF t, of h] v t Some
    by (auto simp: sock_retain_def intro!: slots_ok_keep [OF t]) (auto simp: slot_ok_def binding_def)
qed (simp add: sock_retain_def)

lemma fold_drop_pending_ok:
  "slots_ok ((st_slots t)[h := socket_slot_init]) \<Longrightarrow> set is \<subseteq> {..<socket_capacity} \<Longrightarrow>
   slots_ok ((st_slots (fold (drop_pending h) is t))[h := socket_slot_init])"
proof (induction "is" arbitrary: t)
  case (Cons i "is")
  have "length (st_slots t) = socket_capacity" using Cons.prems(1) by (simp add: slots_ok_def)
  then have "slots_ok ((st_slots (drop_pending h i t))[h := socket_slot_init])"
    using Cons.prems slots_ok_clear [OF Cons.prems(1), of i]
    by (cases "i = h") (auto simp: drop_pending_def Let_def list_update_swap)
  with Cons show ?case by simp
qed simp

lemma sock_release_ok: "slots_ok (st_slots t) \<Longrightarrow> slots_ok (st_slots (fst (sock_release t h)))"
proof (cases "sock_slot t h")
  case (Some v)
  assume t: "slots_ok (st_slots t)"
  note v = sock_slot_SomeD [OF Some]
  define v1 where "v1 = v\<lparr>sk_references := sk_references v - 1\<rparr>"
  define t1 where "t1 = put_slot h v1 t"
  have t1: "slots_ok (st_slots t1)" if "sk_references v1 \<noteq> 0"
    using slots_ok_nth [OF t, of h] v that unfolding t1_def put_slot_simps
    by (intro slots_ok_keep [OF t]) (auto simp: v1_def slot_ok_def binding_def)
  define t2 where "t2 = (if sk_state v1 = St_listening then fold (drop_pending h) [0..<length (st_slots t1)] t1 else t1)"
  have "slots_ok ((st_slots t1)[h := socket_slot_init])" using slots_ok_clear [OF t, of h] v by (simp add: t1_def)
  moreover have "set [0..<length (st_slots t1)] \<subseteq> {..<socket_capacity}" using t by (auto simp: t1_def slots_ok_def)
  ultimately have t2: "slots_ok ((st_slots t2)[h := socket_slot_init])"
    using fold_drop_pending_ok [of t1 h] by (simp add: t2_def)
  have "fst (sock_release t h) = (if sk_references v = 0 then t else if sk_references v1 \<noteq> 0 then t1
      else put_slot h socket_slot_init (t2\<lparr>st_reassembly := clear_reassembly h (st_reassembly t2)\<rparr>))"
    unfolding sock_release_def Some option.case Let_def t2_def t1_def v1_def by simp
  then show ?thesis using t t1 t2 by simp
qed (simp add: sock_release_def)

lemma ephemeral_port_free:
  "ephemeral_port_from t address port \<noteq> 0 \<Longrightarrow>
   \<not> port_conflicts t invalid_socket \<lparr>ep_address = address, ep_port = ephemeral_port_from t address port\<rparr>"
proof (induction t address port rule: ephemeral_port_from.induct)
  case (1 t address port)
  then show ?case by (auto simp: ephemeral_port_from.simps [of t address port] split: if_splits)
qed

lemma sock_bind_ok: "slots_ok (st_slots t) \<Longrightarrow> slots_ok (st_slots (fst (sock_bind t h local)))"
proof (cases "sock_slot t h")
  case (Some v)
  assume t: "slots_ok (st_slots t)"
  note v = sock_slot_SomeD [OF Some]
  have "slots_ok ((st_slots t)[h := v\<lparr>sk_local := l, sk_state := St_bound\<rparr>])"
    if c: "\<not> port_conflicts t h l" and st: "sk_type v = Stream" for l
  proof (rule slots_ok_update [OF t])
    have "\<not> overlaps l b" if "i < length (st_slots t)" "i \<noteq> h" "binding (st_slots t ! i) = Some b" for i b
      using c that slots_ok_nth [OF t that(1)]
      by (auto simp: port_conflicts_def holds_port_def binding_def overlaps_def slot_ok_def split: if_splits)
    then show "binding (v\<lparr>sk_local := l, sk_state := St_bound\<rparr>) = Some a \<Longrightarrow> binding (st_slots t ! h) = Some a \<or>
       (\<forall>i<length (st_slots t). i \<noteq> h \<longrightarrow> (\<forall>b. binding (st_slots t ! i) = Some b \<longrightarrow> \<not> overlaps a b))" for a
      by (auto simp: binding_def)
  qed (use v slots_ok_nth [OF t, of h] st in \<open>auto simp: slot_ok_def pending_for_def\<close>)
  then show ?thesis using t Some by (simp add: sock_bind_def Let_def)
qed (simp add: sock_bind_def)

lemma sock_listen_ok: "slots_ok (st_slots t) \<Longrightarrow> slots_ok (st_slots (fst (sock_listen t h backlog)))"
proof (cases "sock_slot t h")
  case (Some v)
  assume t: "slots_ok (st_slots t)"
  note v = sock_slot_SomeD [OF Some]
  have "max 1 (min backlog 4) \<le> 4" by simp
  then have "unat (max 1 (min backlog 4)) \<le> 4" by (simp add: word_le_nat_alt)
  then have "unat (ucast (max 1 (min backlog 4)) :: u8) \<le> 4" by (simp add: unsigned_ucast_eq take_bit_eq_mod)
  then show ?thesis
    using slots_ok_nth [OF t, of h] v t Some
    by (auto simp: sock_listen_def intro!: slots_ok_keep [OF t]) (auto simp: slot_ok_def binding_def)
qed (simp add: sock_listen_def)

lemma sock_pending_eq: "sock_pending t lh = length (filter (pending_for lh) (st_slots t))"
  by (simp add: sock_pending_def pending_for_def [abs_def])

lemma begin_connection_ok:
  "slots_ok (st_slots t) \<Longrightarrow> slots_ok (st_slots (fst (begin_connection t lh local remote mac rseq lseq)))"
proof (cases "sock_slot t lh")
  case (Some l)
  assume t: "slots_ok (st_slots t)"
  note l = sock_slot_SomeD [OF Some]
  define h where "h = sock_allocate t"
  define v where "v = (st_slots t ! h)\<lparr>sk_state := St_syn_received, sk_type := Stream, sk_local := local, sk_remote := remote,
     sk_remote_mac := mac, sk_send_next := lseq + 1, sk_send_unacknowledged := lseq, sk_window_sequence := rseq,
     sk_window_acknowledgement := lseq, sk_receive_next := rseq + 1, sk_references := 1, sk_listener := lh\<rparr>"
  have "slots_ok ((st_slots t)[h := v])" if "h \<noteq> invalid_socket" "sock_pending t lh < unat (sk_backlog l)"
  proof -
    have h: "h < length (st_slots t)" "st_slots t ! h = socket_slot_init"
      using sock_allocate_free [OF t] that(1) by (simp_all add: h_def)
    have vf: "slot_ok v" "binding v = None" "\<And>k. pending_for k v \<Longrightarrow> k = lh"
      by (auto simp: v_def h(2) slot_ok_def binding_def pending_for_def)
    have "sock_pending t lh < listen_backlog_capacity"
      using that(2) slots_ok_nth [OF t, of lh] l by (simp add: slot_ok_def)
    then have "length (filter (pending_for lh) (st_slots t)) < listen_backlog_capacity"
      by (simp add: sock_pending_eq)
    then show ?thesis using vf by (intro slots_ok_update [OF t h(1)]) auto
  qed
  then have new: "slots_ok (st_slots (put_slot h v t))" if "h \<noteq> invalid_socket" "\<not> unat (sk_backlog l) \<le> sock_pending t lh"
    using that by simp
  show ?thesis
    unfolding begin_connection_def Some option.case Let_def h_def [symmetric] v_def [symmetric]
    using t new by (simp split: option.split)
qed (simp add: begin_connection_def)

lemma sock_establish_ok: "slots_ok (st_slots t) \<Longrightarrow> slots_ok (st_slots (fst (sock_establish t h ack)))"
proof (cases "sock_slot t h")
  case (Some v)
  assume t: "slots_ok (st_slots t)"
  note v = sock_slot_SomeD [OF Some]
  show ?thesis
    using slots_ok_nth [OF t, of h] v t Some
    by (auto simp: sock_establish_def intro!: slots_ok_keep [OF t]) (auto simp: slot_ok_def binding_def)
qed (simp add: sock_establish_def)

lemma sock_accept_ok: "slots_ok (st_slots t) \<Longrightarrow> slots_ok (st_slots (fst (sock_accept t lh)))"
proof (cases "first_index (acceptable_connection lh) (st_slots t)")
  case None
  assume "slots_ok (st_slots t)"
  with None show ?thesis by (simp add: sock_accept_def split: option.split)
next
  case (Some i)
  assume t: "slots_ok (st_slots t)"
  note i = first_index_SomeD [OF Some]
  have "slots_ok ((st_slots t)[i := (st_slots t ! i)\<lparr>sk_accepted := True\<rparr>])"
    using slots_ok_nth [OF t, of i] i
    by (intro slots_ok_keep [OF t]) (auto simp: slot_ok_def binding_def acceptable_connection_def)
  with t Some show ?thesis by (simp add: sock_accept_def split: option.split)
qed

lemma receive_in_window_slots:
  assumes "slots_ok (st_slots t)" "sock_slot t h = Some v"
  shows "slots_ok (st_slots (fst (receive_in_window t h v sequence data finish d)))"
proof -
  note v = sock_slot_SomeD [OF assms(2)]
  define f avail where "f = (of_nat (socket_receive_capacity - length (sk_receive_buffer v)) :: u32)" and "avail = unat (f - d)"
  define fin where "fin = (finish \<and> length data < avail)"
  note unf = receive_in_window_def [of t h v sequence data finish d, unfolded Let_def f_def [symmetric] avail_def [symmetric] fin_def [symmetric]]
  obtain v1 r1 a1 where app: "append_received v (take avail data) fin = (v1, r1, a1)" by (metis prod_cases3)
  obtain v2 rs r2 m where dr: "drain_reassembly h v1 (st_reassembly t) 0 = (v2, rs, r2, m)" by (metis prod_cases4)
  have f1: "rx_frame v v1" using append_received_frame [of v "take avail data" fin] app by simp
  have f2: "rx_frame v v2" by (rule rx_frame_trans [OF f1 drain_reassembly_frame [OF dr]])
  have "slots_ok ((st_slots t)[h := w])" if "rx_frame v w" for w
    using slots_ok_rx [OF assms(1), of h w] v that by simp
  with assms(1) f1 f2 show ?thesis
    unfolding unf by (simp add: app dr split: prod.split)
qed

lemma sock_receive_slots: "slots_ok (st_slots t) \<Longrightarrow> slots_ok (st_slots (fst (sock_receive t h sequence data finish)))"
  by (simp add: sock_receive_def Let_def receive_in_window_slots split: option.split)

lemma sock_read_slots: "slots_ok (st_slots t) \<Longrightarrow> slots_ok (st_slots (fst (sock_read t h sz)))"
proof (cases "sock_slot t h")
  case (Some v)
  assume t: "slots_ok (st_slots t)"
  note v = sock_slot_SomeD [OF Some]
  define v1 where "v1 = v\<lparr>sk_receive_buffer := drop (min sz (length (sk_receive_buffer v))) (sk_receive_buffer v)\<rparr>"
  obtain v2 rs r2 m where dr: "drain_reassembly h v1 (st_reassembly t) 0 = (v2, rs, r2, m)" by (metis prod_cases4)
  have "rx_frame v v1" by (auto simp: rx_frame_def rx_rest_def v1_def)
  from slots_ok_rx [OF t _ _] rx_frame_trans [OF this drain_reassembly_frame [OF dr]] v
  have "slots_ok ((st_slots t)[h := v2])" by simp
  with t Some dr show ?thesis by (simp add: sock_read_def Let_def v1_def)
qed (simp add: sock_read_def)

lemma sock_reset_slots: "slots_ok (st_slots t) \<Longrightarrow> slots_ok (st_slots (sock_reset t h failure))"
proof (cases "sock_slot t h")
  case (Some v)
  assume t: "slots_ok (st_slots t)"
  note v = sock_slot_SomeD [OF Some]
  show ?thesis
    using slots_ok_nth [OF t, of h] v t Some sock_release_ok [OF t, of h]
    by (auto simp: sock_reset_def intro!: slots_ok_keep [OF t]) (auto simp: slot_ok_def binding_def)
qed (simp add: sock_reset_def)

text \<open>All operations of the table.\<close>

datatype socket_op =
  Op_open socket_type | Op_retain socket_handle | Op_release socket_handle | Op_bind socket_handle endpoint
| Op_listen socket_handle u32 | Op_begin socket_handle endpoint endpoint mac_address u32 u32
| Op_establish socket_handle u32 | Op_accept socket_handle | Op_receive socket_handle u32 "u8 list" bool
| Op_read socket_handle nat | Op_reset socket_handle socket_result

fun socket_step :: "socket_op \<Rightarrow> socket_table \<Rightarrow> socket_table" where
  "socket_step (Op_open ty) t = fst (sock_open t ty)"
| "socket_step (Op_retain h) t = fst (sock_retain t h)"
| "socket_step (Op_release h) t = fst (sock_release t h)"
| "socket_step (Op_bind h local) t = fst (sock_bind t h local)"
| "socket_step (Op_listen h backlog) t = fst (sock_listen t h backlog)"
| "socket_step (Op_begin lh local remote mac rseq lseq) t = fst (begin_connection t lh local remote mac rseq lseq)"
| "socket_step (Op_establish h ack) t = fst (sock_establish t h ack)"
| "socket_step (Op_accept lh) t = fst (sock_accept t lh)"
| "socket_step (Op_receive h sequence data finish) t = fst (sock_receive t h sequence data finish)"
| "socket_step (Op_read h sz) t = fst (sock_read t h sz)"
| "socket_step (Op_reset h failure) t = sock_reset t h failure"

lemmas socket_ops_ok = sock_open_ok sock_retain_ok sock_release_ok sock_bind_ok sock_listen_ok begin_connection_ok
  sock_establish_ok sock_accept_ok sock_receive_slots sock_read_slots sock_reset_slots

interpretation socket_system: step_system socket_step "\<lambda>t. slots_ok (st_slots t)"
proof
  fix op and t :: socket_table assume "slots_ok (st_slots t)"
  then show "slots_ok (st_slots (socket_step op t))" by (cases op) (simp_all add: socket_ops_ok)
qed

text \<open>
  C32: in every table reached by the operations, two sockets that are bound or listen never hold
  overlapping endpoints, so a listener lookup has at most one answer; a listener never has more than four
  connections waiting; a free slot is in its initial state and a used one is referenced; and no receive
  buffer exceeds its capacity.
\<close>

theorem socket_table_invariant:
  assumes "t = fold socket_step ops socket_table_init" "i < socket_capacity" "j < socket_capacity"
  shows "length (st_slots t) = socket_capacity \<and>
    (i \<noteq> j \<and> binding (st_slots t ! i) = Some a \<and> binding (st_slots t ! j) = Some b \<longrightarrow> \<not> overlaps a b) \<and>
    sock_pending t i \<le> listen_backlog_capacity \<and>
    (sk_state (st_slots t ! i) = St_free \<longrightarrow> st_slots t ! i = socket_slot_init) \<and>
    (sk_state (st_slots t ! i) \<noteq> St_free \<longrightarrow> sk_references (st_slots t ! i) \<noteq> 0) \<and>
    length (sk_receive_buffer (st_slots t ! i)) \<le> socket_receive_capacity"
proof -
  have ok: "slots_ok (st_slots t)" unfolding assms(1) by (rule socket_system.run_inv [OF slots_ok_init])
  then have l: "length (st_slots t) = socket_capacity" by (simp add: slots_ok_def)
  have "slot_ok (st_slots t ! i)" using slots_ok_nth [OF ok] assms(2) l by simp
  moreover have "sock_pending t i \<le> listen_backlog_capacity"
    using ok assms(2) by (simp add: slots_ok_def sock_pending_eq)
  moreover have "i \<noteq> j \<and> binding (st_slots t ! i) = Some a \<and> binding (st_slots t ! j) = Some b \<longrightarrow> \<not> overlaps a b"
    using ok assms(2,3) unfolding slots_ok_def by metis
  ultimately show ?thesis using l by (simp add: slot_ok_def)
qed

theorem socket_table_invariant_witness:
  "let ep = \<lparr>ep_address = [0, 0, 0, 0], ep_port = 80\<rparr>;
       t = fold socket_step [Op_open Stream, Op_open Stream, Op_bind 0 ep, Op_listen 0 9, Op_bind 1 ep] socket_table_init
   in sk_state (st_slots t ! 0) = St_listening \<and> sk_state (st_slots t ! 1) = St_created \<and> sock_pending t 0 \<le> 4"
proof -
  let ?t = "fold socket_step [Op_open Stream, Op_open Stream, Op_bind 0 \<lparr>ep_address = [0, 0, 0, 0], ep_port = 80\<rparr>, Op_listen 0 9,
    Op_bind 1 \<lparr>ep_address = [0, 0, 0, 0], ep_port = 80\<rparr>] socket_table_init"
  have "sk_state (st_slots ?t ! 0) = St_listening" "sk_state (st_slots ?t ! 1) = St_created" by code_simp+
  then show ?thesis using socket_table_invariant [of ?t _ 0 1, OF refl] by (simp add: Let_def)
qed

end
