(* ===== verification/Tcp_Table.thy ===== *)
theory Tcp_Table
  imports Socket_Table
begin

text \<open>
  \<^verbatim>\<open>include/mikos/net/tcp_table.hpp\<close>: the text of \<^verbatim>\<open>/proc/net/tcp\<close>. The bounded text
  buffer is a string; that it never exceeds its capacity is proved below. \<open>std::to_chars\<close> writes the
  digits of a number without leading zeros, with lower-case letters.
\<close>

unbundle bit_operations_syntax

section \<open>Definitions\<close>

definition tcp_table_header :: string where
  "tcp_table_header = ''  sl  local_address rem_address   st tx_queue rx_queue tr tm->when retrnsmt   uid  timeout inode'' @ [CHR 0x0A]"

definition tcp_table_capacity :: nat where
  "tcp_table_capacity = length tcp_table_header + socket_capacity * 128 + 1"

definition digit_char :: "nat \<Rightarrow> char" where
  "digit_char d = ''0123456789abcdef'' ! d"

function to_chars :: "nat \<Rightarrow> nat \<Rightarrow> string" where
  "to_chars base n = (if base < 2 \<or> n < base then [digit_char n] else to_chars base (n div base) @ [digit_char (n mod base)])"
  by pat_completeness auto
termination
  by (relation "measure snd") auto

declare to_chars.simps [simp del]

definition upper_digit :: "char \<Rightarrow> char" where
  "upper_digit c = (let n = of_char c :: nat in if 97 \<le> n \<and> n \<le> 102 then char_of (n - 97 + 65) else c)"

definition append_number :: "string \<Rightarrow> u32 \<Rightarrow> nat \<Rightarrow> nat \<Rightarrow> string" where
  "append_number buf v base width =
     (let converted = to_chars base (unat v)
      in buf @ replicate (width - length converted) (CHR ''0'') @ map upper_digit converted)"

definition append_endpoint :: "string \<Rightarrow> endpoint \<Rightarrow> string" where
  "append_endpoint buf ep =
     (let octets = ep_address ep;
          address = ucast (octets ! 0) OR push_bit 8 (ucast (octets ! 1)) OR push_bit 16 (ucast (octets ! 2)) OR
            push_bit 24 (ucast (octets ! 3))
      in append_number (append_number buf address 16 8 @ '':'') (ucast (ep_port ep)) 16 4)"

fun proc_tcp_state :: "socket_state \<Rightarrow> u8 option" where
  "proc_tcp_state St_listening = Some 0x0a"
| "proc_tcp_state St_syn_received = Some 0x03"
| "proc_tcp_state St_established = Some 0x01"
| "proc_tcp_state St_close_wait = Some 0x08"
| "proc_tcp_state St_fin_wait_1 = Some 0x04"
| "proc_tcp_state St_fin_wait_2 = Some 0x05"
| "proc_tcp_state St_time_wait = Some 0x06"
| "proc_tcp_state St_closing = Some 0x0b"
| "proc_tcp_state St_last_ack = Some 0x09"
| "proc_tcp_state _ = None"

definition row_tail :: string where
  "row_tail = '' 00000000:00000000 00:00000000 00000000   0        0 ''"

definition append_row :: "string \<Rightarrow> socket_slot \<Rightarrow> u8 \<Rightarrow> u32 \<Rightarrow> u32 \<Rightarrow> string" where
  "append_row buf socket state row inode =
     (let t1 = append_number (buf @ ''   '') row 10 0;
          t2 = append_endpoint (t1 @ '': '') (sk_local socket);
          t3 = append_endpoint (t2 @ '' '') (sk_remote socket);
          t4 = append_number (t3 @ '' '') (ucast state) 16 2;
          t5 = append_number (t4 @ row_tail) inode 10 0
      in t5 @ [CHR 0x0A])"

text \<open>One iteration of the loop over the sockets on the text and the counters \<open>row\<close> and \<open>inode\<close>.\<close>

definition table_step :: "socket_slot \<Rightarrow> string \<times> u32 \<times> u32 \<Rightarrow> string \<times> u32 \<times> u32" where
  "table_step socket st =
     (let (buf, row, inode0) = st; inode = inode0 + 1
      in case proc_tcp_state (sk_state socket) of
           None \<Rightarrow> (buf, row, inode)
         | Some state \<Rightarrow>
             if sk_type socket \<noteq> Stream then (buf, row, inode)
             else (append_row buf socket state row inode, row + 1, inode))"

definition format_tcp_table :: "socket_slot list \<Rightarrow> string" where
  "format_tcp_table sockets = fst (fold table_step sockets (tcp_table_header, 0, 0)) @ [CHR 0x00]"

section \<open>Properties\<close>

text \<open>The number of digits.\<close>

lemma length_to_chars: "1 < base \<Longrightarrow> n < base ^ k \<Longrightarrow> 0 < k \<Longrightarrow> length (to_chars base n) \<le> k"
proof (induction k arbitrary: n)
  case (Suc k)
  show ?case
  proof (cases "n < base")
    case True
    then show ?thesis by (simp add: to_chars.simps [of base n])
  next
    case False
    then have "k \<noteq> 0" using Suc.prems(2) by (cases k) auto
    moreover have "n div base < base ^ k" using Suc.prems(1,2) by (simp add: div_less_iff_less_mult mult.commute)
    ultimately show ?thesis using Suc.IH Suc.prems(1) False by (simp add: to_chars.simps [of base n])
  qed
qed simp

lemma length_append_number:
  "1 < base \<Longrightarrow> unat v < base ^ k \<Longrightarrow> 0 < k \<Longrightarrow> length (append_number buf v base width) \<le> length buf + max width k"
  using length_to_chars [of base "unat v" k] by (simp add: append_number_def Let_def)

lemma length_append_u32:
  "length (append_number buf v 10 0) \<le> length buf + 10"
proof -
  have "unat v < 10 ^ 10" by (rule less_trans [OF unat_u32_less]) simp
  from length_append_number [OF _ this, of buf 0] show ?thesis by simp
qed

lemma length_append_endpoint: "length (append_endpoint buf ep) \<le> length buf + 13"
proof -
  have a: "length (append_number t v 16 8) \<le> length t + 8" for t v
    using length_append_number [of 16 v 8 t 8] unat_u32_less [of v] by simp
  have b: "length (append_number t (ucast (ep_port ep)) 16 4) \<le> length t + 4" for t
    using length_append_number [of 16 "ucast (ep_port ep)" 4 t 4] unat_u16_less [of "ep_port ep"] by simp
  obtain address where e: "append_endpoint buf ep = append_number (append_number buf address 16 8 @ '':'') (ucast (ep_port ep)) 16 4"
    by (simp add: append_endpoint_def Let_def)
  show ?thesis unfolding e using b [of "append_number buf address 16 8 @ '':''"] a [of buf address] by simp
qed

lemma length_append_state: "proc_tcp_state s = Some x \<Longrightarrow> length (append_number buf (ucast x) 16 2) \<le> length buf + 2"
  using length_append_number [of 16 "ucast x" 2 buf 2]
  by (cases s) auto

lemma length_append_row:
  assumes "proc_tcp_state s = Some x"
  shows "length (append_row buf socket x row inode) \<le> length buf + 128"
proof -
  have t: "length row_tail = 53" by (simp add: row_tail_def)
  define t1 t2 t3 t4 where "t1 = append_number (buf @ ''   '') row 10 0" and "t2 = append_endpoint (t1 @ '': '') (sk_local socket)"
    and "t3 = append_endpoint (t2 @ '' '') (sk_remote socket)" and "t4 = append_number (t3 @ '' '') (ucast x) 16 2"
  have "length t1 \<le> length buf + 13" using length_append_u32 [of "buf @ ''   ''" row] by (simp add: t1_def)
  moreover have "length t2 \<le> length t1 + 15" using length_append_endpoint [of "t1 @ '': ''" "sk_local socket"] by (simp add: t2_def)
  moreover have "length t3 \<le> length t2 + 14" using length_append_endpoint [of "t2 @ '' ''" "sk_remote socket"] by (simp add: t3_def)
  moreover have "length t4 \<le> length t3 + 3" using length_append_state [OF assms, of "t3 @ '' ''"] by (simp add: t4_def)
  moreover have "length (append_number (t4 @ row_tail) inode 10 0) \<le> length t4 + 63"
    using length_append_u32 [of "t4 @ row_tail" inode] by (simp add: t)
  ultimately show ?thesis
    unfolding append_row_def Let_def t1_def [symmetric] t2_def [symmetric] t3_def [symmetric] t4_def [symmetric] by simp
qed

lemma length_table_fold:
  "length (fst (fold table_step sockets (buf, row, inode))) \<le> length buf + 128 * length sockets"
proof (induction sockets arbitrary: buf row inode)
  case (Cons socket sockets)
  obtain buf1 row1 inode1 where s: "table_step socket (buf, row, inode) = (buf1, row1, inode1)" by (metis prod_cases3)
  have "length buf1 \<le> length buf + 128"
    using s length_append_row [of "sk_state socket"] by (auto simp: table_step_def Let_def split: option.splits if_splits)
  with Cons.IH [of buf1 row1 inode1] s show ?case by simp
qed simp

text \<open>
  C37: a row takes at most 128 bytes, and so the text of a full socket table always fits the buffer
  with its header and its terminator, whatever the endpoints and the states are.
\<close>

theorem tcp_table_fits:
  assumes "length sockets = socket_capacity"
  shows "length (format_tcp_table sockets) \<le> tcp_table_capacity"
  using length_table_fold [of sockets tcp_table_header 0 0] assms
  by (simp add: format_tcp_table_def tcp_table_capacity_def)

theorem tcp_table_fits_witness:
  "length (format_tcp_table (st_slots socket_table_init)) \<le> tcp_table_capacity"
  using tcp_table_fits [of "st_slots socket_table_init"] by (simp add: socket_table_init_def)

end
