(* ===== verification/Tcp_Stack.thy ===== *)
theory Tcp_Stack
  imports Tcp_Segment Interface Socket_Table Tcp_Table
begin

text \<open>
  \<^verbatim>\<open>network/stack.cpp\<close>: the network stack of the kernel. The object \<open>BootstrapStack\<close> is the record
  \<open>stack\<close>. The network driver behind \<^verbatim>\<open>drivers/net/net.hpp\<close> and the clock are chosen by the
  platform; they are the functions of a record \<open>platform\<close> on a device state of any type, which is part
  of the stack state. Console output is collected as text.

  A C++ reference to a socket is a slot value that is written back to the table at the end of the
  operation, or before a call that reads the table; the helper functions that take such a reference
  return the updated slot.
\<close>

unbundle bit_operations_syntax

section \<open>Definitions\<close>

record 'd platform =
  pf_initialize :: "'d \<Rightarrow> 'd \<times> bool"
  pf_mac_address :: "'d \<Rightarrow> mac_address"
  pf_receive :: "'d \<Rightarrow> 'd \<times> u8 list option"
  pf_transmit :: "'d \<Rightarrow> u8 list \<Rightarrow> 'd \<times> bool"
  pf_time_ticks :: "'d \<Rightarrow> 'd \<times> u64"

abbreviation transmit_capacity :: nat where "transmit_capacity \<equiv> 16"
abbreviation transmit_segment_capacity :: nat where "transmit_segment_capacity \<equiv> 1024"
abbreviation transmit_buffer_size :: nat where "transmit_buffer_size \<equiv> 1536"

record transmit_segment =
  ts_retry_at :: u64
  ts_delay :: u64
  ts_first_sent :: u64
  ts_fast_retry :: bool
  ts_flags :: u8
  ts_attempts :: u8
  ts_data :: "u8 list"

type_synonym transmit_store = "((socket_handle \<times> u32) \<times> transmit_segment) option list"

datatype reply = Reply_none | Reply_arp | Reply_echo

record 'd stack =
  sd_device :: 'd
  sd_interface :: interface_state
  sd_sockets :: socket_table
  sd_transmissions :: transmit_store
  sd_next_sequence :: u32
  sd_next_identification :: u16
  sd_now :: u64
  sd_challenge_epoch :: u64
  sd_challenges :: u32
  sd_retry_cursor :: nat
  sd_initialized :: bool
  sd_arp_replied :: bool
  sd_echo_replied :: bool
  sd_console :: string

definition stack_init :: "'d \<Rightarrow> 'd stack" where
  "stack_init d = \<lparr>sd_device = d, sd_interface = interface_state_init, sd_sockets = socket_table_init,
     sd_transmissions = replicate transmit_capacity None, sd_next_sequence = 0x4d494b4f, sd_next_identification = 1,
     sd_now = 0, sd_challenge_epoch = 0, sd_challenges = 0, sd_retry_cursor = 0, sd_initialized = False,
     sd_arp_replied = False, sd_echo_replied = False, sd_console = []\<rparr>"

definition write_text :: "string \<Rightarrow> 'd stack \<Rightarrow> 'd stack" where
  "write_text t s = s\<lparr>sd_console := sd_console s @ t\<rparr>"

definition socket_at :: "'d stack \<Rightarrow> socket_handle \<Rightarrow> socket_slot option" where
  "socket_at s h = sock_slot (sd_sockets s) h"

definition put_socket :: "socket_handle \<Rightarrow> socket_slot \<Rightarrow> 'd stack \<Rightarrow> 'd stack" where
  "put_socket h v s = s\<lparr>sd_sockets := put_slot h v (sd_sockets s)\<rparr>"

definition update_clock :: "'d platform \<Rightarrow> 'd stack \<Rightarrow> 'd stack" where
  "update_clock pf s = (case pf_time_ticks pf (sd_device s) of (d, now) \<Rightarrow> s\<lparr>sd_device := d, sd_now := now\<rparr>)"

subsection \<open>Building and sending segments\<close>

definition segment_options :: "socket_slot \<Rightarrow> u8 \<Rightarrow> u8 list" where
  "segment_options v flags =
     (if flags AND tcp_syn \<noteq> 0 then take (if sk_scale_negotiated v then 8 else 4) [2, 4, 0x05, 0xb4, 1, 3, 3, 0] else [])"

definition segment_tcp :: "socket_slot \<Rightarrow> u8 \<Rightarrow> u32 \<Rightarrow> tcp_header" where
  "segment_tcp v flags sequence =
     \<lparr>tcp_source_port = net16 (ep_port (sk_local v)), tcp_destination_port = net16 (ep_port (sk_remote v)),
      tcp_sequence = net32 sequence, tcp_acknowledgement = net32 (sk_receive_next v),
      tcp_data_offset = push_bit 4 (of_nat ((20 + length (segment_options v flags)) div 4)), tcp_flags = flags,
      tcp_window = (if flags AND tcp_rst \<noteq> 0 then 0
                    else net16 (of_nat (socket_receive_capacity - length (sk_receive_buffer v)))),
      tcp_checksum_field = 0, tcp_urgent = 0\<rparr>"

definition segment_ip :: "u16 \<Rightarrow> socket_slot \<Rightarrow> nat \<Rightarrow> ipv4_header" where
  "segment_ip identification v len =
     \<lparr>ip_version_ihl = 0x45, ip_dscp_ecn = 0, ip_total_length = net16 (of_nat len),
      ip_identification = net16 identification, ip_flags_fragment = 0, ip_ttl = 64, ip_protocol = 6, ip_checksum = 0,
      ip_source = ep_address (sk_local v), ip_destination = ep_address (sk_remote v)\<rparr>"

definition segment_frame :: "mac_address \<Rightarrow> u16 \<Rightarrow> socket_slot \<Rightarrow> u8 \<Rightarrow> u8 list \<Rightarrow> u32 \<Rightarrow> u8 list" where
  "segment_frame mac identification v flags payload sequence =
     (let options = segment_options v flags;
          ethernet = \<lparr>eth_destination = sk_remote_mac v, eth_source = mac, eth_type = net16 0x0800\<rparr>;
          ip = segment_ip identification v (40 + length options + length payload);
          ip1 = ip\<lparr>ip_checksum := net16 (internet_checksum (encode_ipv4 ip))\<rparr>;
          tcp = segment_tcp v flags sequence;
          tcp1 = tcp\<lparr>tcp_checksum_field := net16 (tcp_checksum (ep_address (sk_local v)) (ep_address (sk_remote v))
                   (encode_tcp tcp @ options @ payload))\<rparr>
      in encode_ethernet ethernet @ encode_ipv4 ip1 @ encode_tcp tcp1 @ options @ payload)"

definition send_segment :: "'d platform \<Rightarrow> 'd stack \<Rightarrow> socket_slot \<Rightarrow> u8 \<Rightarrow> u8 list \<Rightarrow> u32 \<Rightarrow> 'd stack \<times> bool" where
  "send_segment pf s v flags payload sequence =
     (if length payload > transmit_buffer_size - (54 + length (segment_options v flags)) then (s, False)
      else let frame = segment_frame (if_mac (sd_interface s)) (sd_next_identification s) v flags payload sequence
           in case pf_transmit pf (sd_device s) frame of
                (d, ok) \<Rightarrow> (s\<lparr>sd_device := d, sd_next_identification := sd_next_identification s + 1\<rparr>, ok))"

definition has_key :: "(socket_handle \<times> u32) \<Rightarrow> transmit_store \<Rightarrow> bool" where
  "has_key key ts \<longleftrightarrow> list_ex (\<lambda>e. case e of Some (k, _) \<Rightarrow> k = key | None \<Rightarrow> False) ts"

definition queue_transmission ::
  "'d platform \<Rightarrow> 'd stack \<Rightarrow> socket_handle \<Rightarrow> socket_slot \<Rightarrow> u8 \<Rightarrow> u8 list \<Rightarrow> u32 \<Rightarrow> 'd stack \<times> bool" where
  "queue_transmission pf s h v flags payload sequence =
     (if length payload > transmit_segment_capacity \<or> has_key (h, sequence) (sd_transmissions s) then (s, False)
      else case first_index (\<lambda>e. e = None) (sd_transmissions s) of
             None \<Rightarrow> (s, False)
           | Some i \<Rightarrow>
               (case send_segment pf s v flags payload sequence of
                  (s1, ok) \<Rightarrow>
                    if \<not> ok then (s1, False)
                    else (s1\<lparr>sd_transmissions := (sd_transmissions s1)[i := Some ((h, sequence),
                            \<lparr>ts_retry_at = sd_now s1 + sk_rto v, ts_delay = sk_rto v, ts_first_sent = sd_now s1,
                             ts_fast_retry = False, ts_flags = flags, ts_attempts = 1, ts_data = payload\<rparr>)]\<rparr>, True)))"

definition send_space :: "socket_slot \<Rightarrow> u32" where
  "send_space v =
     (let flight = sk_send_next v - sk_send_unacknowledged v;
          limit = min (sk_peer_window v) (sk_congestion_window v)
      in if flight < limit then limit - flight else 0)"

subsection \<open>Acknowledgements\<close>

definition update_rtt :: "socket_slot \<Rightarrow> u64 \<Rightarrow> socket_slot" where
  "update_rtt v sample =
     (let v1 = (if \<not> sk_rtt_measured v
                then v\<lparr>sk_smoothed_rtt := sample, sk_rtt_variance := sample div 2, sk_rtt_measured := True\<rparr>
                else let error = (if sk_smoothed_rtt v > sample then sk_smoothed_rtt v - sample else sample - sk_smoothed_rtt v)
                     in v\<lparr>sk_rtt_variance := (3 * sk_rtt_variance v + error) div 4,
                         sk_smoothed_rtt := (7 * sk_smoothed_rtt v + sample) div 8\<rparr>)
      in v1\<lparr>sk_rto := max tcp_initial_rto (min (sk_smoothed_rtt v1 + max 1 (4 * sk_rtt_variance v1)) tcp_max_rto)\<rparr>)"

definition grow_congestion :: "socket_slot \<Rightarrow> u32 \<Rightarrow> socket_slot" where
  "grow_congestion v newly_acked =
     (let v1 = (if sk_fast_recovery v then v\<lparr>sk_congestion_window := sk_slow_start_threshold v, sk_fast_recovery := False\<rparr>
                else if sk_congestion_window v < sk_slow_start_threshold v
                then v\<lparr>sk_congestion_window := sk_congestion_window v + min newly_acked (ucast (sk_peer_mss v))\<rparr>
                else let credit = sk_congestion_credit v + newly_acked
                     in if credit \<ge> sk_congestion_window v
                        then v\<lparr>sk_congestion_credit := credit - sk_congestion_window v,
                             sk_congestion_window := sk_congestion_window v + ucast (sk_peer_mss v)\<rparr>
                        else v\<lparr>sk_congestion_credit := credit\<rparr>)
      in v1\<lparr>sk_congestion_window := min (sk_congestion_window v1) 16384\<rparr>)"

text \<open>One slot of the loop that drops acknowledged data, with the flag \<open>sampled\<close>.\<close>

definition ack_step ::
  "u64 \<Rightarrow> socket_handle \<Rightarrow> u32 \<Rightarrow> bool \<Rightarrow> nat \<Rightarrow> socket_slot \<times> bool \<times> transmit_store \<Rightarrow> socket_slot \<times> bool \<times> transmit_store" where
  "ack_step now h ack retransmitted i st =
     (let (v, sampled, ts) = st
      in case ts ! i of
           None \<Rightarrow> st
         | Some ((k, sequence), pending) \<Rightarrow>
             if k \<noteq> h then st
             else let acknowledged = ack - sequence
                  in if sint acknowledged \<le> 0 then st
                     else if unat acknowledged \<ge> length (ts_data pending) then
                       (if \<not> retransmitted \<and> \<not> sampled
                        then (update_rtt v (now - ts_first_sent pending), True, ts[i := None])
                        else (v, sampled, ts[i := None]))
                     else (v, sampled, ts[i := Some ((h, ack), pending\<lparr>ts_data := drop (unat acknowledged) (ts_data pending)\<rparr>)]))"

definition restart_timers :: "u64 \<Rightarrow> socket_handle \<Rightarrow> u64 \<Rightarrow> transmit_store \<Rightarrow> transmit_store" where
  "restart_timers now h rto ts =
     map (\<lambda>e. case e of
            Some ((k, sequence), pending) \<Rightarrow>
              if k = h then Some ((k, sequence), pending\<lparr>ts_delay := rto, ts_retry_at := now + rto\<rparr>) else e
          | None \<Rightarrow> None) ts"

definition acknowledge_transmissions ::
  "u64 \<Rightarrow> transmit_store \<Rightarrow> socket_handle \<Rightarrow> socket_slot \<Rightarrow> u32 \<Rightarrow> transmit_store \<times> socket_slot" where
  "acknowledge_transmissions now ts h v ack =
     (if sint (ack - sk_send_unacknowledged v) \<le> 0 then (ts, v)
      else let v1 = grow_congestion (v\<lparr>sk_duplicate_acks := 0\<rparr>) (ack - sk_send_unacknowledged v);
               retransmitted = list_ex (\<lambda>e. case e of Some ((k, _), p) \<Rightarrow> k = h \<and> ts_attempts p > 1 | None \<Rightarrow> False) ts;
               (v2, _, ts2) = fold (ack_step now h ack retransmitted) [0..<length ts] (v1, False, ts);
               v3 = v2\<lparr>sk_send_unacknowledged := ack, sk_progress_at := now\<rparr>
           in (restart_timers now h (sk_rto v3) ts2, v3))"

definition clear_transmissions :: "socket_handle \<Rightarrow> transmit_store \<Rightarrow> transmit_store" where
  "clear_transmissions h ts = map (\<lambda>e. case e of Some ((k, _), _) \<Rightarrow> if k = h then None else e | None \<Rightarrow> None) ts"

subsection \<open>Closing\<close>

definition fail_connection :: "'d platform \<Rightarrow> 'd stack \<Rightarrow> socket_handle \<Rightarrow> 'd stack" where
  "fail_connection pf s h =
     (case socket_at s h of
        None \<Rightarrow> s
      | Some v \<Rightarrow>
          let s1 = s\<lparr>sd_transmissions := clear_transmissions h (sd_transmissions s)\<rparr>;
              s2 = (if sk_state v \<noteq> St_syn_received
                    then fst (send_segment pf s1 v (tcp_rst OR tcp_ack) [] (sk_send_next v)) else s1)
          in if \<not> sk_accepted v \<or> sk_detached v then s2\<lparr>sd_sockets := fst (sock_release (sd_sockets s2) h)\<rparr>
             else s2\<lparr>sd_sockets := sock_reset (sd_sockets s2) h Sr_timed_out\<rparr>)"

definition send_fin :: "'d platform \<Rightarrow> 'd stack \<Rightarrow> socket_slot \<Rightarrow> 'd stack \<times> socket_slot" where
  "send_fin pf s v =
     (if \<not> sk_fin_sent v \<and> (sk_send_unacknowledged v \<noteq> sk_send_next v \<or> sk_peer_window v = 0) then (s, v)
      else let sequence = (if sk_fin_sent v then sk_send_next v - 1 else sk_send_next v)
           in case send_segment pf s v (tcp_fin OR tcp_ack) [] sequence of
                (s1, ok) \<Rightarrow>
                  if ok then
                    let v1 = (if \<not> sk_fin_sent v then v\<lparr>sk_send_next := sk_send_next v + 1, sk_fin_sent := True\<rparr> else v)
                    in (s1, v1\<lparr>sk_control_retry_at := sd_now s1 + sk_control_delay v1,
                              sk_control_delay := backoff (sk_control_delay v1)\<rparr>)
                  else (s1, v\<lparr>sk_control_retry_at := sd_now s1 + tcp_driver_retry\<rparr>))"

definition request_fin :: "'d platform \<Rightarrow> 'd stack \<Rightarrow> socket_slot \<Rightarrow> 'd stack \<times> socket_slot" where
  "request_fin pf s v =
     (if sk_send_closed v then (s, v)
      else send_fin pf s (v\<lparr>sk_send_closed := True, sk_active_close := \<not> sk_receive_closed v,
             sk_state := (if \<not> sk_receive_closed v then St_fin_wait_1 else St_last_ack),
             sk_state_since := sd_now s, sk_control_retry_at := sd_now s, sk_control_delay := sk_rto v\<rparr>))"

definition enter_time_wait :: "u64 \<Rightarrow> socket_slot \<Rightarrow> socket_slot" where
  "enter_time_wait now v = v\<lparr>sk_state := St_time_wait, sk_state_since := now\<rparr>"

subsection \<open>Timers\<close>

text \<open>The part of the timer loop for a connection past the handshake: timeouts, FIN and window queries.\<close>

definition timer_expired :: "u64 \<Rightarrow> socket_slot \<Rightarrow> bool" where
  "timer_expired now v \<longleftrightarrow>
     (sk_send_unacknowledged v \<noteq> sk_send_next v \<or> sk_persist_waiting v) \<and> now - sk_progress_at v \<ge> tcp_user_timeout \<or>
     sk_send_closed v \<and> \<not> sk_fin_acked v \<and> now - sk_state_since v \<ge> tcp_user_timeout \<or>
     sk_state v = St_fin_wait_2 \<and> sk_detached v \<and> now - sk_state_since v \<ge> tcp_fin_wait_timeout"

definition persist_probe :: "'d platform \<Rightarrow> 'd stack \<Rightarrow> socket_slot \<Rightarrow> 'd stack \<times> socket_slot" where
  "persist_probe pf s v =
     (if sk_persist_waiting v \<and> sk_peer_window v = 0 \<and> deadline_reached (sd_now s) (sk_persist_retry_at v) then
        (case send_segment pf s v tcp_ack [] (sk_send_unacknowledged v - 1) of
           (s1, ok) \<Rightarrow>
             if ok then let delay = backoff (sk_persist_delay v)
                        in (s1, v\<lparr>sk_persist_delay := delay, sk_persist_retry_at := sd_now s1 + delay\<rparr>)
             else (s1, v\<lparr>sk_persist_retry_at := sd_now s1 + tcp_driver_retry\<rparr>))
      else (s, v))"

definition syn_timer :: "'d platform \<Rightarrow> 'd stack \<Rightarrow> socket_slot \<Rightarrow> 'd stack \<times> socket_slot" where
  "syn_timer pf s v =
     (if deadline_reached (sd_now s) (sk_control_retry_at v) then
        (case send_segment pf s v (tcp_syn OR tcp_ack) [] (sk_send_next v - 1) of
           (s1, ok) \<Rightarrow>
             if ok then (s1, v\<lparr>sk_congestion_window := ucast (sk_peer_mss v), sk_rto := 3 * tcp_second,
                              sk_control_retry_at := sd_now s1 + sk_control_delay v,
                              sk_control_delay := backoff (sk_control_delay v)\<rparr>)
             else (s1, v\<lparr>sk_control_retry_at := sd_now s1 + tcp_driver_retry\<rparr>))
      else (s, v))"

definition timer_step :: "'d platform \<Rightarrow> socket_handle \<Rightarrow> 'd stack \<Rightarrow> 'd stack" where
  "timer_step pf h s =
     (let v = st_slots (sd_sockets s) ! h; now = sd_now s
      in if \<not> is_connection (sk_state v) \<or> sk_state v = St_reset then s
         else if sk_state v = St_time_wait then
           (if now - sk_state_since v \<ge> tcp_time_wait then
              (if sk_detached v then s\<lparr>sd_sockets := fst (sock_release (sd_sockets s) h)\<rparr>
               else put_socket h (v\<lparr>sk_state := St_closed\<rparr>) s)
            else s)
         else if sk_state v = St_syn_received then
           (if now - sk_opened_at v \<ge> tcp_syn_timeout then fail_connection pf s h
            else case syn_timer pf s v of (s1, v1) \<Rightarrow> put_socket h v1 s1)
         else if timer_expired now v then fail_connection pf s h
         else case (if sk_send_closed v \<and> \<not> sk_fin_acked v \<and> deadline_reached now (sk_control_retry_at v)
                    then send_fin pf s v else (s, v)) of
                (s1, v1) \<Rightarrow> (case persist_probe pf s1 v1 of (s2, v2) \<Rightarrow> put_socket h v2 s2))"

definition flush_timers :: "'d platform \<Rightarrow> 'd stack \<Rightarrow> 'd stack" where
  "flush_timers pf s = fold (timer_step pf) [0..<length (st_slots (sd_sockets s))] s"

text \<open>Retransmission: the first slot from the cursor on whose data is due is sent, and the loop stops.\<close>

definition timeout_congestion :: "socket_slot \<Rightarrow> socket_slot" where
  "timeout_congestion v = v\<lparr>sk_slow_start_threshold := max ((sk_send_next v - sk_send_unacknowledged v) div 2) (2 * ucast (sk_peer_mss v)),
     sk_congestion_window := ucast (sk_peer_mss v), sk_congestion_credit := 0, sk_fast_recovery := False, sk_duplicate_acks := 0\<rparr>"

definition retransmit :: "'d platform \<Rightarrow> nat \<Rightarrow> socket_handle \<Rightarrow> u32 \<Rightarrow> transmit_segment \<Rightarrow> socket_slot \<Rightarrow> 'd stack \<Rightarrow> 'd stack" where
  "retransmit pf index h sequence pending v s =
     (let count = min (length (ts_data pending)) (unat (max 1 (sk_peer_window v)))
      in case send_segment pf s v (ts_flags pending) (take count (ts_data pending)) sequence of
           (s1, ok) \<Rightarrow>
             let (pending1, v1) =
                   (if ok then
                      let delay = (if \<not> ts_fast_retry pending then backoff (ts_delay pending) else ts_delay pending)
                      in (pending\<lparr>ts_attempts := of_nat (min (unat (ts_attempts pending) + 1) 255), ts_delay := delay,
                            ts_fast_retry := False, ts_retry_at := sd_now s1 + delay\<rparr>,
                          if \<not> ts_fast_retry pending \<and> sk_peer_window v \<noteq> 0 then timeout_congestion v else v)
                    else (pending\<lparr>ts_retry_at := sd_now s1 + tcp_driver_retry\<rparr>, v))
             in put_socket h v1 (s1\<lparr>sd_transmissions := (sd_transmissions s1)[index := Some ((h, sequence), pending1)],
                  sd_retry_cursor := (index + 1) mod length (sd_transmissions s1)\<rparr>))"

fun retransmission_loop :: "'d platform \<Rightarrow> nat list \<Rightarrow> 'd stack \<Rightarrow> 'd stack" where
  "retransmission_loop pf [] s = s"
| "retransmission_loop pf (checked # more_checks) s =
     (let index = (sd_retry_cursor s + checked) mod length (sd_transmissions s)
      in case sd_transmissions s ! index of
           None \<Rightarrow> retransmission_loop pf more_checks s
         | Some ((h, sequence), pending) \<Rightarrow>
             (case socket_at s h of
                None \<Rightarrow> retransmission_loop pf more_checks (s\<lparr>sd_transmissions := (sd_transmissions s)[index := None]\<rparr>)
              | Some v \<Rightarrow>
                  if sk_state v = St_reset
                  then retransmission_loop pf more_checks (s\<lparr>sd_transmissions := (sd_transmissions s)[index := None]\<rparr>)
                  else if sequence \<noteq> sk_send_unacknowledged v \<or> \<not> deadline_reached (sd_now s) (ts_retry_at pending)
                  then retransmission_loop pf more_checks s
                  else retransmit pf index h sequence pending v s))"

definition flush_retransmission :: "'d platform \<Rightarrow> 'd stack \<Rightarrow> 'd stack" where
  "flush_retransmission pf s = retransmission_loop pf [0..<length (sd_transmissions s)] s"

definition flush_acknowledgement :: "'d platform \<Rightarrow> 'd stack \<Rightarrow> socket_slot \<Rightarrow> 'd stack \<times> socket_slot" where
  "flush_acknowledgement pf s v =
     (if sk_acknowledgement_retries v = 0 \<or> \<not> is_connection (sk_state v) \<or> sk_state v = St_syn_received \<or> sk_state v = St_reset
      then (s, v)
      else case send_segment pf s v tcp_ack [] (sk_send_next v) of
             (s1, ok) \<Rightarrow> (s1, if ok then v\<lparr>sk_acknowledgement_retries := sk_acknowledgement_retries v - 1\<rparr> else v))"

definition flush_acknowledgements :: "'d platform \<Rightarrow> 'd stack \<Rightarrow> 'd stack" where
  "flush_acknowledgements pf s =
     fold (\<lambda>h s. case flush_acknowledgement pf s (st_slots (sd_sockets s) ! h) of (s1, v) \<Rightarrow> put_socket h v s1)
       [0..<length (st_slots (sd_sockets s))] s"

definition allow_control_reply :: "'d stack \<Rightarrow> 'd stack \<times> bool" where
  "allow_control_reply s =
     (let s1 = (if sd_now s - sd_challenge_epoch s \<ge> tcp_second then s\<lparr>sd_challenge_epoch := sd_now s, sd_challenges := 0\<rparr> else s)
      in if sd_challenges s1 \<ge> 100 then (s1, False) else (s1\<lparr>sd_challenges := sd_challenges s1 + 1\<rparr>, True))"

definition challenge_ack :: "'d platform \<Rightarrow> 'd stack \<Rightarrow> socket_handle \<Rightarrow> socket_slot \<Rightarrow> 'd stack" where
  "challenge_ack pf s h v =
     (case allow_control_reply s of
        (s1, ok) \<Rightarrow>
          if \<not> ok then put_socket h v s1
          else case flush_acknowledgement pf s1 (v\<lparr>sk_acknowledgement_retries := 1\<rparr>) of (s2, v1) \<Rightarrow> put_socket h v1 s2)"

subsection \<open>Incoming segments\<close>

definition segment_length :: "tcp_view \<Rightarrow> u32" where
  "segment_length view = of_nat (length (view_payload view)) + (if tcp_flags (view_tcp view) AND tcp_fin \<noteq> 0 then 1 else 0)"

text \<open>No connection for the segment: a reset, or a new connection on a listener.\<close>

definition reject_segment :: "'d platform \<Rightarrow> 'd stack \<Rightarrow> endpoint \<Rightarrow> endpoint \<Rightarrow> tcp_view \<Rightarrow> 'd stack" where
  "reject_segment pf s local remote view =
     (case allow_control_reply s of
        (s1, ok) \<Rightarrow>
          if \<not> ok then s1
          else let flags = tcp_flags (view_tcp view);
                   rejected = socket_slot_init\<lparr>sk_local := local, sk_remote := remote, sk_remote_mac := eth_source (view_ethernet view)\<rparr>
               in if flags AND tcp_ack \<noteq> 0
                  then fst (send_segment pf s1 rejected tcp_rst [] (net32 (tcp_acknowledgement (view_tcp view))))
                  else fst (send_segment pf s1
                        (rejected\<lparr>sk_receive_next := net32 (tcp_sequence (view_tcp view)) + of_nat (length (view_payload view)) +
                           (if flags AND tcp_syn \<noteq> 0 then 1 else 0) + (if flags AND tcp_fin \<noteq> 0 then 1 else 0)\<rparr>)
                        (tcp_rst OR tcp_ack) [] 0))"

definition start_connection :: "'d platform \<Rightarrow> 'd stack \<Rightarrow> socket_handle \<Rightarrow> endpoint \<Rightarrow> endpoint \<Rightarrow> tcp_view \<Rightarrow> 'd stack" where
  "start_connection pf s listening local remote view =
     (case begin_connection (sd_sockets s) listening local remote (eth_source (view_ethernet view))
             (net32 (tcp_sequence (view_tcp view))) (sd_next_sequence s) of
        (t, result, h) \<Rightarrow>
          if result \<noteq> Sr_success then s\<lparr>sd_sockets := t\<rparr>
          else let s1 = s\<lparr>sd_sockets := t, sd_next_sequence := sd_next_sequence s + 0x10001\<rparr>;
                   mss = min (case opt_maximum_segment_size (view_options view) of Some m \<Rightarrow> m | None \<Rightarrow> 536) 1024;
                   v = (st_slots t ! h)\<lparr>sk_opened_at := sd_now s, sk_progress_at := sd_now s,
                         sk_peer_window := ucast (net16 (tcp_window (view_tcp view))), sk_peer_mss := mss,
                         sk_congestion_window := 4 * ucast mss,
                         sk_scale_negotiated := (opt_window_scale (view_options view) \<noteq> None),
                         sk_peer_scale := (case opt_window_scale (view_options view) of Some x \<Rightarrow> x | None \<Rightarrow> 0)\<rparr>
               in case send_segment pf s1 v (tcp_syn OR tcp_ack) [] (sk_send_next v - 1) of
                    (s2, sent) \<Rightarrow>
                      put_socket h (v\<lparr>sk_control_retry_at := sd_now s2 + (if sent then sk_rto v else tcp_driver_retry),
                                     sk_control_delay := (if sent then backoff (sk_rto v) else sk_rto v)\<rparr>) s2)"

definition handle_unconnected :: "'d platform \<Rightarrow> 'd stack \<Rightarrow> endpoint \<Rightarrow> endpoint \<Rightarrow> tcp_view \<Rightarrow> 'd stack" where
  "handle_unconnected pf s local remote view =
     (let flags = tcp_flags (view_tcp view)
      in if flags AND tcp_rst \<noteq> 0 then s
         else let listening = sock_listener (sd_sockets s) local
              in if listening = invalid_socket \<or> flags AND tcp_ack \<noteq> 0 then reject_segment pf s local remote view
                 else if flags AND (tcp_syn OR tcp_ack OR tcp_fin) \<noteq> tcp_syn then s
                 else start_connection pf s listening local remote view)"

definition handle_reset :: "'d platform \<Rightarrow> 'd stack \<Rightarrow> socket_handle \<Rightarrow> socket_slot \<Rightarrow> u32 \<Rightarrow> 'd stack" where
  "handle_reset pf s h v sequence =
     (if sk_state v = St_time_wait then s
      else if sequence = sk_receive_next v then
        (let s1 = s\<lparr>sd_transmissions := clear_transmissions h (sd_transmissions s)\<rparr>
         in if sk_detached v \<or> \<not> sk_accepted v then s1\<lparr>sd_sockets := fst (sock_release (sd_sockets s1) h)\<rparr>
            else s1\<lparr>sd_sockets := sock_reset (sd_sockets s1) h Sr_reset\<rparr>)
      else if sint (sequence - sk_receive_next v) > 0 \<and> sequence - sk_receive_next v < of_nat socket_receive_capacity
      then challenge_ack pf s h v
      else s)"

definition segment_acceptable :: "socket_slot \<Rightarrow> u32 \<Rightarrow> u32 \<Rightarrow> bool" where
  "segment_acceptable v sequence len \<longleftrightarrow>
     (let distance = sint (sequence - sk_receive_next v);
          window = socket_receive_capacity - length (sk_receive_buffer v)
      in if len = 0 then distance = 0 \<or> distance > 0 \<and> nat distance < window
         else window \<noteq> 0 \<and> distance < int window \<and> distance + int (unat len) > 0)"

definition duplicate_ack :: "u64 \<Rightarrow> transmit_store \<Rightarrow> socket_handle \<Rightarrow> socket_slot \<Rightarrow> u32 \<Rightarrow> u32 \<Rightarrow> u32 \<Rightarrow> transmit_store \<times> socket_slot" where
  "duplicate_ack now ts h v ack len advertised =
     (if ack = sk_send_unacknowledged v \<and> sk_send_next v \<noteq> ack \<and> len = 0 \<and> advertised = sk_peer_window v \<and>
         \<not> sk_fin_sent v \<and> advertised \<noteq> 0 then
        (let v1 = (if sk_duplicate_acks v < 255 then v\<lparr>sk_duplicate_acks := sk_duplicate_acks v + 1\<rparr> else v)
         in if sk_duplicate_acks v1 = 3 then
              (let threshold = max ((sk_send_next v1 - ack) div 2) (2 * ucast (sk_peer_mss v1))
               in (map (\<lambda>e. case e of
                          Some ((k, sequence), p) \<Rightarrow>
                            if k = h \<and> sequence = ack then Some ((k, sequence), p\<lparr>ts_fast_retry := True, ts_retry_at := now\<rparr>) else e
                        | None \<Rightarrow> None) ts,
                   v1\<lparr>sk_slow_start_threshold := threshold, sk_congestion_window := threshold + 3 * ucast (sk_peer_mss v1),
                     sk_fast_recovery := True\<rparr>))
            else (ts, v1))
      else (ts, v\<lparr>sk_duplicate_acks := 0\<rparr>))"

definition update_window :: "u64 \<Rightarrow> socket_slot \<Rightarrow> u32 \<Rightarrow> u32 \<Rightarrow> u32 \<Rightarrow> socket_slot" where
  "update_window now v sequence ack advertised =
     (if sint (sequence - sk_window_sequence v) > 0 \<or>
         sequence = sk_window_sequence v \<and> sint (ack - sk_window_acknowledgement v) \<ge> 0 then
        (let v1 = v\<lparr>sk_peer_window := advertised, sk_window_sequence := sequence, sk_window_acknowledgement := ack\<rparr>;
             v2 = (if sk_peer_window v1 = 0 \<and> sk_send_next v1 \<noteq> sk_send_unacknowledged v1 \<and> \<not> sk_persist_waiting v1
                   then v1\<lparr>sk_persist_waiting := True, sk_persist_delay := sk_rto v1, sk_persist_retry_at := now + sk_rto v1\<rparr>
                   else v1)
         in if sk_persist_waiting v2
            then v2\<lparr>sk_progress_at := now, sk_persist_waiting := (sk_peer_window v2 = 0)\<rparr>
            else v2)
      else v)"

definition process_ack :: "u64 \<Rightarrow> transmit_store \<Rightarrow> socket_handle \<Rightarrow> socket_slot \<Rightarrow> u32 \<Rightarrow> u32 \<Rightarrow> u32 \<Rightarrow> u16 \<Rightarrow> transmit_store \<times> socket_slot" where
  "process_ack now ts h v sequence ack len wnd =
     (if sint (ack - sk_send_unacknowledged v) \<ge> 0 then
        (let advertised = push_bit (unat (sk_peer_scale v)) (ucast (net16 wnd));
             (ts1, v1) = duplicate_ack now ts h v ack len advertised;
             (ts2, v2) = acknowledge_transmissions now ts1 h v1 ack
         in (ts2, update_window now v2 sequence ack (push_bit (unat (sk_peer_scale v2)) (ucast (net16 wnd)))))
      else (ts, v))"

text \<open>The acknowledgement of our FIN; \<open>None\<close> when the socket is released.\<close>

definition process_fin_ack :: "u64 \<Rightarrow> socket_slot \<Rightarrow> u32 \<Rightarrow> socket_slot option" where
  "process_fin_ack now v ack =
     (if sk_fin_sent v \<and> ack = sk_send_next v then
        (let v1 = v\<lparr>sk_fin_acked := True\<rparr>
         in if sk_receive_closed v1 then
              (if sk_active_close v1 then Some (enter_time_wait now v1) else if sk_detached v1 then None else Some v1)
            else if sk_state v1 = St_fin_wait_1 then Some (v1\<lparr>sk_state := St_fin_wait_2, sk_state_since := now\<rparr>)
            else Some v1)
      else Some v)"

definition process_data :: "'d platform \<Rightarrow> 'd stack \<Rightarrow> socket_handle \<Rightarrow> socket_slot \<Rightarrow> u32 \<Rightarrow> u8 list \<Rightarrow> bool \<Rightarrow> 'd stack \<times> socket_slot" where
  "process_data pf s h v sequence payload finish =
     (if payload \<noteq> [] \<or> finish then
        (case sock_receive (sd_sockets (put_socket h v s)) h sequence payload finish of
           (t, _, _) \<Rightarrow>
             let v1 = st_slots t ! h;
                 v2 = (if \<not> sk_receive_closed v \<and> sk_receive_closed v1 \<and> sk_fin_acked v1 then enter_time_wait (sd_now s) v1 else v1);
                 v3 = (if sk_read_closed v2 then v2\<lparr>sk_receive_buffer := []\<rparr> else v2)
             in flush_acknowledgement pf (s\<lparr>sd_sockets := t\<rparr>) (v3\<lparr>sk_acknowledgement_retries := 1\<rparr>))
      else (s, v))"

text \<open>A segment for an open connection: acknowledgement, window, our FIN, then its data.\<close>

definition handle_segment :: "'d platform \<Rightarrow> 'd stack \<Rightarrow> socket_handle \<Rightarrow> socket_slot \<Rightarrow> tcp_view \<Rightarrow> 'd stack" where
  "handle_segment pf s h v view =
     (let flags = tcp_flags (view_tcp view);
          sequence = net32 (tcp_sequence (view_tcp view));
          ack = net32 (tcp_acknowledgement (view_tcp view));
          len = segment_length view
      in if flags AND tcp_ack = 0 then put_socket h v s
         else if \<not> segment_acceptable v sequence len then challenge_ack pf s h v
         else if sint (ack - sk_send_next v) > 0 then challenge_ack pf s h v
         else case process_ack (sd_now s) (sd_transmissions s) h v sequence ack len (tcp_window (view_tcp view)) of
                (ts, v1) \<Rightarrow>
                  let s1 = s\<lparr>sd_transmissions := ts\<rparr>
                  in case process_fin_ack (sd_now s1) v1 ack of
                       None \<Rightarrow> let s2 = put_socket h (v1\<lparr>sk_fin_acked := True\<rparr>) s1
                               in s2\<lparr>sd_sockets := fst (sock_release (sd_sockets s2) h)\<rparr>
                     | Some v2 \<Rightarrow>
                         (case process_data pf s1 h v2 sequence (view_payload view) (flags AND tcp_fin \<noteq> 0) of
                            (s3, v3) \<Rightarrow>
                              (case (if sk_send_closed v3 \<and> \<not> sk_fin_sent v3 then send_fin pf s3 v3 else (s3, v3)) of
                                 (s4, v4) \<Rightarrow> put_socket h v4 s4)))"

definition handle_connected :: "'d platform \<Rightarrow> 'd stack \<Rightarrow> socket_handle \<Rightarrow> tcp_view \<Rightarrow> 'd stack" where
  "handle_connected pf s h view =
     (case socket_at s h of
        None \<Rightarrow> s
      | Some v \<Rightarrow>
          let flags = tcp_flags (view_tcp view);
              sequence = net32 (tcp_sequence (view_tcp view));
              ack = net32 (tcp_acknowledgement (view_tcp view))
          in if sk_state v = St_reset then s
             else if flags AND tcp_rst \<noteq> 0 then handle_reset pf s h v sequence
             else if sk_state v = St_time_wait then
               (if flags AND tcp_fin \<noteq> 0 \<and> sequence + of_nat (length (view_payload view)) + 1 = sk_receive_next v
                then challenge_ack pf s h (v\<lparr>sk_state_since := sd_now s\<rparr>)
                else s)
             else if sk_state v = St_syn_received then
               (if flags AND (tcp_syn OR tcp_fin OR tcp_ack) = tcp_syn \<and> sequence + 1 = sk_receive_next v
                then fst (send_segment pf s v (tcp_syn OR tcp_ack) [] (sk_send_next v - 1))
                else if flags AND (tcp_ack OR tcp_syn) \<noteq> tcp_ack \<or> sequence \<noteq> sk_receive_next v then s
                else case sock_establish (sd_sockets s) h ack of
                       (t, result) \<Rightarrow>
                         if result \<noteq> Sr_success then s\<lparr>sd_sockets := t\<rparr>
                         else handle_segment pf (s\<lparr>sd_sockets := t\<rparr>) h (st_slots t ! h) view)
             else if flags AND tcp_syn \<noteq> 0 then challenge_ack pf s h v
             else handle_segment pf s h v view)"

definition handle_tcp :: "'d platform \<Rightarrow> 'd stack \<Rightarrow> u8 list \<Rightarrow> 'd stack" where
  "handle_tcp pf s frame =
     (case parse_tcp frame (if_address (sd_interface s)) of
        None \<Rightarrow> s
      | Some view \<Rightarrow>
          let local = \<lparr>ep_address = if_address (sd_interface s), ep_port = net16 (tcp_destination_port (view_tcp view))\<rparr>;
              remote = \<lparr>ep_address = ip_source (view_ip view), ep_port = net16 (tcp_source_port (view_tcp view))\<rparr>;
              connection = sock_connection (sd_sockets s) local remote
          in if connection = invalid_socket then handle_unconnected pf s local remote view
             else handle_connected pf s connection view)"

definition handle_frame :: "'d platform \<Rightarrow> 'd stack \<Rightarrow> u8 list \<Rightarrow> 'd stack \<times> reply" where
  "handle_frame pf s frame =
     (case make_arp_reply frame (if_mac (sd_interface s)) (if_address (sd_interface s)) of
        (frame1, size1) \<Rightarrow>
          if size1 \<noteq> 0 then
            (case pf_transmit pf (sd_device s) (take size1 frame1) of
               (d, ok) \<Rightarrow> (s\<lparr>sd_device := d\<rparr>, if ok then Reply_arp else Reply_none))
          else
            (case make_icmp_echo_reply frame1 (if_mac (sd_interface s)) (if_address (sd_interface s)) of
               (frame2, size2) \<Rightarrow>
                 if size2 \<noteq> 0 then
                   (case pf_transmit pf (sd_device s) (take size2 frame2) of
                      (d, ok) \<Rightarrow> (s\<lparr>sd_device := d\<rparr>, if ok then Reply_echo else Reply_none))
                 else (handle_tcp pf s frame2, Reply_none)))"

definition record_reply :: "reply \<Rightarrow> 'd stack \<Rightarrow> 'd stack" where
  "record_reply r s =
     (case r of
        Reply_arp \<Rightarrow> if \<not> sd_arp_replied s then write_text (''MIKOS:ARP_REPLY'' @ [CHR 0x0A]) (s\<lparr>sd_arp_replied := True\<rparr>) else s
      | Reply_echo \<Rightarrow> if \<not> sd_echo_replied s then write_text (''MIKOS:ICMP_ECHO_REPLY'' @ [CHR 0x0A]) (s\<lparr>sd_echo_replied := True\<rparr>) else s
      | Reply_none \<Rightarrow> s)"

definition poll :: "'d platform \<Rightarrow> 'd stack \<Rightarrow> 'd stack" where
  "poll pf s =
     (if \<not> sd_initialized s \<or> if_flags (sd_interface s) AND interface_up = 0 then s
      else let s1 = flush_acknowledgements pf (update_clock pf s);
               s2 = (case pf_receive pf (sd_device s1) of
                       (d, None) \<Rightarrow> s1\<lparr>sd_device := d\<rparr>
                     | (d, Some frame) \<Rightarrow> (case handle_frame pf (s1\<lparr>sd_device := d\<rparr>) frame of (s3, r) \<Rightarrow> record_reply r s3))
           in flush_retransmission pf (flush_timers pf s2))"

subsection \<open>The socket interface\<close>

definition hex_digit :: "u8 \<Rightarrow> char" where
  "hex_digit d = ''0123456789abcdef'' ! unat d"

definition announce_address :: "'d stack \<Rightarrow> 'd stack" where
  "announce_address s =
     write_text (''MIKOS:NET_IP 10.0.2.15'' @ [CHR 0x0A] @ ''MIKOS:NET_MAC '' @
       concat (map (\<lambda>i. let o1 = if_mac (sd_interface s) ! i
                        in [hex_digit (drop_bit 4 o1), hex_digit (o1 AND 0x0f), if i = 5 then CHR 0x0A else CHR '':'']) [0..<6])) s"

definition stack_initialize :: "'d platform \<Rightarrow> 'd stack \<Rightarrow> 'd stack \<times> bool" where
  "stack_initialize pf s =
     (if sd_initialized s then (s, True)
      else case pf_initialize pf (sd_device s) of
             (d, ok) \<Rightarrow>
               if \<not> ok then (write_text (''MIKOS:NET_NONE'' @ [CHR 0x0A]) (s\<lparr>sd_device := d\<rparr>), False)
               else (announce_address (s\<lparr>sd_device := d, sd_interface := (sd_interface s)\<lparr>if_mac := pf_mac_address pf d\<rparr>,
                       sd_initialized := True\<rparr>), True))"

fun run_polls :: "'d platform \<Rightarrow> nat \<Rightarrow> 'd stack \<Rightarrow> 'd stack \<times> bool" where
  "run_polls pf 0 s = (write_text (''MIKOS:NET_TIMEOUT'' @ [CHR 0x0A]) s, False)"
| "run_polls pf (Suc n) s =
     (let s1 = poll pf s in if sd_arp_replied s1 \<and> sd_echo_replied s1 then (s1, True) else run_polls pf n s1)"

definition stack_run :: "'d platform \<Rightarrow> 'd stack \<Rightarrow> 'd stack \<times> bool" where
  "stack_run pf s =
     (case stack_initialize pf s of (s1, ok) \<Rightarrow> if \<not> ok then (s1, False) else run_polls pf 100000000 s1)"

definition stack_ioctl :: "'d stack \<Rightarrow> u32 \<Rightarrow> ifreq \<Rightarrow> 'd stack \<times> ifreq \<times> interface_control_result" where
  "stack_ioctl s request r =
     (if \<not> sd_initialized s then (s, r, If_no_device)
      else case apply_interface_ioctl (sd_interface s) request r of (i, r1, result) \<Rightarrow> (s\<lparr>sd_interface := i\<rparr>, r1, result))"

definition socket_open :: "'d stack \<Rightarrow> socket_type \<Rightarrow> 'd stack \<times> socket_result \<times> socket_handle" where
  "socket_open s ty = (case sock_open (sd_sockets s) ty of (t, result, h) \<Rightarrow> (s\<lparr>sd_sockets := t\<rparr>, result, h))"

definition socket_retain :: "'d stack \<Rightarrow> socket_handle \<Rightarrow> 'd stack \<times> socket_result" where
  "socket_retain s h = (case sock_retain (sd_sockets s) h of (t, result) \<Rightarrow> (s\<lparr>sd_sockets := t\<rparr>, result))"

definition socket_close :: "'d platform \<Rightarrow> 'd stack \<Rightarrow> socket_handle \<Rightarrow> 'd stack \<times> socket_result" where
  "socket_close pf s0 h =
     (let s = update_clock pf s0
      in case socket_at s h of
           None \<Rightarrow> (s, Sr_bad_handle)
         | Some v \<Rightarrow>
             if sk_references v = 1 \<and> sk_fin_acked v \<and> sk_receive_closed v \<and> sk_state v \<noteq> St_time_wait then
               (case sock_release (sd_sockets s) h of
                  (t, result) \<Rightarrow> (s\<lparr>sd_transmissions := clear_transmissions h (sd_transmissions s), sd_sockets := t\<rparr>, result))
             else if sk_references v = 1 \<and> is_connection (sk_state v) \<and> sk_state v \<noteq> St_reset \<and> sk_state v \<noteq> St_syn_received then
               (case request_fin pf s (v\<lparr>sk_detached := True\<rparr>) of (s1, v1) \<Rightarrow> (put_socket h v1 s1, Sr_success))
             else
               (case sock_release (sd_sockets s) h of
                  (t, result) \<Rightarrow>
                    (let s1 = s\<lparr>sd_sockets := t\<rparr>
                     in (if sk_references v = 1 then s1\<lparr>sd_transmissions := clear_transmissions h (sd_transmissions s1)\<rparr> else s1,
                         result))))"

definition socket_bind :: "'d stack \<Rightarrow> socket_handle \<Rightarrow> endpoint \<Rightarrow> 'd stack \<times> socket_result" where
  "socket_bind s h local =
     (if \<not> sock_unspecified (ep_address local) \<and> ep_address local \<noteq> if_address (sd_interface s) then (s, Sr_invalid_argument)
      else case sock_bind (sd_sockets s) h local of (t, result) \<Rightarrow> (s\<lparr>sd_sockets := t\<rparr>, result))"

definition socket_listen :: "'d stack \<Rightarrow> socket_handle \<Rightarrow> u32 \<Rightarrow> 'd stack \<times> socket_result" where
  "socket_listen s h backlog = (case sock_listen (sd_sockets s) h backlog of (t, result) \<Rightarrow> (s\<lparr>sd_sockets := t\<rparr>, result))"

definition socket_accept :: "'d stack \<Rightarrow> socket_handle \<Rightarrow> 'd stack \<times> socket_result \<times> socket_handle \<times> endpoint" where
  "socket_accept s h = (case sock_accept (sd_sockets s) h of (t, result) \<Rightarrow> (s\<lparr>sd_sockets := t\<rparr>, result))"

definition socket_read :: "'d platform \<Rightarrow> 'd stack \<Rightarrow> socket_handle \<Rightarrow> nat \<Rightarrow> 'd stack \<times> socket_result \<times> u8 list" where
  "socket_read pf s0 h sz =
     (let s = update_clock pf s0;
          was_time_wait = (case socket_at s h of None \<Rightarrow> False | Some v \<Rightarrow> sk_state v = St_time_wait)
      in case sock_read (sd_sockets s) h sz of
           (t, result, bytes) \<Rightarrow>
             let s1 = s\<lparr>sd_sockets := t\<rparr>
             in (if bytes \<noteq> [] then
                   (case socket_at s1 h of
                      None \<Rightarrow> s1
                    | Some v \<Rightarrow>
                        let v1 = v\<lparr>sk_acknowledgement_retries := 1\<rparr>
                        in put_socket h (if \<not> was_time_wait \<and> sk_state v1 = St_time_wait then v1\<lparr>sk_state_since := sd_now s1\<rparr> else v1) s1)
                 else s1, result, bytes))"

text \<open>
  The loop that cuts the data into segments; it stops when a segment cannot be queued. It ends because
  every queued segment takes a free transmission slot.
\<close>

definition free_transmissions :: "'d stack \<Rightarrow> nat" where
  "free_transmissions s = length (filter (\<lambda>e. e = None) (sd_transmissions s))"

lemma send_segment_keeps:
  "sd_transmissions (fst (send_segment pf s v flags payload sequence)) = sd_transmissions s"
  "sd_sockets (fst (send_segment pf s v flags payload sequence)) = sd_sockets s"
  "sd_now (fst (send_segment pf s v flags payload sequence)) = sd_now s"
  "sd_interface (fst (send_segment pf s v flags payload sequence)) = sd_interface s"
  by (simp_all add: send_segment_def Let_def split: prod.split)

lemma queue_transmission_True:
  assumes "queue_transmission pf s h v flags payload sequence = (s1, True)"
  obtains i s2 where "first_index (\<lambda>e. e = None) (sd_transmissions s) = Some i"
    "s2 = fst (send_segment pf s v flags payload sequence)" "sd_transmissions s2 = sd_transmissions s"
    "length payload \<le> transmit_segment_capacity" "\<not> has_key (h, sequence) (sd_transmissions s)"
    "s1 = s2\<lparr>sd_transmissions := (sd_transmissions s)[i := Some ((h, sequence),
       \<lparr>ts_retry_at = sd_now s2 + sk_rto v, ts_delay = sk_rto v, ts_first_sent = sd_now s2,
        ts_fast_retry = False, ts_flags = flags, ts_attempts = 1, ts_data = payload\<rparr>)]\<rparr>"
proof -
  obtain s2 ok where s2: "send_segment pf s v flags payload sequence = (s2, ok)" by (cases "send_segment pf s v flags payload sequence")
  have "sd_transmissions s2 = sd_transmissions s" using send_segment_keeps(1) [of pf s v flags payload sequence] s2 by simp
  with assms s2 that show thesis
    by (auto simp: queue_transmission_def split: if_splits option.splits)
qed

lemma queue_transmission_fills:
  assumes "queue_transmission pf s h v flags payload sequence = (s1, True)"
  shows "free_transmissions s1 < free_transmissions s"
  using assms
proof (rule queue_transmission_True)
  fix i s2
  assume i: "first_index (\<lambda>e. e = None) (sd_transmissions s) = Some i"
    and s1: "s1 = s2\<lparr>sd_transmissions := (sd_transmissions s)[i := Some ((h, sequence),
       \<lparr>ts_retry_at = sd_now s2 + sk_rto v, ts_delay = sk_rto v, ts_first_sent = sd_now s2,
        ts_fast_retry = False, ts_flags = flags, ts_attempts = 1, ts_data = payload\<rparr>)]\<rparr>"
  define e where "e = Some ((h, sequence), \<lparr>ts_retry_at = sd_now s2 + sk_rto v, ts_delay = sk_rto v, ts_first_sent = sd_now s2,
        ts_fast_retry = False, ts_flags = flags, ts_attempts = 1, ts_data = payload\<rparr>)"
  have "i < length (sd_transmissions s)" "sd_transmissions s ! i = None" using first_index_SomeD [OF i] by simp_all
  with length_filter_update [of i "sd_transmissions s" "\<lambda>e. e = None" e]
  show ?thesis by (simp add: free_transmissions_def s1 e_def)
qed

lemma queue_transmission_fills_sym:
  "(s1, True) = queue_transmission pf s h v flags payload sequence \<Longrightarrow> free_transmissions s1 < free_transmissions s"
  by (rule queue_transmission_fills [OF sym])

function write_loop ::
  "'d platform \<Rightarrow> 'd stack \<Rightarrow> socket_handle \<Rightarrow> socket_slot \<Rightarrow> u8 list \<Rightarrow> nat \<Rightarrow> nat \<Rightarrow> 'd stack \<times> socket_slot \<times> socket_result \<times> nat" where
  "write_loop pf s h v input available written =
     (if written < length input \<and> written < available then
        (let count = min (min (length input - written) (available - written)) (min transmit_segment_capacity (unat (sk_peer_mss v)))
         in case queue_transmission pf s h v (tcp_ack OR tcp_psh) (take count (drop written input)) (sk_send_next v) of
              (s1, ok) \<Rightarrow>
                if \<not> ok then (s1, v, if written = 0 then Sr_would_block else Sr_success, written)
                else write_loop pf s1 h
                       (v\<lparr>sk_progress_at := (if sk_send_unacknowledged v = sk_send_next v then sd_now s1 else sk_progress_at v),
                         sk_acknowledgement_retries := 0, sk_send_next := sk_send_next v + of_nat count\<rparr>)
                       input available (written + count))
      else (s, v, Sr_success, written))"
  by pat_completeness auto
termination
  by (relation "measure (\<lambda>(pf, s, h, v, input, available, written). free_transmissions s)")
    (auto intro: queue_transmission_fills_sym)

declare write_loop.simps [simp del]

definition socket_write :: "'d platform \<Rightarrow> 'd stack \<Rightarrow> socket_handle \<Rightarrow> u8 list \<Rightarrow> 'd stack \<times> socket_result \<times> nat" where
  "socket_write pf s0 h input =
     (let s = update_clock pf s0
      in case socket_at s h of
           None \<Rightarrow> (s, Sr_bad_handle, 0)
         | Some v0 \<Rightarrow>
             if sk_state v0 = St_reset then (s, sk_failure v0, 0)
             else if \<not> sock_writable (sd_sockets s) h then (s, Sr_not_connected, 0)
             else if input = [] then (s, Sr_success, 0)
             else
               let v = (if sk_send_next v0 = sk_send_unacknowledged v0 \<and> sd_now s - sk_progress_at v0 \<ge> sk_rto v0
                        then v0\<lparr>sk_congestion_window := min (sk_congestion_window v0) (4 * ucast (sk_peer_mss v0))\<rparr> else v0);
                   available = unat (send_space v)
               in if available = 0 then
                    (put_socket h (if sk_peer_window v = 0 \<and> \<not> sk_persist_waiting v
                       then v\<lparr>sk_persist_waiting := True, sk_progress_at := sd_now s, sk_persist_delay := sk_rto v,
                             sk_persist_retry_at := sd_now s + sk_rto v\<rparr> else v) s, Sr_would_block, 0)
                  else case write_loop pf s h v input available 0 of
                         (s1, v1, result, written) \<Rightarrow> (put_socket h v1 s1, result, written))"

definition socket_shutdown :: "'d platform \<Rightarrow> 'd stack \<Rightarrow> socket_handle \<Rightarrow> u32 \<Rightarrow> 'd stack \<times> socket_result" where
  "socket_shutdown pf s0 h how =
     (let s = update_clock pf s0
      in case socket_at s h of
           None \<Rightarrow> (s, Sr_bad_handle)
         | Some v \<Rightarrow>
             if how > 2 then (s, Sr_invalid_argument)
             else if \<not> is_connection (sk_state v) \<or> sk_state v = St_syn_received \<or> sk_state v = St_reset then (s, Sr_not_connected)
             else case (if how \<noteq> 0 then request_fin pf s v else (s, v)) of
                    (s1, v1) \<Rightarrow>
                      (put_socket h (if how \<noteq> 1 then v1\<lparr>sk_read_closed := True, sk_receive_buffer := [], sk_acknowledgement_retries := 1\<rparr>
                                     else v1) s1, Sr_success))"

definition socket_readable :: "'d stack \<Rightarrow> socket_handle \<Rightarrow> bool" where
  "socket_readable s h = sock_readable (sd_sockets s) h"

definition socket_writable :: "'d stack \<Rightarrow> socket_handle \<Rightarrow> bool" where
  "socket_writable s h \<longleftrightarrow> sock_writable (sd_sockets s) h \<and>
     (case socket_at s h of None \<Rightarrow> False | Some v \<Rightarrow> send_space v \<noteq> 0) \<and> list_ex (\<lambda>e. e = None) (sd_transmissions s)"

definition stack_tcp_table :: "'d stack \<Rightarrow> string" where
  "stack_tcp_table s = format_tcp_table (st_slots (sd_sockets s))"

end
