(* ===== verification/Tcp_Queue.thy ===== *)
theory Tcp_Queue
  imports Tcp_Stack
begin

text \<open>
  The sending side of \<^verbatim>\<open>network/stack.cpp\<close>, first part: the segments it builds are read
  back by the parser, and the lemmas on the transmission queue. The queue entries of a connection tile its
  unacknowledged bytes; writing appends a tile and an acknowledgement trims them.
\<close>

unbundle bit_operations_syntax

section \<open>Segments on the wire\<close>

lemma segment_options_cases:
  "segment_options v flags \<in> {[], [2, 4, 0x05, 0xb4], [2, 4, 0x05, 0xb4, 1, 3, 3, 0]}"
  by (simp add: segment_options_def)

lemma segment_options_parse:
  "parse_tcp_options (segment_options v flags) = Some
     (if flags AND tcp_syn = 0 then no_options
      else \<lparr>opt_maximum_segment_size = Some 1460, opt_window_scale = (if sk_scale_negotiated v then Some 0 else None)\<rparr>)"
proof -
  have "parse_tcp_options [] = Some no_options"
    "parse_tcp_options [2, 4, 0x05, 0xb4] = Some \<lparr>opt_maximum_segment_size = Some 1460, opt_window_scale = None\<rparr>"
    "parse_tcp_options [2, 4, 0x05, 0xb4, 1, 3, 3, 0] = Some \<lparr>opt_maximum_segment_size = Some 1460, opt_window_scale = Some 0\<rparr>"
    by code_simp+
  then show ?thesis by (simp add: segment_options_def)
qed

lemma segment_header_size: "tcp_header_size (segment_tcp v flags sequence) = 20 + length (segment_options v flags)"
proof -
  have "unat (drop_bit 4 (push_bit 4 (5 :: u8))) = 5" "unat (drop_bit 4 (push_bit 4 (6 :: u8))) = 6"
    "unat (drop_bit 4 (push_bit 4 (7 :: u8))) = 7" by code_simp+
  then show ?thesis
    using segment_options_cases [of v flags] by (auto simp: tcp_header_size_def segment_tcp_def)
qed

lemma unat_sub_capacity: "unat (of_nat (socket_receive_capacity - n) :: u16) = socket_receive_capacity - n"
  by (simp add: unat_of_nat)

text \<open>
  C38: a segment built for a connection is accepted by the parser at the other end, which recovers the
  addresses, the ports, the sequence and acknowledgement numbers, the flags, the advertised window (the free
  space of the receive buffer), the options of a SYN and the payload.
\<close>

theorem segment_round_trip:
  assumes "length (sk_remote_mac v) = 6" "length mac = 6"
    and "length (ep_address (sk_local v)) = 4" "length (ep_address (sk_remote v)) = 4"
    and "length payload \<le> transmit_buffer_size - (54 + length (segment_options v flags))"
  shows "\<exists>view. parse_tcp (segment_frame mac identification v flags payload sequence) (ep_address (sk_remote v)) = Some view \<and>
     eth_source (view_ethernet view) = mac \<and> eth_destination (view_ethernet view) = sk_remote_mac v \<and>
     ip_source (view_ip view) = ep_address (sk_local v) \<and>
     net16 (tcp_source_port (view_tcp view)) = ep_port (sk_local v) \<and>
     net16 (tcp_destination_port (view_tcp view)) = ep_port (sk_remote v) \<and>
     net32 (tcp_sequence (view_tcp view)) = sequence \<and>
     net32 (tcp_acknowledgement (view_tcp view)) = sk_receive_next v \<and>
     tcp_flags (view_tcp view) = flags \<and>
     (flags AND tcp_rst = 0 \<longrightarrow>
        unat (net16 (tcp_window (view_tcp view))) = socket_receive_capacity - length (sk_receive_buffer v)) \<and>
     view_options view = (if flags AND tcp_syn = 0 then no_options
        else \<lparr>opt_maximum_segment_size = Some 1460, opt_window_scale = (if sk_scale_negotiated v then Some 0 else None)\<rparr>) \<and>
     view_payload view = payload"
proof -
  define opts where "opts = segment_options v flags"
  define e where "e = \<lparr>eth_destination = sk_remote_mac v, eth_source = mac, eth_type = net16 0x0800\<rparr>"
  define i where "i = segment_ip identification v (40 + length opts + length payload)"
  define i1 where "i1 = i\<lparr>ip_checksum := net16 (internet_checksum (encode_ipv4 i))\<rparr>"
  define t where "t = segment_tcp v flags sequence"
  define t1 where "t1 = t\<lparr>tcp_checksum_field := net16 (tcp_checksum (ep_address (sk_local v)) (ep_address (sk_remote v))
      (encode_tcp t @ opts @ payload))\<rparr>"
  have frame: "segment_frame mac identification v flags payload sequence =
      encode_ethernet e @ encode_ipv4 i1 @ encode_tcp t1 @ opts @ payload"
    by (simp add: segment_frame_def Let_def e_def i_def i1_def t_def t1_def opts_def)
  have l: "40 + length opts + length payload < 65536"
    using assms(5) segment_options_cases [of v flags] by (auto simp: opts_def)
  have wf: "ethernet_wf e" "ipv4_wf i" "ipv4_wf i1" "ip_checksum i = 0" "tcp_checksum_field t = 0"
    using assms by (simp_all add: ethernet_wf_def ipv4_wf_def e_def i_def i1_def t_def segment_ip_def segment_tcp_def)
  have sz: "tcp_header_size t1 = 20 + length opts"
    using segment_header_size [of v flags sequence] by (simp add: tcp_header_size_def t1_def t_def opts_def)
  have ck: "internet_checksum (encode_ipv4 i1) = 0" unfolding i1_def by (rule encode_ipv4_checksum) (use wf in simp_all)
  have tk: "tcp_checksum (ip_source i1) (ip_destination i1) (encode_tcp t1 @ opts @ payload) = 0"
    using tcp_checksum_field [OF wf(5) assms(3,4), of "opts @ payload"] l
    by (simp add: t1_def i1_def i_def segment_ip_def)
  have "parse_tcp (segment_frame mac identification v flags payload sequence) (ip_destination i1) =
     Some \<lparr>view_ethernet = e, view_ip = i1, view_tcp = t1, view_payload = payload, view_options =
       (if flags AND tcp_syn = 0 then no_options
        else \<lparr>opt_maximum_segment_size = Some 1460, opt_window_scale = (if sk_scale_negotiated v then Some 0 else None)\<rparr>)\<rparr>"
    unfolding frame
    by (rule parse_tcp_frame [OF wf(1) _ wf(3) _ _ _ _ ck sz _ tk l])
      (simp_all add: e_def i1_def i_def segment_ip_def opts_def segment_options_parse del: of_nat_add)
  then show ?thesis
    by (simp add: i1_def i_def segment_ip_def e_def t1_def t_def segment_tcp_def unat_sub_capacity)
qed

definition demo_socket :: socket_slot where
  "demo_socket = socket_slot_init\<lparr>sk_state := St_established, sk_type := Stream,
     sk_local := \<lparr>ep_address = [10, 0, 2, 15], ep_port = 80\<rparr>, sk_remote := \<lparr>ep_address = [10, 0, 2, 2], ep_port = 4000\<rparr>,
     sk_remote_mac := [2, 0, 0, 0, 0, 1], sk_send_next := 1001, sk_send_unacknowledged := 1001, sk_receive_next := 501,
     sk_references := 1, sk_accepted := True\<rparr>"

theorem segment_round_trip_witness:
  "\<exists>view. parse_tcp (segment_frame [2, 0, 0, 0, 0, 9] 1 demo_socket (tcp_ack OR tcp_psh) [104, 105] 1001) [10, 0, 2, 2] = Some view \<and>
     net32 (tcp_sequence (view_tcp view)) = 1001 \<and> net32 (tcp_acknowledgement (view_tcp view)) = 501 \<and>
     view_payload view = [104, 105]"
proof -
  have s: "length (sk_remote_mac demo_socket) = 6" "ep_address (sk_local demo_socket) = [10, 0, 2, 15]"
    "ep_address (sk_remote demo_socket) = [10, 0, 2, 2]" "sk_receive_next demo_socket = 501"
    by (simp_all add: demo_socket_def)
  have "length (segment_options demo_socket (tcp_ack OR tcp_psh)) = 0" by code_simp
  then show ?thesis
    using segment_round_trip [of demo_socket "[2, 0, 0, 0, 0, 9]" "[104, 105]" "tcp_ack OR tcp_psh" 1 1001] s by auto
qed

section \<open>The transmission queue\<close>

text \<open>
  The queue entries of a connection, as pairs of a sequence number and data. They tile the
  unacknowledged bytes \<open>U\<close> when each entry is a part of \<open>U\<close> at its distance from the oldest
  unacknowledged sequence number, and every byte of \<open>U\<close> is in an entry.
\<close>

definition entries :: "socket_handle \<Rightarrow> transmit_store \<Rightarrow> (u32 \<times> u8 list) set" where
  "entries h ts = {(sequence, ts_data p) |sequence p. Some ((h, sequence), p) \<in> set ts}"

definition tiles :: "u32 \<Rightarrow> u8 list \<Rightarrow> (u32 \<times> u8 list) set \<Rightarrow> bool" where
  "tiles una U E \<longleftrightarrow>
     (\<forall>(q, d) \<in> E. d \<noteq> [] \<and> length d \<le> transmit_segment_capacity \<and> unat (q - una) + length d \<le> length U \<and>
        take (length d) (drop (unat (q - una)) U) = d) \<and>
     (\<forall>j < length U. \<exists>(q, d) \<in> E. unat (q - una) \<le> j \<and> j < unat (q - una) + length d)"

text \<open>
  \<open>W\<close> are the bytes written to the connection and \<open>base\<close> the sequence number of the first one.
\<close>

definition tx_stream :: "u32 \<Rightarrow> u8 list \<Rightarrow> socket_slot \<Rightarrow> (u32 \<times> u8 list) set \<Rightarrow> bool" where
  "tx_stream base W v E \<longleftrightarrow>
     sk_send_next v = base + of_nat (length W + (if sk_fin_sent v then 1 else 0)) \<and>
     (\<exists>k. sk_send_unacknowledged v = base + of_nat k \<and> k \<le> length W + (if sk_fin_sent v then 1 else 0) \<and>
        (sk_fin_sent v \<longrightarrow> length W \<le> k) \<and> tiles (sk_send_unacknowledged v) (drop k W) E)"

definition tx_slot :: "u32 \<Rightarrow> u8 list \<Rightarrow> socket_slot \<Rightarrow> (u32 \<times> u8 list) set \<Rightarrow> bool" where
  "tx_slot base W v E \<longleftrightarrow> rx_live v \<and> tx_stream base W v E \<and> sk_accepted v \<and>
     (sk_state v = St_fin_wait_2 \<or> sk_state v = St_time_wait \<or> sk_fin_acked v \<longrightarrow> sk_fin_sent v) \<and>
     sk_peer_mss v \<noteq> 0 \<and> (sk_fin_sent v \<longrightarrow> sk_send_closed v) \<and> (sk_detached v \<longrightarrow> sk_references v = 1)"

lemma tiles_empty [simp]: "tiles una [] E \<longleftrightarrow> E = {}"
  by (auto simp: tiles_def)

lemma tiles_bound:
  assumes "tiles una U E" "finite E" "card E \<le> n"
  shows "length U \<le> n * transmit_segment_capacity"
proof -
  let ?I = "\<lambda>(q, d). {unat (q - una)..<unat (q - una) + length d}"
  have "{..<length U} \<subseteq> (\<Union>e\<in>E. ?I e)" using assms(1) unfolding tiles_def by fastforce
  then have "length U \<le> card (\<Union>e\<in>E. ?I e)"
    using card_mono [of "\<Union>e\<in>E. ?I e" "{..<length U}"] assms(2) by (simp add: case_prod_unfold)
  also have "\<dots> \<le> (\<Sum>e\<in>E. card (?I e))" by (rule card_UN_le [OF assms(2)])
  also have "\<dots> \<le> card E * transmit_segment_capacity"
    by (rule sum_bounded_above [of E _ transmit_segment_capacity, simplified])
      (use assms(1) in \<open>auto simp: tiles_def\<close>)
  also have "\<dots> \<le> n * transmit_segment_capacity" using assms(3) by simp
  finally show ?thesis .
qed

lemma entries_finite [simp]: "finite (entries h ts)"
  and entries_card: "card (entries h ts) \<le> length ts"
proof -
  let ?f = "\<lambda>e. case e of Some ((_, sequence), p) \<Rightarrow> (sequence, ts_data p) | None \<Rightarrow> (0, [])"
  have sub: "entries h ts \<subseteq> ?f ` set ts" unfolding entries_def by force
  then show "finite (entries h ts)" by (rule finite_subset) simp
  have "card (entries h ts) \<le> card (?f ` set ts)" by (rule card_mono [OF _ sub]) simp
  also have "\<dots> \<le> length ts" using card_image_le [of "set ts" ?f] card_length [of ts] by simp
  finally show "card (entries h ts) \<le> length ts" .
qed

text \<open>Acknowledging the first \<open>a\<close> bytes trims the entries.\<close>

definition trim :: "u32 \<Rightarrow> u32 \<times> u8 list \<Rightarrow> (u32 \<times> u8 list) option" where
  "trim ack e =
     (case e of (q, d) \<Rightarrow>
        if sint (ack - q) \<le> 0 then Some (q, d)
        else if unat (ack - q) \<ge> length d then None
        else Some (ack, drop (unat (ack - q)) d))"

lemma trim_at:
  assumes "o1 < 2 ^ 31" "a < 2 ^ 31"
  shows "trim (una + of_nat a) (una + of_nat o1, d) =
     (if a \<le> o1 then Some (una + of_nat o1, d) else if a \<ge> o1 + length d then None
      else Some (una + of_nat a, drop (a - o1) d))"
  using sequence_distance [OF assms(2,1), of una] sequence_ahead [OF assms(2), of o1 una]
  by (auto simp: trim_def)

lemma tiles_entry:
  assumes "tiles una U E" "(q, d) \<in> E" "length U < 2 ^ 31"
  obtains o1 where "q = una + of_nat o1" "o1 = unat (q - una)" "o1 < 2 ^ 31" "d \<noteq> []" "length d \<le> transmit_segment_capacity"
    "o1 + length d \<le> length U" "take (length d) (drop o1 U) = d"
proof (rule that [of "unat (q - una)"])
  have "d \<noteq> [] \<and> length d \<le> transmit_segment_capacity \<and> unat (q - una) + length d \<le> length U \<and>
      take (length d) (drop (unat (q - una)) U) = d"
    using assms(1,2) unfolding tiles_def by blast
  then show "d \<noteq> []" "length d \<le> transmit_segment_capacity" "unat (q - una) + length d \<le> length U"
    "take (length d) (drop (unat (q - una)) U) = d" "unat (q - una) < 2 ^ 31" using assms(3) by auto
qed simp_all

lemma unat_offset: "o1 < 2 ^ 31 \<Longrightarrow> unat (una + of_nat o1 - una :: u32) = o1"
  by (simp add: unat_of_nat)

lemma tiles_trim:
  assumes t: "tiles una U E" and l: "length U < 2 ^ 31" and a: "a \<le> length U"
  shows "tiles (una + of_nat a) (drop a U) {e'. \<exists>e\<in>E. trim (una + of_nat a) e = Some e'}"
    (is "tiles ?ack _ ?E")
proof -
  have a31: "a < 2 ^ 31" using a l by simp
  have part: "d \<noteq> [] \<and> length d \<le> transmit_segment_capacity \<and> unat (q - ?ack) + length d \<le> length (drop a U) \<and>
      take (length d) (drop (unat (q - ?ack)) (drop a U)) = d" if e0: "(q, d) \<in> ?E" for q d
  proof -
    obtain q0 d0 where e: "(q0, d0) \<in> E" "trim ?ack (q0, d0) = Some (q, d)" using e0 by auto
    from t e(1) l obtain o1 where o1: "q0 = una + of_nat o1" "o1 < 2 ^ 31" "d0 \<noteq> []" "length d0 \<le> transmit_segment_capacity"
      "o1 + length d0 \<le> length U" "take (length d0) (drop o1 U) = d0" by (rule tiles_entry)
    note tr = e(2) [unfolded o1(1) trim_at [OF o1(2) a31]]
    show ?thesis
    proof (cases "a \<le> o1")
      case True
      then have q: "q = una + of_nat o1" "d = d0" using tr by auto
      have "unat (q - ?ack) = o1 - a" unfolding q(1) by (rule sequence_ahead [OF o1(2) True])
      then show ?thesis using True o1 q(2) by (simp add: drop_drop)
    next
      case False
      then have q: "q = ?ack" "d = drop (a - o1) d0" "a < o1 + length d0" using tr by (auto split: if_splits)
      have "take (length d) (drop a U) = drop (a - o1) (take (length d0) (drop o1 U))"
        using False q(2) by (simp add: drop_take drop_drop)
      then have "take (length d) (drop a U) = d" using o1(6) q(2) by simp
      then show ?thesis using False o1 q by auto
    qed
  qed
  have cover: "\<exists>(q, d) \<in> ?E. unat (q - ?ack) \<le> j \<and> j < unat (q - ?ack) + length d" if "j < length (drop a U)" for j
  proof -
    have "a + j < length U" using that by simp
    then obtain q0 d0 where e: "(q0, d0) \<in> E" "unat (q0 - una) \<le> a + j" "a + j < unat (q0 - una) + length d0"
      using t unfolding tiles_def by blast
    from t e(1) l obtain o1 where o1: "q0 = una + of_nat o1" "o1 = unat (q0 - una)" "o1 < 2 ^ 31" by (rule tiles_entry)
    note tr = trim_at [OF o1(3) a31, of una d0, folded o1(1)]
    show ?thesis
    proof (cases "a \<le> o1")
      case True
      have "unat (q0 - ?ack) = o1 - a" unfolding o1(1) by (rule sequence_ahead [OF o1(3) True])
      moreover have "(q0, d0) \<in> ?E" using True tr e(1) by auto
      ultimately show ?thesis using True e(2,3) o1(2) by fastforce
    next
      case False
      then have "trim ?ack (q0, d0) = Some (?ack, drop (a - o1) d0)" using tr e o1(2) by simp
      then have "(?ack, drop (a - o1) d0) \<in> ?E" using e(1) by blast
      moreover have "j < length (drop (a - o1) d0)" using False e(3) o1(2) by simp
      ultimately show ?thesis by fastforce
    qed
  qed
  from part cover show ?thesis unfolding tiles_def by blast
qed

lemma tiles_append:
  assumes t: "tiles una U E" and l: "length U + length d < 2 ^ 31" and d: "d \<noteq> []" "length d \<le> transmit_segment_capacity"
  shows "tiles una (U @ d) (insert (una + of_nat (length U), d) E)"
proof -
  have o1: "unat (una + of_nat (length U) - una) = length U" using l by (intro unat_offset) simp
  have "\<exists>(q, d') \<in> insert (una + of_nat (length U), d) E. unat (q - una) \<le> j \<and> j < unat (q - una) + length d'"
    if j: "j < length (U @ d)" for j
  proof (cases "j < length U")
    case True
    then show ?thesis using t unfolding tiles_def by blast
  next
    case False
    then show ?thesis using o1 j by (intro bexI [of _ "(una + of_nat (length U), d)"]) auto
  qed
  moreover have "d' \<noteq> [] \<and> length d' \<le> transmit_segment_capacity \<and> unat (q - una) + length d' \<le> length (U @ d) \<and>
        take (length d') (drop (unat (q - una)) (U @ d)) = d'" if e: "(q, d') \<in> insert (una + of_nat (length U), d) E" for q d'
  proof (cases "(q, d') = (una + of_nat (length U), d)")
    case True
    then show ?thesis using o1 d by auto
  next
    case False
    then show ?thesis using t e unfolding tiles_def by (fastforce simp: drop_append)
  qed
  ultimately show ?thesis unfolding tiles_def by blast
qed

text \<open>What the queue invariant sees of the store: owner, sequence number and data of each slot.\<close>

definition store_view :: "transmit_store \<Rightarrow> ((socket_handle \<times> u32) \<times> u8 list) option list" where
  "store_view ts = map (map_option (map_prod id ts_data)) ts"

lemma entries_view: "entries h ts = {(q, d). Some ((h, q), d) \<in> set (store_view ts)}"
proof -
  have "(\<exists>p. d = ts_data p \<and> Some ((h, q), p) \<in> set ts) \<longleftrightarrow> Some ((h, q), d) \<in> set (store_view ts)" (is "?l \<longleftrightarrow> ?r") for q d
  proof
    show "?l \<Longrightarrow> ?r" by (force simp: store_view_def)
    assume ?r
    then obtain x where x: "x \<in> set ts" "Some ((h, q), d) = map_option (map_prod id ts_data) x" by (auto simp: store_view_def)
    show ?l by (insert x, cases x) auto
  qed
  then show ?thesis unfolding entries_def by auto
qed

lemma store_view_length [simp]: "length (store_view ts) = length ts"
  by (simp add: store_view_def)

lemma entries_cong: "store_view ts' = store_view ts \<Longrightarrow> entries h ts' = entries h ts"
  by (simp add: entries_view)

lemma store_view_update: "store_view (ts[i := e]) = (store_view ts)[i := map_option (map_prod id ts_data) e]"
  by (simp add: store_view_def map_update)

lemma entries_fill:
  assumes "i < length ts" "ts ! i = None"
  shows "entries h (ts[i := Some ((g, q), p)]) = (if g = h then insert (q, ts_data p) (entries h ts) else entries h ts)"
proof -
  have "Some x \<in> set (ts[i := Some ((g, q), p)]) \<longleftrightarrow> x = ((g, q), p) \<or> Some x \<in> set ts" for x
    using assms unfolding in_set_conv_nth length_list_update by (metis nth_list_update option.distinct(1) option.inject)
  then show ?thesis by (auto simp: entries_def)
qed

lemma entries_refresh:
  assumes "i < length ts" "ts ! i = Some (k, p)" "ts_data p' = ts_data p"
  shows "entries h (ts[i := Some (k, p')]) = entries h ts"
proof (rule entries_cong)
  have "store_view ts ! i = Some (k, ts_data p)" using assms by (simp add: store_view_def)
  then show "store_view (ts[i := Some (k, p')]) = store_view ts"
    using assms by (simp add: store_view_update list_update_same_conv)
qed

lemma entries_drop: "entries h (ts[i := None]) \<subseteq> entries h ts"
  unfolding entries_def using set_update_subset_insert [of ts i None] by blast

lemma entries_drop_other:
  assumes "i < length ts" "ts ! i = Some ((g, q), p)" "g \<noteq> h"
  shows "entries h (ts[i := None]) = entries h ts"
proof (rule subset_antisym [OF entries_drop])
  have "Some ((h, r), p') \<in> set (ts[i := None])" if s: "Some ((h, r), p') \<in> set ts" for r p'
    using s assms by (auto simp: in_set_conv_nth nth_list_update) (metis option.inject prod.inject)
  then show "entries h ts \<subseteq> entries h (ts[i := None])" unfolding entries_def by blast
qed

lemma entries_clear: "entries h (clear_transmissions g ts) = (if g = h then {} else entries h ts)"
  by (force simp: entries_def clear_transmissions_def split: option.splits if_splits)

lemma entries_restart [simp]: "entries h (restart_timers now g rto ts) = entries h ts"
  by (rule entries_cong) (auto simp: store_view_def restart_timers_def split: option.split)

lemma restart_timers_length [simp]: "length (restart_timers now g rto ts) = length ts"
  and clear_transmissions_length [simp]: "length (clear_transmissions g ts) = length ts"
  by (simp_all add: restart_timers_def clear_transmissions_def)

subsection \<open>Slots\<close>

definition tx_fields :: "socket_slot \<Rightarrow> socket_state \<times> u32 \<times> u32 \<times> bool \<times> bool \<times> bool \<times> bool \<times> bool \<times> u16 \<times> u16" where
  "tx_fields v = (sk_state v, sk_send_unacknowledged v, sk_send_next v, sk_fin_sent v, sk_fin_acked v, sk_accepted v,
     sk_detached v, sk_send_closed v, sk_references v, sk_peer_mss v)"

lemma tx_slot_cong: "tx_fields v' = tx_fields v \<Longrightarrow> tx_slot base W v' E \<longleftrightarrow> tx_slot base W v E"
  by (simp add: tx_fields_def tx_slot_def tx_stream_def rx_live_def)

text \<open>The bytes in flight fit the queue.\<close>

lemma tx_stream_flight:
  assumes "tx_stream base W v E" "finite E" "card E \<le> transmit_capacity"
  obtains k where "sk_send_unacknowledged v = base + of_nat k" "k \<le> length W + (if sk_fin_sent v then 1 else 0)"
    "sk_fin_sent v \<longrightarrow> length W \<le> k" "tiles (sk_send_unacknowledged v) (drop k W) E" "length W \<le> k + 16384"
proof -
  obtain k where k: "sk_send_unacknowledged v = base + of_nat k" "k \<le> length W + (if sk_fin_sent v then 1 else 0)"
    "sk_fin_sent v \<longrightarrow> length W \<le> k" "tiles (sk_send_unacknowledged v) (drop k W) E"
    using assms(1) unfolding tx_stream_def by blast
  show thesis using that [OF k] tiles_bound [OF k(4) assms(2,3)] by simp
qed

lemma send_fin_stream:
  assumes "tx_stream base W v E" "finite E" "card E \<le> transmit_capacity" "\<not> sk_fin_sent v" "sk_send_unacknowledged v = sk_send_next v"
  shows "tx_stream base W (v\<lparr>sk_send_next := sk_send_next v + 1, sk_fin_sent := True\<rparr>) E"
proof -
  from assms(1-3) obtain k where k: "sk_send_unacknowledged v = base + of_nat k" "k \<le> length W + (if sk_fin_sent v then 1 else 0)"
    "tiles (sk_send_unacknowledged v) (drop k W) E" "length W \<le> k + 16384" by (rule tx_stream_flight)
  have nxt: "sk_send_next v = base + of_nat (length W)" using assms(1,4) by (simp add: tx_stream_def)
  have "k \<le> length W" using k(2) assms(4) by simp
  then have "of_nat (length W - k) = (0 :: u32)" using k(1) nxt assms(5) by (simp add: of_nat_diff)
  moreover have "length W - k < 4294967296" using k(4) by simp
  ultimately have "k = length W" using \<open>k \<le> length W\<close> unat_of_nat_u32 [of "length W - k"] by simp
  then show ?thesis using k(1,3) nxt unfolding tx_stream_def by (auto intro!: exI [of _ k])
qed

lemma send_segment_eqs:
  "send_segment pf s v flags payload sequence = (s1, ok) \<Longrightarrow> sd_transmissions s1 = sd_transmissions s \<and>
     sd_sockets s1 = sd_sockets s \<and> sd_now s1 = sd_now s \<and> sd_interface s1 = sd_interface s"
  using send_segment_keeps [of pf s v flags payload sequence] by simp

lemma send_fin_keeps [simp]:
  "sd_sockets (fst (send_fin pf s v)) = sd_sockets s" "sd_transmissions (fst (send_fin pf s v)) = sd_transmissions s"
  "sd_now (fst (send_fin pf s v)) = sd_now s"
  by (simp_all add: send_fin_def Let_def send_segment_eqs split: prod.split)

end
