(* ===== verification/Tcp_Sender.thy ===== *)
theory Tcp_Sender
  imports Tcp_Queue
begin

text \<open>
  The sending side of \<^verbatim>\<open>network/stack.cpp\<close>, second part: every operation of the stack keeps
  the invariant of a connection that its queue holds what was written and not yet acknowledged.
\<close>

unbundle bit_operations_syntax

section \<open>What table operations keep of a live connection\<close>

definition keeps_slot :: "socket_handle \<Rightarrow> socket_table \<Rightarrow> socket_table \<Rightarrow> bool" where
  "keeps_slot h t t' \<longleftrightarrow> length (st_slots t') = length (st_slots t) \<and> st_slots t' ! h = st_slots t ! h"

definition owned_live :: "socket_handle \<Rightarrow> socket_table \<Rightarrow> bool" where
  "owned_live h t \<longleftrightarrow> h < length (st_slots t) \<and> rx_live (st_slots t ! h) \<and> sk_accepted (st_slots t ! h)"

lemma keeps_slot_refl [simp]: "keeps_slot h t t"
  by (simp add: keeps_slot_def)

lemma keeps_slot_trans: "keeps_slot h t u \<Longrightarrow> keeps_slot h u w \<Longrightarrow> keeps_slot h t w"
  by (simp add: keeps_slot_def)

lemma keeps_slot_put [simp]: "g \<noteq> h \<Longrightarrow> keeps_slot h t (put_slot g v (t\<lparr>st_reassembly := rs\<rparr>))"
  "g \<noteq> h \<Longrightarrow> keeps_slot h t (put_slot g v t)" "keeps_slot h t (t\<lparr>st_reassembly := rs\<rparr>)"
  by (simp_all add: keeps_slot_def)

lemma keeps_slot_put_after:
  "g \<noteq> h \<Longrightarrow> keeps_slot h t u \<Longrightarrow> keeps_slot h t (put_slot g v (u\<lparr>st_reassembly := rs\<rparr>))"
  by (simp add: keeps_slot_def)

lemma owned_live_keeps: "owned_live h t \<Longrightarrow> keeps_slot h t t' \<Longrightarrow> owned_live h t'"
  by (simp add: owned_live_def keeps_slot_def)

lemma owned_live_states:
  assumes "owned_live h t"
  shows "sk_state (st_slots t ! h) \<notin> {St_free, St_control, St_created, St_bound, St_listening, St_syn_received, St_closed, St_reset}"
  using assms by (cases "sk_state (st_slots t ! h)") (auto simp: owned_live_def rx_live_def)

lemma sock_allocate_other:
  assumes "owned_live h t" "sock_allocate t \<noteq> invalid_socket"
  shows "sock_allocate t \<noteq> h"
  using assms owned_live_states [OF assms(1)]
  by (auto simp: sock_allocate_def split: option.splits dest: first_index_SomeD)

lemma sock_open_keeps: "owned_live h t \<Longrightarrow> keeps_slot h t (fst (sock_open t ty))"
  using sock_allocate_other by (auto simp: sock_open_def Let_def)

lemma sock_retain_keeps: "g \<noteq> h \<Longrightarrow> keeps_slot h t (fst (sock_retain t g))"
  by (simp add: sock_retain_def split: option.split)

lemma drop_pending_keeps: "owned_live h t \<Longrightarrow> keeps_slot h t (drop_pending g i t)"
  by (cases "i = h") (auto simp: drop_pending_def Let_def keeps_slot_def owned_live_def)

lemma fold_drop_pending_keeps: "owned_live h t \<Longrightarrow> keeps_slot h t (fold (drop_pending g) is t)"
proof (induction "is" arbitrary: t)
  case (Cons i "is")
  note d = drop_pending_keeps [OF Cons.prems, of g i]
  show ?case using Cons.IH [OF owned_live_keeps [OF Cons.prems d]] keeps_slot_trans [OF d] by simp
qed simp

lemma sock_release_keeps:
  assumes "owned_live h t" "g \<noteq> h"
  shows "keeps_slot h t (fst (sock_release t g))"
proof (cases "sock_slot t g")
  case (Some v)
  have k: "keeps_slot h t (put_slot g w t)" for w using assms(2) by simp
  have "keeps_slot h t (fold (drop_pending g) is (put_slot g w t))" for "is" w
    by (rule keeps_slot_trans [OF k fold_drop_pending_keeps [OF owned_live_keeps [OF assms(1) k]]])
  with Some assms(2) show ?thesis
    by (simp add: sock_release_def Let_def keeps_slot_put_after)
qed (simp add: sock_release_def)

lemma sock_bind_keeps: "owned_live h t \<Longrightarrow> keeps_slot h t (fst (sock_bind t g local))"
  using owned_live_states [of h t]
  by (cases "g = h") (auto simp: sock_bind_def Let_def dest: sock_slot_SomeD split: option.split)

lemma sock_listen_keeps: "owned_live h t \<Longrightarrow> keeps_slot h t (fst (sock_listen t g backlog))"
  using owned_live_states [of h t]
  by (cases "g = h") (auto simp: sock_listen_def Let_def dest: sock_slot_SomeD split: option.split)

lemma begin_connection_keeps: "owned_live h t \<Longrightarrow> keeps_slot h t (fst (begin_connection t lh local remote mac rseq lseq))"
  using sock_allocate_other by (auto simp: begin_connection_def Let_def split: option.split)

lemma sock_establish_keeps: "owned_live h t \<Longrightarrow> keeps_slot h t (fst (sock_establish t g ack))"
  using owned_live_states [of h t]
  by (cases "g = h") (auto simp: sock_establish_def dest: sock_slot_SomeD split: option.split)

lemma sock_accept_keeps:
  assumes "owned_live h t"
  shows "keeps_slot h t (fst (sock_accept t g))"
proof (cases "first_index (acceptable_connection g) (st_slots t)")
  case (Some i)
  then have "i \<noteq> h" using assms by (auto simp: acceptable_connection_def owned_live_def dest: first_index_SomeD)
  then show ?thesis using Some by (simp add: sock_accept_def split: option.split)
qed (simp add: sock_accept_def split: option.split)

lemma receive_in_window_keeps: "g \<noteq> h \<Longrightarrow> keeps_slot h t (fst (receive_in_window t g v sequence data finish d))"
  using receive_in_window_other [of t g v sequence data finish d _ _ _ h]
  by (metis keeps_slot_def prod_cases3 fst_conv)

lemma sock_receive_keeps: "g \<noteq> h \<Longrightarrow> keeps_slot h t (fst (sock_receive t g sequence data finish))"
  by (simp add: sock_receive_def Let_def receive_in_window_keeps split: option.split)

lemma sock_read_keeps: "g \<noteq> h \<Longrightarrow> keeps_slot h t (fst (sock_read t g sz))"
  by (simp add: sock_read_def Let_def split: option.split prod.split)

lemma sock_reset_keeps: "owned_live h t \<Longrightarrow> g \<noteq> h \<Longrightarrow> keeps_slot h t (sock_reset t g failure)"
  by (simp add: sock_reset_def sock_release_keeps split: option.split)

lemmas table_keeps = sock_open_keeps sock_retain_keeps sock_release_keeps sock_bind_keeps sock_listen_keeps
  begin_connection_keeps sock_establish_keeps sock_accept_keeps sock_receive_keeps sock_read_keeps sock_reset_keeps

text \<open>Receiving and reading on the connection itself only touch the receive side of its slot.\<close>

lemma receive_in_window_rx:
  assumes "sock_slot t h = Some v"
  shows "length (st_slots (fst (receive_in_window t h v sequence data finish d))) = length (st_slots t) \<and>
    rx_frame v (st_slots (fst (receive_in_window t h v sequence data finish d)) ! h)"
proof -
  note v = sock_slot_SomeD [OF assms]
  define f avail where "f = (of_nat (socket_receive_capacity - length (sk_receive_buffer v)) :: u32)" and "avail = unat (f - d)"
  define fin where "fin = (finish \<and> length data < avail)"
  note unf = receive_in_window_def [of t h v sequence data finish d, unfolded Let_def f_def [symmetric] avail_def [symmetric] fin_def [symmetric]]
  obtain v1 r1 a1 where app: "append_received v (take avail data) fin = (v1, r1, a1)" by (metis prod_cases3)
  obtain v2 rs r2 m where dr: "drain_reassembly h v1 (st_reassembly t) 0 = (v2, rs, r2, m)" by (metis prod_cases4)
  have f1: "rx_frame v v1" using append_received_frame [of v "take avail data" fin] app by simp
  have f2: "rx_frame v v2" by (rule rx_frame_trans [OF f1 drain_reassembly_frame [OF dr]])
  show ?thesis unfolding unf using v f1 f2 by (simp add: app dr split: prod.split)
qed

lemma sock_receive_rx:
  assumes "h < length (st_slots t)"
  shows "length (st_slots (fst (sock_receive t h sequence data finish))) = length (st_slots t) \<and>
    rx_frame (st_slots t ! h) (st_slots (fst (sock_receive t h sequence data finish)) ! h)"
proof (cases "sock_slot t h")
  case (Some v)
  with receive_in_window_rx [OF Some] sock_slot_SomeD [OF Some] show ?thesis by (simp add: sock_receive_def Let_def)
qed (simp add: sock_receive_def)

lemma sock_read_rx:
  assumes "h < length (st_slots t)"
  shows "length (st_slots (fst (sock_read t h sz))) = length (st_slots t) \<and>
    rx_frame (st_slots t ! h) (st_slots (fst (sock_read t h sz)) ! h)"
proof (cases "sock_slot t h")
  case (Some v)
  define v1 where "v1 = v\<lparr>sk_receive_buffer := drop (min sz (length (sk_receive_buffer v))) (sk_receive_buffer v)\<rparr>"
  obtain v2 rs r2 m where dr: "drain_reassembly h v1 (st_reassembly t) 0 = (v2, rs, r2, m)" by (metis prod_cases4)
  have "rx_frame v v1" by (auto simp: rx_frame_def rx_rest_def v1_def)
  from rx_frame_trans [OF this drain_reassembly_frame [OF dr]] Some dr sock_slot_SomeD [OF Some] show ?thesis
    by (simp add: sock_read_def Let_def v1_def)
qed (simp add: sock_read_def)

subsection \<open>What stack operations keep of the sending side\<close>

abbreviation slot_of :: "socket_handle \<Rightarrow> 'd stack \<Rightarrow> socket_slot" where
  "slot_of h s \<equiv> st_slots (sd_sockets s) ! h"

definition same_tx :: "socket_handle \<Rightarrow> 'd stack \<Rightarrow> 'd stack \<Rightarrow> bool" where
  "same_tx h s s' \<longleftrightarrow> length (st_slots (sd_sockets s')) = length (st_slots (sd_sockets s)) \<and>
     length (sd_transmissions s') = length (sd_transmissions s) \<and> tx_fields (slot_of h s') = tx_fields (slot_of h s) \<and>
     entries h (sd_transmissions s') = entries h (sd_transmissions s)"

lemma same_tx_refl [simp]: "same_tx h s s"
  by (simp add: same_tx_def)

lemma same_tx_trans: "same_tx h s u \<Longrightarrow> same_tx h u w \<Longrightarrow> same_tx h s w"
  by (simp add: same_tx_def)

lemma same_tx_put:
  "(g = h \<Longrightarrow> tx_fields v = tx_fields (slot_of h s)) \<Longrightarrow> same_tx h s (put_socket g v s)"
  by (cases "g = h"; cases "g < length (st_slots (sd_sockets s))") (simp_all add: same_tx_def put_socket_def put_slot_def list_update_beyond)

lemma same_tx_eqs: "sd_sockets s' = sd_sockets s \<Longrightarrow> sd_transmissions s' = sd_transmissions s \<Longrightarrow> same_tx h s s'"
  by (simp add: same_tx_def)

lemma same_tx_keeps: "keeps_slot h (sd_sockets s) t \<Longrightarrow> same_tx h s (s\<lparr>sd_sockets := t\<rparr>)"
  by (simp add: same_tx_def keeps_slot_def)

lemma same_tx_send: "same_tx h s (fst (send_segment pf s v flags payload sequence))"
  by (rule same_tx_eqs) (simp_all add: send_segment_keeps)

lemma same_tx_clock: "same_tx h s (update_clock pf s)"
  by (rule same_tx_eqs) (simp_all add: update_clock_def split: prod.split)

lemma same_tx_fold:
  assumes "\<And>x s. x \<in> set xs \<Longrightarrow> same_tx h s (f x s)"
  shows "same_tx h s (fold f xs s)"
  using assms by (induction xs arbitrary: s) (auto intro: same_tx_trans)

lemma flush_acknowledgement_keeps:
  assumes "flush_acknowledgement pf s v = (s1, v1)"
  shows "sd_sockets s1 = sd_sockets s" "sd_transmissions s1 = sd_transmissions s" "tx_fields v1 = tx_fields v" "sd_now s1 = sd_now s"
  using assms by (auto simp: flush_acknowledgement_def tx_fields_def send_segment_eqs split: if_splits prod.splits)

lemma same_tx_flush_acknowledgements: "same_tx h s (flush_acknowledgements pf s)"
  unfolding flush_acknowledgements_def
proof (rule same_tx_fold)
  fix g and s :: "'a stack"
  obtain s1 v where e: "flush_acknowledgement pf s (slot_of g s) = (s1, v)" by fastforce
  note k = flush_acknowledgement_keeps [OF e]
  show "same_tx h s (case flush_acknowledgement pf s (slot_of g s) of (s1, v) \<Rightarrow> put_socket g v s1)"
    unfolding e prod.case by (rule same_tx_trans [OF same_tx_eqs [OF k(1,2)] same_tx_put]) (use k in simp)
qed

lemma same_tx_allow: "same_tx h s (fst (allow_control_reply s))"
  by (rule same_tx_eqs) (simp_all add: allow_control_reply_def Let_def)

lemma same_tx_challenge:
  assumes "g = h \<Longrightarrow> tx_fields v = tx_fields (slot_of h s)"
  shows "same_tx h s (challenge_ack pf s g v)"
proof -
  obtain s1 ok where a: "allow_control_reply s = (s1, ok)" by fastforce
  have s1: "same_tx h s s1" "sd_sockets s1 = sd_sockets s"
    using same_tx_allow [of h s] a by (auto simp: allow_control_reply_def Let_def split: if_splits)
  obtain s2 v1 where e: "flush_acknowledgement pf s1 (v\<lparr>sk_acknowledgement_retries := 1\<rparr>) = (s2, v1)" by fastforce
  note k = flush_acknowledgement_keeps [OF e]
  have "same_tx h s1 (put_socket g v s1)" using assms s1(2) by (intro same_tx_put) simp
  moreover have "same_tx h s1 (put_socket g v1 s2)"
    by (rule same_tx_trans [OF same_tx_eqs [OF k(1,2)] same_tx_put]) (use assms s1(2) k in \<open>simp add: tx_fields_def\<close>)
  ultimately show ?thesis using same_tx_trans [OF s1(1)] by (simp add: challenge_ack_def a e)
qed

lemma same_tx_retransmit:
  assumes "index < length (sd_transmissions s)" "sd_transmissions s ! index = Some ((g, sequence), pending)"
    and "v = slot_of g s"
  shows "same_tx h s (retransmit pf index g sequence pending v s)"
proof -
  define count where "count = min (length (ts_data pending)) (unat (max 1 (sk_peer_window v)))"
  obtain s1 ok where e: "send_segment pf s v (ts_flags pending) (take count (ts_data pending)) sequence = (s1, ok)" by fastforce
  note k = send_segment_eqs [OF e]
  define delay where "delay = (if \<not> ts_fast_retry pending then backoff (ts_delay pending) else ts_delay pending)"
  define p where "p = (if ok then pending\<lparr>ts_attempts := of_nat (min (unat (ts_attempts pending) + 1) 255), ts_delay := delay,
      ts_fast_retry := False, ts_retry_at := sd_now s1 + delay\<rparr> else pending\<lparr>ts_retry_at := sd_now s1 + tcp_driver_retry\<rparr>)"
  define v1 where "v1 = (if ok \<and> \<not> ts_fast_retry pending \<and> sk_peer_window v \<noteq> 0 then timeout_congestion v else v)"
  have r: "retransmit pf index g sequence pending v s = put_socket g v1 (s1\<lparr>sd_transmissions :=
      (sd_transmissions s1)[index := Some ((g, sequence), p)], sd_retry_cursor := (index + 1) mod length (sd_transmissions s1)\<rparr>)"
    "ts_data p = ts_data pending" "tx_fields v1 = tx_fields v"
    unfolding retransmit_def Let_def count_def [symmetric] e prod.case p_def v1_def delay_def
    by (simp_all add: timeout_congestion_def tx_fields_def)
  have "same_tx h s (s1\<lparr>sd_transmissions :=
      (sd_transmissions s1)[index := Some ((g, sequence), p)], sd_retry_cursor := (index + 1) mod length (sd_transmissions s1)\<rparr>)"
    using k assms(1,2) r(2) by (simp add: same_tx_def entries_refresh)
  from same_tx_trans [OF this same_tx_put] r(1,3) k assms(3) show ?thesis by simp
qed

lemma same_tx_retransmission_loop:
  assumes "h < length (st_slots (sd_sockets s))" "rx_live (slot_of h s)" "sd_transmissions s \<noteq> []"
  shows "same_tx h s (retransmission_loop pf cs s)"
  using assms
proof (induction cs arbitrary: s)
  case (Cons c cs)
  define index where "index = (sd_retry_cursor s + c) mod length (sd_transmissions s)"
  show ?case
  proof (cases "sd_transmissions s ! index")
    case None
    with Cons show ?thesis by (simp add: index_def)
  next
    case (Some e)
    then obtain g q p where e: "sd_transmissions s ! index = Some ((g, q), p)" by (metis surj_pair)
    show ?thesis
    proof -
      from Cons.prems(3) have i: "index < length (sd_transmissions s)" by (simp add: index_def)
      let ?d = "s\<lparr>sd_transmissions := (sd_transmissions s)[index := None]\<rparr>"
      have d: "g \<noteq> h \<Longrightarrow> same_tx h s ?d" using entries_drop_other [OF i e] by (simp add: same_tx_def)
      have dead: "g \<noteq> h" if "socket_at s g = None \<or> (\<exists>v. socket_at s g = Some v \<and> sk_state v = St_reset)"
        using that Cons.prems by (auto simp: socket_at_def sock_slot_def rx_live_def split: if_splits)
      have IH: "same_tx h ?d (retransmission_loop pf cs ?d)" using Cons.IH [of ?d] Cons.prems by simp
      have r: "same_tx h s (retransmit pf index g q p v s)" if "socket_at s g = Some v" for v
        using same_tx_retransmit [OF i e] that sock_slot_SomeD [of "sd_sockets s" g v] by (simp add: socket_at_def)
      show ?thesis
        using Cons.IH [OF Cons.prems] same_tx_trans [OF d IH] dead r e
        by (auto simp: index_def [symmetric] Let_def split: option.split)
    qed
  qed
qed simp

subsection \<open>Acknowledgements trim the queue\<close>

definition trim_slot :: "socket_handle \<Rightarrow> u32 \<Rightarrow> ((socket_handle \<times> u32) \<times> transmit_segment) option \<Rightarrow>
    ((socket_handle \<times> u32) \<times> transmit_segment) option" where
  "trim_slot g ack e =
     (case e of
        None \<Rightarrow> None
      | Some ((k, q), p) \<Rightarrow>
          if k \<noteq> g \<or> sint (ack - q) \<le> 0 then e
          else if unat (ack - q) \<ge> length (ts_data p) then None
          else Some ((g, ack), p\<lparr>ts_data := drop (unat (ack - q)) (ts_data p)\<rparr>))"

lemma ack_step_trim:
  assumes "i < length ts"
  shows "\<exists>v' b'. ack_step now g ack rt i (v, b, ts) = (v', b', ts[i := trim_slot g ack (ts ! i)]) \<and> tx_fields v' = tx_fields v"
proof (cases "ts ! i")
  case None
  then have "ts[i := trim_slot g ack (ts ! i)] = ts" using assms by (simp add: trim_slot_def list_update_same_conv)
  with None show ?thesis by (simp add: ack_step_def)
next
  case (Some e)
  then obtain k q p where e: "ts ! i = Some ((k, q), p)" by (metis surj_pair)
  have same: "k \<noteq> g \<or> sint (ack - q) \<le> 0 \<Longrightarrow> ts[i := trim_slot g ack (ts ! i)] = ts"
    using e by (simp add: trim_slot_def list_update_same_conv assms)
  have rtt: "tx_fields (update_rtt v x) = tx_fields v" for x by (simp add: update_rtt_def Let_def tx_fields_def)
  show ?thesis
    using same rtt by (cases "k \<noteq> g \<or> sint (ack - q) \<le> 0") (auto simp: ack_step_def e Let_def trim_slot_def)
qed

lemma ack_fold_trim:
  assumes "n \<le> length ts"
  shows "\<exists>v' b'. fold (ack_step now g ack rt) [0..<n] (v, b, ts) =
     (v', b', map (trim_slot g ack) (take n ts) @ drop n ts) \<and> tx_fields v' = tx_fields v"
  using assms
proof (induction n)
  case (Suc n)
  then obtain v1 b1 where f: "fold (ack_step now g ack rt) [0..<n] (v, b, ts) =
     (v1, b1, map (trim_slot g ack) (take n ts) @ drop n ts)" "tx_fields v1 = tx_fields v" by auto
  let ?ts = "map (trim_slot g ack) (take n ts) @ drop n ts"
  have n: "n < length ts" using Suc.prems by simp
  have len: "length (take n ts) = n" using n by simp
  have at: "?ts ! n = ts ! n" using n by (simp add: nth_append)
  have up: "?ts[n := trim_slot g ack (ts ! n)] = map (trim_slot g ack) (take (Suc n) ts) @ drop (Suc n) ts"
    using n by (simp add: list_update_append take_Suc_conv_app_nth Cons_nth_drop_Suc [symmetric])
  from ack_step_trim [of n ?ts now g ack rt v1 b1] n at up f show ?case by auto
qed simp

lemma trim_slot_SomeE:
  assumes "e \<in> set ts" "trim_slot g ack e = Some x"
  obtains k q p where "e = Some ((k, q), p)"
proof (cases e)
  case (Some y)
  then show thesis using that by (cases y) (metis prod.exhaust)
qed (use assms in \<open>simp add: trim_slot_def\<close>)

lemma entries_map_trim:
  "entries h (map (trim_slot g ack) ts) =
     (if g = h then {e'. \<exists>e\<in>entries h ts. trim ack e = Some e'} else entries h ts)"
proof -
  have 1: "(q', d') \<in> entries h (map (trim_slot g ack) ts) \<longleftrightarrow>
      (\<exists>k q p p'. Some ((k, q), p) \<in> set ts \<and> trim_slot g ack (Some ((k, q), p)) = Some ((h, q'), p') \<and> ts_data p' = d')" for q' d'
  proof -
    have "Some x \<in> set (map (trim_slot g ack) ts) \<longleftrightarrow>
        (\<exists>k q p. Some ((k, q), p) \<in> set ts \<and> trim_slot g ack (Some ((k, q), p)) = Some x)" for x
    proof
      assume "Some x \<in> set (map (trim_slot g ack) ts)"
      then obtain e where e: "e \<in> set ts" "trim_slot g ack e = Some x" by auto
      then obtain k q p where "e = Some ((k, q), p)" by (rule trim_slot_SomeE)
      with e show "\<exists>k q p. Some ((k, q), p) \<in> set ts \<and> trim_slot g ack (Some ((k, q), p)) = Some x" by blast
    qed (metis image_eqI set_map)
    then show ?thesis unfolding entries_def by blast
  qed
  have 2: "(\<exists>p'. trim_slot g ack (Some ((k, q), p)) = Some ((h, q'), p') \<and> ts_data p' = d') \<longleftrightarrow>
      k = h \<and> (if g = h then trim ack (q, ts_data p) = Some (q', d') else q' = q \<and> d' = ts_data p)" for k q p q' d'
    by (auto simp: trim_slot_def trim_def)
  have 3: "(q', d') \<in> entries h (map (trim_slot g ack) ts) \<longleftrightarrow>
      (\<exists>q p. Some ((h, q), p) \<in> set ts \<and> (if g = h then trim ack (q, ts_data p) = Some (q', d') else q' = q \<and> d' = ts_data p))" for q' d'
  proof -
    have "(\<exists>k q p p'. Some ((k, q), p) \<in> set ts \<and> trim_slot g ack (Some ((k, q), p)) = Some ((h, q'), p') \<and> ts_data p' = d') \<longleftrightarrow>
        (\<exists>k q p. Some ((k, q), p) \<in> set ts \<and> (\<exists>p'. trim_slot g ack (Some ((k, q), p)) = Some ((h, q'), p') \<and> ts_data p' = d'))"
      by blast
    then show ?thesis unfolding 1 2 by simp
  qed
  show ?thesis
  proof (rule set_eqI)
    fix e :: "u32 \<times> u8 list"
    obtain q' d' where e: "e = (q', d')" by (cases e)
    show "e \<in> entries h (map (trim_slot g ack) ts) \<longleftrightarrow>
        e \<in> (if g = h then {e'. \<exists>e\<in>entries h ts. trim ack e = Some e'} else entries h ts)"
      unfolding e 3 by (cases "g = h") (auto simp: entries_def)
  qed
qed

lemma acknowledge_eq:
  assumes "sint (ack - sk_send_unacknowledged v) > 0" "acknowledge_transmissions now ts g v ack = (ts', v')"
  obtains "length ts' = length ts" "entries h ts' = entries h (map (trim_slot g ack) ts)"
    "tx_fields v' = tx_fields (v\<lparr>sk_send_unacknowledged := ack\<rparr>)"
proof -
  define v1 where "v1 = grow_congestion (v\<lparr>sk_duplicate_acks := 0\<rparr>) (ack - sk_send_unacknowledged v)"
  have t1: "tx_fields v1 = tx_fields v" by (simp add: v1_def grow_congestion_def Let_def tx_fields_def)
  define rt where "rt = list_ex (\<lambda>e. case e of Some ((k, _), p) \<Rightarrow> k = g \<and> ts_attempts p > 1 | None \<Rightarrow> False) ts"
  from ack_fold_trim [of "length ts" ts now g ack rt v1 False]
  obtain v2 b where f: "fold (ack_step now g ack rt) [0..<length ts] (v1, False, ts) = (v2, b, map (trim_slot g ack) ts)"
    "tx_fields v2 = tx_fields v1" by auto
  have "ts' = restart_timers now g (sk_rto v2) (map (trim_slot g ack) ts)"
    "v' = v2\<lparr>sk_send_unacknowledged := ack, sk_progress_at := now\<rparr>"
    using assms unfolding acknowledge_transmissions_def Let_def v1_def [symmetric] rt_def [symmetric] f(1) by auto
  then show thesis using that t1 f(2) by (simp add: tx_fields_def)
qed

lemma sint_pos_unat:
  assumes "sint (w :: u32) > 0"
  shows "unat w < 2 ^ 31"
proof (rule ccontr)
  define z where "z = uint w - 2 ^ 32"
  assume "\<not> unat w < 2 ^ 31"
  then have "2147483648 \<le> unat w" by simp
  moreover have "int (unat w) = uint w" by simp
  ultimately have "uint w \<ge> 2147483648" by linarith
  moreover have "uint w < 2 ^ 32" using uint_bounded [of w] by simp
  ultimately have z: "- (2 ^ 31) \<le> z" "z < 0" by (simp_all add: z_def)
  have "w = of_int z" by (simp add: z_def)
  then have "sint w = signed_take_bit 31 z" by (simp add: signed_of_int)
  also have "\<dots> = z" using z by (intro signed_take_bit_int_eq_self) simp_all
  finally show False using assms z by simp
qed

lemma tx_slot_acknowledge:
  assumes t: "tx_slot base W v E" and E: "finite E" "card E \<le> transmit_capacity"
    and a: "sint (ack - sk_send_unacknowledged v) > 0" "sint (ack - sk_send_next v) \<le> 0"
  shows "tx_slot base W (v\<lparr>sk_send_unacknowledged := ack\<rparr>) {e'. \<exists>e\<in>E. trim ack e = Some e'}"
proof -
  define fin where "fin = (if sk_fin_sent v then 1 else 0 :: nat)"
  have ts: "tx_stream base W v E" using t by (simp add: tx_slot_def)
  from ts E obtain k where k: "sk_send_unacknowledged v = base + of_nat k" "k \<le> length W + fin"
    "sk_fin_sent v \<longrightarrow> length W \<le> k" "tiles (sk_send_unacknowledged v) (drop k W) E" "length W \<le> k + 16384"
    unfolding fin_def by (rule tx_stream_flight)
  define n where "n = unat (ack - sk_send_unacknowledged v)"
  have n31: "n < 2 ^ 31" unfolding n_def by (rule sint_pos_unat [OF a(1)])
  have ack: "ack = sk_send_unacknowledged v + of_nat n" by (simp add: n_def)
  have nxt: "sk_send_next v = sk_send_unacknowledged v + of_nat (length W + fin - k)"
    using ts k(1,2) by (simp add: tx_stream_def fin_def of_nat_diff)
  have fl: "length W + fin - k < 2 ^ 31" using k(5) by (auto simp: fin_def)
  have n: "n \<le> length W + fin - k"
    using a(2) unfolding ack nxt sequence_distance [OF n31 fl] by simp
  have "tiles ack (drop (k + n) W) {e'. \<exists>e\<in>E. trim ack e = Some e'}"
  proof (cases "sk_fin_sent v")
    case True
    then show ?thesis using k(3,4) by simp
  next
    case False
    then have "n \<le> length (drop k W)" using n by (simp add: fin_def)
    from tiles_trim [OF k(4) _ this] k(5) show ?thesis unfolding ack by (simp add: drop_drop add.commute)
  qed
  moreover have "ack = base + of_nat (k + n)" "k + n \<le> length W + fin" using ack k(1,2) n by simp_all
  ultimately have "tx_stream base W (v\<lparr>sk_send_unacknowledged := ack\<rparr>) {e'. \<exists>e\<in>E. trim ack e = Some e'}"
    using ts k(3) by (auto simp: tx_stream_def fin_def intro!: exI [of _ "k + n"])
  then show ?thesis using t by (simp add: tx_slot_def rx_live_def)
qed

subsection \<open>The invariant of the sending side\<close>

definition tx_inv :: "u32 \<Rightarrow> u8 list \<Rightarrow> socket_handle \<Rightarrow> 'd stack \<Rightarrow> bool" where
  "tx_inv base W h s \<longleftrightarrow> h < length (st_slots (sd_sockets s)) \<and> length (sd_transmissions s) = transmit_capacity \<and>
     tx_slot base W (slot_of h s) (entries h (sd_transmissions s))"

text \<open>The same after an operation that may also end the connection.\<close>

definition tx_after :: "u32 \<Rightarrow> u8 list \<Rightarrow> socket_handle \<Rightarrow> 'd stack \<Rightarrow> bool" where
  "tx_after base W h s \<longleftrightarrow> h < length (st_slots (sd_sockets s)) \<and> length (sd_transmissions s) = transmit_capacity \<and>
     (rx_live (slot_of h s) \<longrightarrow> tx_slot base W (slot_of h s) (entries h (sd_transmissions s)))"

lemma tx_inv_after: "tx_inv base W h s \<Longrightarrow> tx_after base W h s"
  by (simp add: tx_inv_def tx_after_def)

lemma tx_after_inv: "tx_after base W h s \<Longrightarrow> rx_live (slot_of h s) \<Longrightarrow> tx_inv base W h s"
  by (simp add: tx_inv_def tx_after_def)

lemma tx_inv_same: "tx_inv base W h s \<Longrightarrow> same_tx h s s' \<Longrightarrow> tx_inv base W h s'"
  unfolding tx_inv_def same_tx_def by (metis tx_slot_cong)

lemmas tx_after_same = tx_inv_after [OF tx_inv_same]

lemma tx_inv_owned: "tx_inv base W h s \<Longrightarrow> owned_live h (sd_sockets s)"
  by (simp add: tx_inv_def owned_live_def tx_slot_def)

lemma tx_inv_card: "tx_inv base W h s \<Longrightarrow> card (entries h (sd_transmissions s)) \<le> transmit_capacity"
  using entries_card [of h "sd_transmissions s"] by (simp add: tx_inv_def)

lemma tx_after_put:
  assumes "h < length (st_slots (sd_sockets s))" "length (sd_transmissions s) = transmit_capacity"
    and "rx_live v \<Longrightarrow> tx_slot base W v (entries h (sd_transmissions s))"
  shows "tx_after base W h (put_socket h v s)"
  using assms by (simp add: tx_after_def put_socket_def)

subsection \<open>Segments that arrive\<close>

lemma duplicate_ack_keeps:
  assumes "duplicate_ack now ts g v ack len advertised = (ts', v')"
  shows "length ts' = length ts" "entries h ts' = entries h ts" "tx_fields v' = tx_fields v"
proof -
  let ?f = "\<lambda>e. case e of Some ((k, sequence), p) \<Rightarrow>
      if k = g \<and> sequence = ack then Some ((k, sequence), p\<lparr>ts_fast_retry := True, ts_retry_at := now\<rparr>) else e | None \<Rightarrow> None"
  have "ts' = ts \<or> ts' = map ?f ts"
    using assms by (auto simp: duplicate_ack_def Let_def split: if_splits)
  moreover have "entries h (map ?f ts) = entries h ts"
    by (rule entries_cong) (auto simp: store_view_def split: option.split)
  ultimately show "length ts' = length ts" "entries h ts' = entries h ts" by auto
  show "tx_fields v' = tx_fields v"
    using assms by (auto simp: duplicate_ack_def Let_def tx_fields_def split: if_splits)
qed

lemma update_window_keeps: "tx_fields (update_window now v sequence ack advertised) = tx_fields v"
  by (simp add: update_window_def Let_def tx_fields_def)

lemma process_ack_ok:
  assumes t: "tx_slot base W v (entries h ts)" "length ts = transmit_capacity"
    and a: "sint (ack - sk_send_next v) \<le> 0" and p: "process_ack now ts h v sequence ack len wnd = (ts', v')"
  shows "tx_slot base W v' (entries h ts')" "length ts' = transmit_capacity"
proof -
  have "tx_slot base W v' (entries h ts') \<and> length ts' = transmit_capacity"
  proof (cases "sint (ack - sk_send_unacknowledged v) \<ge> 0")
    case True
    define advertised where "advertised = push_bit (unat (sk_peer_scale v)) (ucast (net16 wnd) :: u32)"
    obtain ts1 v1 where d: "duplicate_ack now ts h v ack len advertised = (ts1, v1)" by fastforce
    obtain ts2 v2 where k: "acknowledge_transmissions now ts1 h v1 ack = (ts2, v2)" by fastforce
    note D = duplicate_ack_keeps [OF d]
    have r: "ts' = ts2" "tx_fields v' = tx_fields v2"
      using p True d k by (auto simp: process_ack_def Let_def advertised_def [symmetric] update_window_keeps)
    have s1: "tx_slot base W v1 (entries h ts1)" using t(1) tx_slot_cong [OF D(3)] D(2) by simp
    have una: "sk_send_unacknowledged v1 = sk_send_unacknowledged v" "sk_send_next v1 = sk_send_next v"
      using D(3) by (simp_all add: tx_fields_def)
    have "tx_slot base W v2 (entries h ts2) \<and> length ts2 = length ts1"
    proof (cases "sint (ack - sk_send_unacknowledged v1) > 0")
      case pos: True
      have c: "card (entries h ts1) \<le> transmit_capacity" using entries_card [of h ts1] D(1) t(2) by simp
      from pos k show ?thesis
      proof (rule acknowledge_eq)
        assume "length ts2 = length ts1" "entries h ts2 = entries h (map (trim_slot h ack) ts1)"
          "tx_fields v2 = tx_fields (v1\<lparr>sk_send_unacknowledged := ack\<rparr>)"
        with tx_slot_acknowledge [OF s1 entries_finite c pos] a una show ?thesis
          by (simp add: entries_map_trim tx_slot_cong [where v' = v2])
      qed
    next
      case False
      then show ?thesis using k s1 by (auto simp: acknowledge_transmissions_def)
    qed
    then show ?thesis using r(1) D(1) t(2) by (simp add: tx_slot_cong [OF r(2)])
  next
    case False
    then show ?thesis using p t by (simp add: process_ack_def)
  qed
  then show "tx_slot base W v' (entries h ts')" "length ts' = transmit_capacity" by simp_all
qed

lemma process_ack_other:
  assumes "process_ack now ts g v sequence ack len wnd = (ts', v')" "g \<noteq> h"
  shows "length ts' = length ts" "entries h ts' = entries h ts"
proof -
  have "length ts' = length ts \<and> entries h ts' = entries h ts"
  proof (cases "sint (ack - sk_send_unacknowledged v) \<ge> 0")
    case True
    define advertised where "advertised = push_bit (unat (sk_peer_scale v)) (ucast (net16 wnd) :: u32)"
    obtain ts1 v1 where d: "duplicate_ack now ts g v ack len advertised = (ts1, v1)" by fastforce
    obtain ts2 v2 where k: "acknowledge_transmissions now ts1 g v1 ack = (ts2, v2)" by fastforce
    note D = duplicate_ack_keeps [OF d]
    have r: "ts' = ts2" using assms(1) True d k by (auto simp: process_ack_def Let_def advertised_def [symmetric])
    show ?thesis
    proof (cases "sint (ack - sk_send_unacknowledged v1) > 0")
      case pos: True
      from pos k show ?thesis
        by (rule acknowledge_eq [where h = h]) (use r D assms(2) in \<open>simp add: entries_map_trim\<close>)
    next
      case False
      then show ?thesis using k r D by (simp add: acknowledge_transmissions_def)
    qed
  qed (use assms in \<open>simp add: process_ack_def\<close>)
  then show "length ts' = length ts" "entries h ts' = entries h ts" by simp_all
qed

lemma tx_slot_change:
  assumes "tx_slot base W v E" "rx_live v'" "sk_send_next v' = sk_send_next v" "sk_send_unacknowledged v' = sk_send_unacknowledged v"
    and "sk_fin_sent v' = sk_fin_sent v" "sk_accepted v' = sk_accepted v" "sk_detached v' = sk_detached v" "sk_references v' = sk_references v"
    and "sk_state v' = St_fin_wait_2 \<or> sk_state v' = St_time_wait \<or> sk_fin_acked v' \<Longrightarrow> sk_fin_sent v"
    and "sk_send_closed v \<Longrightarrow> sk_send_closed v'" "sk_peer_mss v' = sk_peer_mss v"
  shows "tx_slot base W v' E"
  using assms unfolding tx_slot_def tx_stream_def by simp

lemma process_fin_ack_ok:
  assumes "tx_slot base W v E" "process_fin_ack now v ack = Some v'"
  shows "tx_slot base W v' E"
proof (cases "sk_fin_sent v \<and> ack = sk_send_next v")
  case True
  have live: "rx_live v" using assms(1) by (simp add: tx_slot_def)
  show ?thesis
    by (rule tx_slot_change [OF assms(1)])
      (use True live assms(2) in \<open>auto simp: process_fin_ack_def Let_def enter_time_wait_def rx_live_def split: if_splits\<close>)
qed (use assms in \<open>auto simp: process_fin_ack_def\<close>)

lemma process_fin_ack_None: "process_fin_ack now v ack = None \<Longrightarrow> sk_detached v"
  by (auto simp: process_fin_ack_def Let_def split: if_splits)

lemma tx_slot_rx_frame:
  assumes "tx_slot base W v E" "rx_frame v v'"
  shows "tx_slot base W v' E"
proof -
  note f = rx_frame_fields [OF assms(2)]
  have st: "sk_state v' = sk_state v \<or> sk_state v' \<in> {St_closing, St_close_wait} \<or> sk_state v' = St_time_wait \<and> sk_state v = St_fin_wait_2"
    using assms(2) by (simp add: rx_frame_def)
  have "rx_live v" using assms(1) by (simp add: tx_slot_def)
  then have "rx_live v'" using st by (auto simp: rx_live_def)
  then show ?thesis
    by (rule tx_slot_change [OF assms(1) _ f(5,6,18,24,17,25)]) (use assms(1) st f(13,19,27) in \<open>auto simp: tx_slot_def\<close>)
qed

lemma send_fin_ok:
  assumes "tx_slot base W v E" "finite E" "card E \<le> transmit_capacity" "sk_send_closed v"
  shows "tx_slot base W (snd (send_fin pf s v)) E"
proof -
  have "tx_slot base W (v\<lparr>sk_send_next := sk_send_next v + 1, sk_fin_sent := True\<rparr>) E"
    if "\<not> sk_fin_sent v" "sk_send_unacknowledged v = sk_send_next v"
    using assms(1) send_fin_stream [OF _ assms(2,3) that] assms(4) by (simp add: tx_slot_def rx_live_def)
  moreover have "tx_fields (snd (send_fin pf s v)) = tx_fields v \<or> \<not> sk_fin_sent v \<and> sk_send_unacknowledged v = sk_send_next v \<and>
      tx_fields (snd (send_fin pf s v)) = tx_fields (v\<lparr>sk_send_next := sk_send_next v + 1, sk_fin_sent := True\<rparr>)"
    by (simp add: send_fin_def Let_def tx_fields_def split: prod.split)
  ultimately show ?thesis using assms(1) tx_slot_cong by blast
qed

lemma request_fin_ok:
  assumes "tx_slot base W v E" "finite E" "card E \<le> transmit_capacity"
  shows "tx_slot base W (snd (request_fin pf s v)) E"
proof (cases "sk_send_closed v")
  case False
  have "tx_slot base W (v\<lparr>sk_send_closed := True, sk_active_close := \<not> sk_receive_closed v,
      sk_state := (if \<not> sk_receive_closed v then St_fin_wait_1 else St_last_ack),
      sk_state_since := sd_now s, sk_control_retry_at := sd_now s, sk_control_delay := sk_rto v\<rparr>) E"
    by (rule tx_slot_change [OF assms(1)]) (use assms(1) in \<open>auto simp: rx_live_def tx_slot_def split: if_splits\<close>)
  then show ?thesis unfolding request_fin_def if_not_P [OF False] by (rule send_fin_ok [OF _ assms(2,3)]) simp
qed (use assms in \<open>simp add: request_fin_def\<close>)

lemma request_fin_keeps [simp]:
  "sd_sockets (fst (request_fin pf s v)) = sd_sockets s" "sd_transmissions (fst (request_fin pf s v)) = sd_transmissions s"
  by (simp_all add: request_fin_def)

lemma drop_pending_length [simp]: "length (st_slots (drop_pending g i t)) = length (st_slots t)"
  by (simp add: drop_pending_def Let_def)

lemma fold_drop_pending_length [simp]: "length (st_slots (fold (drop_pending g) is t)) = length (st_slots t)"
  by (induction "is" arbitrary: t) simp_all

lemma sock_release_length [simp]: "length (st_slots (fst (sock_release t g))) = length (st_slots t)"
  by (simp add: sock_release_def Let_def split: option.split)

lemma sock_reset_length [simp]: "length (st_slots (sock_reset t g failure)) = length (st_slots t)"
  by (simp add: sock_reset_def split: option.split)

lemma rx_live_init [simp]: "\<not> rx_live socket_slot_init"
  by (simp add: rx_live_def)

lemma sock_release_dead:
  assumes "h < length (st_slots t)" "rx_live (st_slots t ! h)" "sk_references (st_slots t ! h) = 1"
  shows "\<not> rx_live (st_slots (fst (sock_release t h)) ! h)"
  using assms rx_live_not_free [OF assms(2)] by (simp add: sock_release_def sock_slot_def Let_def)

lemma sock_reset_dead:
  assumes "h < length (st_slots t)" "rx_live (st_slots t ! h)"
  shows "\<not> rx_live (st_slots (sock_reset t h failure) ! h)"
  using assms rx_live_not_free [OF assms(2)] by (auto simp: sock_reset_def sock_slot_def rx_live_def)

lemma tx_after_dead:
  "h < length (st_slots (sd_sockets s)) \<Longrightarrow> length (sd_transmissions s) = transmit_capacity \<Longrightarrow> \<not> rx_live (slot_of h s) \<Longrightarrow>
   tx_after base W h s"
  by (simp add: tx_after_def)

lemma process_data_ok:
  assumes "tx_slot base W v E" "h < length (st_slots (sd_sockets s))"
    and p: "process_data pf s h v sequence payload finish = (s', v')"
  shows "tx_slot base W v' E" "sd_transmissions s' = sd_transmissions s"
    "length (st_slots (sd_sockets s')) = length (st_slots (sd_sockets s))"
proof -
  define t where "t = fst (sock_receive (sd_sockets (put_socket h v s)) h sequence payload finish)"
  define v1 where "v1 = st_slots t ! h"
  define v2 where "v2 = (if \<not> sk_receive_closed v \<and> sk_receive_closed v1 \<and> sk_fin_acked v1 then enter_time_wait (sd_now s) v1 else v1)"
  define v3 where "v3 = (if sk_read_closed v2 then v2\<lparr>sk_receive_buffer := []\<rparr> else v2)"
  have "length (st_slots t) = length (st_slots (sd_sockets s)) \<and> rx_frame v v1"
    using sock_receive_rx [of h "sd_sockets (put_socket h v s)" sequence payload finish] assms(2)
    by (simp add: t_def v1_def put_socket_def)
  then have f: "length (st_slots t) = length (st_slots (sd_sockets s))" "tx_slot base W v1 E"
    using tx_slot_rx_frame [OF assms(1)] by simp_all
  have "tx_slot base W v2 E"
    by (rule tx_slot_change [OF f(2)]) (use f(2) in \<open>auto simp: v2_def enter_time_wait_def rx_live_def tx_slot_def split: if_splits\<close>)
  then have s3: "tx_slot base W (v3\<lparr>sk_acknowledgement_retries := 1\<rparr>) E"
    by (rule tx_slot_cong [THEN iffD2, rotated]) (simp add: v3_def tx_fields_def)
  obtain s4 v4 where fl: "flush_acknowledgement pf (s\<lparr>sd_sockets := t\<rparr>) (v3\<lparr>sk_acknowledgement_retries := 1\<rparr>) = (s4, v4)" by fastforce
  note k = flush_acknowledgement_keeps [OF fl]
  have r: "s' = s \<and> v' = v \<or> s' = s4 \<and> v' = v4"
  proof (cases "payload \<noteq> [] \<or> finish")
    case True
    obtain a b where rc: "sock_receive (sd_sockets (put_socket h v s)) h sequence payload finish = (t, a, b)"
      by (metis t_def prod.collapse)
    show ?thesis using p [unfolded process_data_def if_P [OF True] rc prod.case Let_def v1_def [symmetric] v2_def [symmetric] v3_def [symmetric] fl]
      by simp
  qed (use p in \<open>simp add: process_data_def\<close>)
  then show "tx_slot base W v' E" using assms(1) s3 tx_slot_cong [OF k(3)] by blast
  show "sd_transmissions s' = sd_transmissions s" "length (st_slots (sd_sockets s')) = length (st_slots (sd_sockets s))"
    using r k f(1) by auto
qed

lemma process_data_other:
  assumes "g \<noteq> h" "process_data pf s g v sequence payload finish = (s', v')"
  shows "same_tx h s s'"
proof -
  define t where "t = fst (sock_receive (sd_sockets (put_socket g v s)) g sequence payload finish)"
  have "keeps_slot h (sd_sockets (put_socket g v s)) t" unfolding t_def by (rule sock_receive_keeps [OF assms(1)])
  moreover have "keeps_slot h (sd_sockets s) (sd_sockets (put_socket g v s))" using assms(1) by (simp add: put_socket_def)
  ultimately have t: "same_tx h s (s\<lparr>sd_sockets := t\<rparr>)" using same_tx_keeps keeps_slot_trans by blast
  have "s' = s \<or> (\<exists>w v''. flush_acknowledgement pf (s\<lparr>sd_sockets := t\<rparr>) w = (s', v''))"
    using assms(2) unfolding process_data_def t_def
    by (cases "payload \<noteq> [] \<or> finish") (auto simp: Let_def split: prod.splits)
  then show ?thesis
    using same_tx_trans [OF t same_tx_eqs] flush_acknowledgement_keeps(1,2) by (metis same_tx_refl)
qed

text \<open>The last steps of a segment: a pending FIN is sent and the slot is stored.\<close>

definition finish_segment :: "'d platform \<Rightarrow> socket_handle \<Rightarrow> 'd stack \<times> socket_slot \<Rightarrow> 'd stack" where
  "finish_segment pf g r =
     (case r of (s, v) \<Rightarrow>
        (case (if sk_send_closed v \<and> \<not> sk_fin_sent v then send_fin pf s v else (s, v)) of (s4, v4) \<Rightarrow> put_socket g v4 s4))"

lemma finish_segment_ok:
  assumes "tx_slot base W v (entries h (sd_transmissions s))" "h < length (st_slots (sd_sockets s))"
    and "length (sd_transmissions s) = transmit_capacity"
  shows "tx_after base W h (finish_segment pf h (s, v))"
proof -
  let ?r = "if sk_send_closed v \<and> \<not> sk_fin_sent v then send_fin pf s v else (s, v)"
  have c: "card (entries h (sd_transmissions s)) \<le> transmit_capacity" using entries_card [of h "sd_transmissions s"] assms(3) by simp
  have "tx_slot base W (snd ?r) (entries h (sd_transmissions s))" using send_fin_ok [OF assms(1) entries_finite c, of pf s] assms(1) by auto
  moreover have "sd_sockets (fst ?r) = sd_sockets s" "sd_transmissions (fst ?r) = sd_transmissions s" by simp_all
  ultimately have "tx_after base W h (put_socket h (snd ?r) (fst ?r))"
    using assms(2,3) by (intro tx_after_put) simp_all
  then show ?thesis unfolding finish_segment_def case_prod_unfold fst_conv snd_conv .
qed

lemma finish_segment_other: "g \<noteq> h \<Longrightarrow> same_tx h s (finish_segment pf g (s, v))"
  unfolding finish_segment_def prod.case case_prod_unfold
  by (rule same_tx_trans [OF same_tx_eqs same_tx_put]) simp_all

lemma handle_segment_eq:
  assumes "tcp_flags (view_tcp view) AND tcp_ack \<noteq> 0" "segment_acceptable v (net32 (tcp_sequence (view_tcp view))) (segment_length view)"
    and "sint (net32 (tcp_acknowledgement (view_tcp view)) - sk_send_next v) \<le> 0"
    and "process_ack (sd_now s) (sd_transmissions s) g v (net32 (tcp_sequence (view_tcp view)))
      (net32 (tcp_acknowledgement (view_tcp view))) (segment_length view) (tcp_window (view_tcp view)) = (ts, v1)"
  shows "handle_segment pf s g v view =
    (case process_fin_ack (sd_now s) v1 (net32 (tcp_acknowledgement (view_tcp view))) of
       None \<Rightarrow> (let s2 = put_socket g (v1\<lparr>sk_fin_acked := True\<rparr>) (s\<lparr>sd_transmissions := ts\<rparr>)
                in s2\<lparr>sd_sockets := fst (sock_release (sd_sockets s2) g)\<rparr>)
     | Some v2 \<Rightarrow> finish_segment pf g (process_data pf (s\<lparr>sd_transmissions := ts\<rparr>) g v2 (net32 (tcp_sequence (view_tcp view)))
                    (view_payload view) (tcp_flags (view_tcp view) AND tcp_fin \<noteq> 0)))"
  using assms by (simp add: handle_segment_def Let_def finish_segment_def split: option.split)

lemma handle_segment_ok:
  assumes t: "tx_inv base W h s" and v: "tx_fields v = tx_fields (slot_of h s)"
  shows "tx_after base W h (handle_segment pf s h v view)"
proof -
  define ack sequence where "ack = net32 (tcp_acknowledgement (view_tcp view))" and "sequence = net32 (tcp_sequence (view_tcp view))"
  consider "tcp_flags (view_tcp view) AND tcp_ack = 0"
    | "\<not> segment_acceptable v sequence (segment_length view) \<or> sint (ack - sk_send_next v) > 0" "tcp_flags (view_tcp view) AND tcp_ack \<noteq> 0"
    | "tcp_flags (view_tcp view) AND tcp_ack \<noteq> 0" "segment_acceptable v sequence (segment_length view)"
      "sint (ack - sk_send_next v) \<le> 0"
    by linarith
  then show ?thesis
  proof cases
    case 1
    then show ?thesis using tx_after_same [OF t same_tx_put] v by (simp add: handle_segment_def Let_def)
  next
    case 2
    then show ?thesis
      using tx_after_same [OF t same_tx_challenge] v
      by (auto simp: handle_segment_def Let_def ack_def [symmetric] sequence_def [symmetric])
  next
    case 3
    have l: "h < length (st_slots (sd_sockets s))" "length (sd_transmissions s) = transmit_capacity"
      and st: "tx_slot base W v (entries h (sd_transmissions s))"
      using t tx_slot_cong [OF v] by (simp_all add: tx_inv_def)
    obtain ts v1 where p: "process_ack (sd_now s) (sd_transmissions s) h v sequence ack (segment_length view)
        (tcp_window (view_tcp view)) = (ts, v1)" by fastforce
    note P = process_ack_ok [OF st l(2) 3(3) p]
    note eq = handle_segment_eq [OF 3(1) 3(2) [unfolded sequence_def] 3(3) [unfolded ack_def] p [unfolded sequence_def ack_def], of pf,
      folded sequence_def ack_def]
    show ?thesis
    proof (cases "process_fin_ack (sd_now s) v1 ack")
      case None
      let ?v = "v1\<lparr>sk_fin_acked := True\<rparr>" and ?s2 = "put_socket h (v1\<lparr>sk_fin_acked := True\<rparr>) (s\<lparr>sd_transmissions := ts\<rparr>)"
      have "rx_live ?v" "sk_references ?v = 1"
        using P(1) process_fin_ack_None [OF None] by (simp_all add: tx_slot_def rx_live_def)
      then have "\<not> rx_live (st_slots (fst (sock_release (sd_sockets ?s2) h)) ! h)"
        using l by (intro sock_release_dead) (simp_all add: put_socket_def)
      then show ?thesis
        unfolding eq None option.case Let_def using l P(2) by (intro tx_after_dead) (simp_all add: put_socket_def)
    next
      case (Some v2)
      obtain s3 v3 where d: "process_data pf (s\<lparr>sd_transmissions := ts\<rparr>) h v2 sequence (view_payload view)
          (tcp_flags (view_tcp view) AND tcp_fin \<noteq> 0) = (s3, v3)" by fastforce
      from process_data_ok [OF process_fin_ack_ok [OF P(1) Some] _ d] l(1) P(2) show ?thesis
        unfolding eq Some option.case d by (intro finish_segment_ok) simp_all
    qed
  qed
qed

lemma handle_segment_other:
  assumes o: "owned_live h (sd_sockets s)" and g: "g \<noteq> h"
  shows "same_tx h s (handle_segment pf s g v view)"
proof -
  define ack sequence where "ack = net32 (tcp_acknowledgement (view_tcp view))" and "sequence = net32 (tcp_sequence (view_tcp view))"
  consider "tcp_flags (view_tcp view) AND tcp_ack = 0"
    | "\<not> segment_acceptable v sequence (segment_length view) \<or> sint (ack - sk_send_next v) > 0" "tcp_flags (view_tcp view) AND tcp_ack \<noteq> 0"
    | "tcp_flags (view_tcp view) AND tcp_ack \<noteq> 0" "segment_acceptable v sequence (segment_length view)"
      "sint (ack - sk_send_next v) \<le> 0"
    by linarith
  then show ?thesis
  proof cases
    case 1
    then show ?thesis using g by (simp add: handle_segment_def Let_def same_tx_put)
  next
    case 2
    then show ?thesis
      using g by (auto simp: handle_segment_def Let_def ack_def [symmetric] sequence_def [symmetric] same_tx_challenge)
  next
    case 3
    obtain ts v1 where p: "process_ack (sd_now s) (sd_transmissions s) g v sequence ack (segment_length view)
        (tcp_window (view_tcp view)) = (ts, v1)" by fastforce
    note eq = handle_segment_eq [OF 3(1) 3(2) [unfolded sequence_def] 3(3) [unfolded ack_def] p [unfolded sequence_def ack_def], of pf,
      folded sequence_def ack_def]
    let ?s1 = "s\<lparr>sd_transmissions := ts\<rparr>"
    have s1: "same_tx h s ?s1" using process_ack_other [OF p g] by (simp add: same_tx_def)
    show ?thesis
    proof (cases "process_fin_ack (sd_now s) v1 ack")
      case None
      let ?s2 = "put_socket g (v1\<lparr>sk_fin_acked := True\<rparr>) ?s1"
      have k: "keeps_slot h (sd_sockets s) (sd_sockets ?s2)" using g by (simp add: put_socket_def)
      have s2: "same_tx h ?s1 ?s2" using g by (intro same_tx_put) simp
      from same_tx_keeps [OF sock_release_keeps [OF owned_live_keeps [OF o k] g]] show ?thesis
        unfolding eq None option.case Let_def by (intro same_tx_trans [OF s1 same_tx_trans [OF s2]])
    next
      case (Some v2)
      obtain s3 v3 where d: "process_data pf ?s1 g v2 sequence (view_payload view)
          (tcp_flags (view_tcp view) AND tcp_fin \<noteq> 0) = (s3, v3)" by fastforce
      show ?thesis
        unfolding eq Some option.case d
        by (rule same_tx_trans [OF s1 same_tx_trans [OF process_data_other [OF g d] finish_segment_other [OF g]]])
    qed
  qed
qed

subsection \<open>Frames, timers and polling\<close>

lemma same_tx_clear: "g \<noteq> h \<Longrightarrow> same_tx h s (s\<lparr>sd_transmissions := clear_transmissions g (sd_transmissions s)\<rparr>)"
  by (simp add: same_tx_def entries_clear)

lemma close_dead:
  assumes "tx_inv base W h s" "sd_sockets s' = sd_sockets s" "length (sd_transmissions s') = transmit_capacity"
  shows "sk_detached (slot_of h s) \<or> \<not> sk_accepted (slot_of h s) \<Longrightarrow>
      tx_after base W h (s'\<lparr>sd_sockets := fst (sock_release (sd_sockets s') h)\<rparr>)"
    and "tx_after base W h (s'\<lparr>sd_sockets := sock_reset (sd_sockets s') h failure\<rparr>)"
  using assms sock_release_dead [of h "sd_sockets s"] sock_reset_dead [of h "sd_sockets s" failure]
  by (auto simp: tx_inv_def tx_slot_def intro!: tx_after_dead)

lemma close_other:
  assumes "owned_live h (sd_sockets s)" "sd_sockets s' = sd_sockets s" "same_tx h s s'" "g \<noteq> h"
  shows "same_tx h s (s'\<lparr>sd_sockets := fst (sock_release (sd_sockets s') g)\<rparr>)"
    and "same_tx h s (s'\<lparr>sd_sockets := sock_reset (sd_sockets s') g failure\<rparr>)"
  using same_tx_trans [OF assms(3) same_tx_keeps] sock_release_keeps [OF assms(1,4)] sock_reset_keeps [OF assms(1,4)] assms(2)
  by auto

lemma fail_connection_ok:
  assumes "tx_inv base W h s"
  shows "tx_after base W h (fail_connection pf s h)"
proof -
  have at: "socket_at s h = Some (slot_of h s)"
    using assms rx_live_not_free [of "slot_of h s"] by (simp add: tx_inv_def tx_slot_def socket_at_def sock_slot_def)
  let ?s1 = "s\<lparr>sd_transmissions := clear_transmissions h (sd_transmissions s)\<rparr>"
  define s2 where "s2 = (if sk_state (slot_of h s) \<noteq> St_syn_received
      then fst (send_segment pf ?s1 (slot_of h s) (tcp_rst OR tcp_ack) [] (sk_send_next (slot_of h s))) else ?s1)"
  have s2: "sd_sockets s2 = sd_sockets s" "length (sd_transmissions s2) = transmit_capacity"
    using assms by (simp_all add: s2_def send_segment_keeps tx_inv_def)
  show ?thesis
    using close_dead [OF assms s2] by (auto simp: fail_connection_def at Let_def s2_def [symmetric])
qed

lemma fail_connection_other:
  assumes "owned_live h (sd_sockets s)" "g \<noteq> h"
  shows "same_tx h s (fail_connection pf s g)"
proof (cases "socket_at s g")
  case (Some v)
  let ?s1 = "s\<lparr>sd_transmissions := clear_transmissions g (sd_transmissions s)\<rparr>"
  define s2 where "s2 = (if sk_state v \<noteq> St_syn_received
      then fst (send_segment pf ?s1 v (tcp_rst OR tcp_ack) [] (sk_send_next v)) else ?s1)"
  have "same_tx h s s2" "sd_sockets s2 = sd_sockets s"
    by (simp_all add: s2_def send_segment_keeps same_tx_clear [OF assms(2)] same_tx_trans [OF same_tx_clear [OF assms(2)] same_tx_send])
  with close_other [OF assms(1) _ _ assms(2)] show ?thesis
    by (simp add: fail_connection_def Some Let_def s2_def [symmetric])
qed (simp add: fail_connection_def)

lemma handle_reset_ok:
  assumes "tx_inv base W h s"
  shows "tx_after base W h (handle_reset pf s h (slot_of h s) sequence)"
proof -
  let ?s1 = "s\<lparr>sd_transmissions := clear_transmissions h (sd_transmissions s)\<rparr>"
  have "sd_sockets ?s1 = sd_sockets s" "length (sd_transmissions ?s1) = transmit_capacity"
    using assms by (simp_all add: tx_inv_def)
  from close_dead [OF assms this] tx_inv_after [OF assms] tx_after_same [OF assms same_tx_challenge]
  show ?thesis by (auto simp: handle_reset_def Let_def)
qed

lemma handle_reset_other:
  assumes "owned_live h (sd_sockets s)" "g \<noteq> h"
  shows "same_tx h s (handle_reset pf s g v sequence)"
  using close_other [OF assms(1) _ same_tx_clear [OF assms(2)] assms(2)] assms(2)
  by (auto simp: handle_reset_def Let_def same_tx_challenge)

lemma handle_connected_ok:
  assumes t: "tx_inv base W h s"
  shows "tx_after base W h (handle_connected pf s h view)"
proof -
  have at: "socket_at s h = Some (slot_of h s)"
    using t rx_live_not_free [of "slot_of h s"] by (simp add: tx_inv_def tx_slot_def socket_at_def sock_slot_def)
  have nsyn: "sk_state (slot_of h s) \<noteq> St_syn_received" using t by (simp add: tx_inv_def tx_slot_def rx_live_def)
  have "tx_fields (v\<lparr>sk_state_since := x\<rparr>) = tx_fields v" for v x by (simp add: tx_fields_def)
  then show ?thesis
    using tx_inv_after [OF t] handle_reset_ok [OF t] handle_segment_ok [OF t refl] tx_after_same [OF t same_tx_challenge] nsyn
    by (auto simp: handle_connected_def at Let_def)
qed

lemma handle_connected_other:
  assumes o: "owned_live h (sd_sockets s)" and g: "g \<noteq> h"
  shows "same_tx h s (handle_connected pf s g view)"
proof (cases "socket_at s g")
  case (Some v)
  obtain t r where e: "sock_establish (sd_sockets s) g (net32 (tcp_acknowledgement (view_tcp view))) = (t, r)" by fastforce
  have k: "keeps_slot h (sd_sockets s) t" using sock_establish_keeps [OF o] e by (metis fst_conv)
  have s1: "same_tx h s (s\<lparr>sd_sockets := t\<rparr>)" by (rule same_tx_keeps [OF k])
  have "same_tx h s (handle_segment pf (s\<lparr>sd_sockets := t\<rparr>) g w view)" for w
    using same_tx_trans [OF s1 handle_segment_other] owned_live_keeps [OF o k] g by simp
  then show ?thesis
    using handle_reset_other [OF o g] handle_segment_other [OF o g] g s1
    by (simp add: handle_connected_def Some Let_def e same_tx_challenge same_tx_send)
qed (simp add: handle_connected_def)

lemma same_tx_reject: "same_tx h s (reject_segment pf s local remote view)"
proof -
  obtain s1 ok where a: "allow_control_reply s = (s1, ok)" by fastforce
  have "same_tx h s s1" using same_tx_allow [of h s] a by simp
  then show ?thesis unfolding reject_segment_def a Let_def by (auto intro: same_tx_trans [OF _ same_tx_send])
qed

lemma begin_connection_other:
  assumes "owned_live h t" "begin_connection t lh local remote mac rseq lseq = (t', Sr_success, g)"
  shows "g \<noteq> h"
proof (cases "first_index (\<lambda>c. sk_listener c = lh \<and> sk_remote c = remote \<and> \<not> sk_accepted c) (st_slots t)")
  case None
  then have "g = sock_allocate t \<and> sock_allocate t \<noteq> invalid_socket"
    using assms(2) by (auto simp: begin_connection_def Let_def split: option.splits if_splits)
  then show ?thesis using sock_allocate_other [OF assms(1)] by simp
next
  case (Some i)
  then have "g = i" using assms(2) by (auto simp: begin_connection_def Let_def split: option.splits if_splits)
  then show ?thesis using first_index_SomeD [OF Some] assms(1) by (auto simp: owned_live_def)
qed

lemma same_tx_start:
  assumes o: "owned_live h (sd_sockets s)"
  shows "same_tx h s (start_connection pf s lh local remote view)"
proof -
  obtain t r g where b: "begin_connection (sd_sockets s) lh local remote (eth_source (view_ethernet view))
      (net32 (tcp_sequence (view_tcp view))) (sd_next_sequence s) = (t, r, g)" by (metis prod_cases3)
  have k: "keeps_slot h (sd_sockets s) t" using begin_connection_keeps [OF o] b by (metis fst_conv)
  have s1: "same_tx h s (s\<lparr>sd_sockets := t\<rparr>)" by (rule same_tx_keeps [OF k])
  show ?thesis
  proof (cases "r = Sr_success")
    case True
    then have "g \<noteq> h" using begin_connection_other [OF o] b by blast
    then show ?thesis
      using s1 True by (auto simp: start_connection_def b Let_def split: prod.split
          intro!: same_tx_trans [OF same_tx_trans [OF _ same_tx_eqs] same_tx_put] dest: send_segment_eqs)
  qed (use s1 in \<open>simp add: start_connection_def b\<close>)
qed

lemma handle_unconnected_same:
  "owned_live h (sd_sockets s) \<Longrightarrow> same_tx h s (handle_unconnected pf s local remote view)"
  by (simp add: handle_unconnected_def Let_def same_tx_reject same_tx_start)

lemma handle_tcp_ok:
  assumes t: "tx_inv base W h s"
  shows "tx_after base W h (handle_tcp pf s frame)"
proof (cases "parse_tcp frame (if_address (sd_interface s))")
  case (Some view)
  note o = tx_inv_owned [OF t]
  have "tx_after base W h (handle_connected pf s g view)" for g
    using handle_connected_ok [OF t] tx_after_same [OF t handle_connected_other [OF o]] by (cases "g = h") auto
  then show ?thesis
    using tx_after_same [OF t handle_unconnected_same [OF o]] by (simp add: handle_tcp_def Some Let_def)
qed (use tx_inv_after [OF t] in \<open>simp add: handle_tcp_def\<close>)

lemma handle_frame_ok:
  assumes t: "tx_inv base W h s"
  shows "tx_after base W h (fst (handle_frame pf s frame))"
proof -
  have "tx_after base W h (s\<lparr>sd_device := d\<rparr>)" for d by (rule tx_after_same [OF t]) (simp add: same_tx_def)
  then show ?thesis using handle_tcp_ok [OF t] by (simp add: handle_frame_def split: prod.split)
qed

lemma record_reply_keeps [simp]: "sd_sockets (record_reply r s) = sd_sockets s" "sd_transmissions (record_reply r s) = sd_transmissions s"
  by (simp_all add: record_reply_def write_text_def split: reply.split)

lemma persist_probe_keeps:
  "sd_sockets (fst (persist_probe pf s v)) = sd_sockets s" "sd_transmissions (fst (persist_probe pf s v)) = sd_transmissions s"
  "tx_fields (snd (persist_probe pf s v)) = tx_fields v"
  by (simp_all add: persist_probe_def Let_def tx_fields_def send_segment_eqs split: prod.split)

lemma syn_timer_keeps:
  "sd_sockets (fst (syn_timer pf s v)) = sd_sockets s" "sd_transmissions (fst (syn_timer pf s v)) = sd_transmissions s"
  "tx_fields (snd (syn_timer pf s v)) = tx_fields v"
  by (simp_all add: syn_timer_def Let_def tx_fields_def send_segment_eqs split: prod.split)

text \<open>The FIN and window query of a timer step.\<close>

definition timer_send :: "'d platform \<Rightarrow> 'd stack \<Rightarrow> socket_slot \<Rightarrow> 'd stack \<times> socket_slot" where
  "timer_send pf s v =
     (case (if sk_send_closed v \<and> \<not> sk_fin_acked v \<and> deadline_reached (sd_now s) (sk_control_retry_at v)
            then send_fin pf s v else (s, v)) of
        (s1, v1) \<Rightarrow> persist_probe pf s1 v1)"

lemma timer_send_keeps:
  "sd_sockets (fst (timer_send pf s v)) = sd_sockets s" "sd_transmissions (fst (timer_send pf s v)) = sd_transmissions s"
  by (simp_all add: timer_send_def case_prod_unfold persist_probe_keeps)

lemma timer_send_ok:
  assumes "tx_slot base W v E" "finite E" "card E \<le> transmit_capacity"
  shows "tx_slot base W (snd (timer_send pf s v)) E"
proof -
  have "tx_slot base W (snd (if sk_send_closed v \<and> b then send_fin pf s v else (s, v))) E" for b
    using send_fin_ok [OF assms, of pf s] assms(1) by auto
  then show ?thesis by (simp add: timer_send_def case_prod_unfold tx_slot_cong [OF persist_probe_keeps(3)])
qed

lemma timer_step_eq:
  "timer_step pf g s =
     (let v = slot_of g s
      in if \<not> is_connection (sk_state v) \<or> sk_state v = St_reset then s
         else if sk_state v = St_time_wait then
           (if sd_now s - sk_state_since v \<ge> tcp_time_wait then
              (if sk_detached v then s\<lparr>sd_sockets := fst (sock_release (sd_sockets s) g)\<rparr>
               else put_socket g (v\<lparr>sk_state := St_closed\<rparr>) s)
            else s)
         else if sk_state v = St_syn_received then
           (if sd_now s - sk_opened_at v \<ge> tcp_syn_timeout then fail_connection pf s g
            else put_socket g (snd (syn_timer pf s v)) (fst (syn_timer pf s v)))
         else if timer_expired (sd_now s) v then fail_connection pf s g
         else put_socket g (snd (timer_send pf s v)) (fst (timer_send pf s v)))"
  by (simp add: timer_step_def timer_send_def Let_def case_prod_unfold)

lemma timer_step_other:
  assumes "owned_live h (sd_sockets s)" "g \<noteq> h"
  shows "same_tx h s (timer_step pf g s)"
proof -
  have "same_tx h s (put_socket g w s1)" if "sd_sockets s1 = sd_sockets s" "sd_transmissions s1 = sd_transmissions s" for w s1
    using same_tx_trans [OF same_tx_eqs [OF that] same_tx_put] assms(2) by blast
  then show ?thesis
    using close_other(1) [OF assms(1) refl same_tx_refl assms(2)] fail_connection_other [OF assms]
    by (simp add: timer_step_eq Let_def timer_send_keeps syn_timer_keeps)
qed

lemma timer_step_self:
  assumes t: "tx_inv base W h s"
  shows "tx_after base W h (timer_step pf h s)"
proof -
  let ?v = "slot_of h s"
  have l: "h < length (st_slots (sd_sockets s))" "length (sd_transmissions s) = transmit_capacity"
    and sl: "tx_slot base W ?v (entries h (sd_transmissions s))" using t by (simp_all add: tx_inv_def)
  have nsyn: "sk_state ?v \<noteq> St_syn_received" using sl by (simp add: tx_slot_def rx_live_def)
  have rel: "sk_detached ?v \<Longrightarrow> tx_after base W h (s\<lparr>sd_sockets := fst (sock_release (sd_sockets s) h)\<rparr>)"
    using close_dead(1) [OF t refl l(2)] by simp
  have closed: "tx_after base W h (put_socket h (?v\<lparr>sk_state := St_closed\<rparr>) s)"
    using l by (intro tx_after_put) (simp_all add: rx_live_def)
  have send: "tx_after base W h (put_socket h (snd (timer_send pf s ?v)) (fst (timer_send pf s ?v)))"
    using l timer_send_ok [OF sl entries_finite tx_inv_card [OF t]] by (intro tx_after_put) (simp_all add: timer_send_keeps)
  show ?thesis
    using nsyn rel closed send fail_connection_ok [OF t] tx_inv_after [OF t] by (simp add: timer_step_eq Let_def)
qed

text \<open>A connection that has ended is not revived by the timers or a retransmission.\<close>

definition keeps_dead :: "socket_handle \<Rightarrow> 'd stack \<Rightarrow> 'd stack \<Rightarrow> bool" where
  "keeps_dead h s s' \<longleftrightarrow> length (st_slots (sd_sockets s')) = length (st_slots (sd_sockets s)) \<and>
     length (sd_transmissions s') = length (sd_transmissions s) \<and>
     (h < length (st_slots (sd_sockets s)) \<and> \<not> rx_live (slot_of h s) \<longrightarrow> \<not> rx_live (slot_of h s'))"

lemma keeps_dead_same: "same_tx h s s' \<Longrightarrow> keeps_dead h s s'"
  by (simp add: same_tx_def keeps_dead_def tx_fields_def rx_live_def)

lemma drop_pending_state: "sk_state (st_slots (drop_pending g i t) ! h) \<in> {sk_state (st_slots t ! h), St_free}"
  by (cases "i = h"; cases "i < length (st_slots t)") (auto simp: drop_pending_def Let_def list_update_beyond)

lemma fold_drop_pending_state: "sk_state (st_slots (fold (drop_pending g) is t) ! h) \<in> {sk_state (st_slots t ! h), St_free}"
proof (induction "is" arbitrary: t)
  case (Cons i "is")
  show ?case using drop_pending_state [of g i t h] Cons.IH [of "drop_pending g i t"] by auto
qed simp

lemma sock_release_state:
  assumes "h < length (st_slots t)"
  shows "sk_state (st_slots (fst (sock_release t g)) ! h) \<in> {sk_state (st_slots t ! h), St_free}"
proof (cases "sock_slot t g")
  case (Some v)
  note v = sock_slot_SomeD [OF Some]
  have p: "sk_state (st_slots (put_slot g (v\<lparr>sk_references := x\<rparr>) t) ! h) = sk_state (st_slots t ! h)" for x
    using v by (cases "g = h") auto
  have f: "sk_state (st_slots (fold (drop_pending g) is (put_slot g (v\<lparr>sk_references := x\<rparr>) t)) ! h) \<in> {sk_state (st_slots t ! h), St_free}" for "is" x
    using fold_drop_pending_state [of g "is" "put_slot g (v\<lparr>sk_references := x\<rparr>) t" h] p by simp
  show ?thesis
    using Some p f v by (cases "g = h") (auto simp: sock_release_def Let_def)
qed (simp add: sock_release_def)

lemma sock_reset_state:
  assumes "h < length (st_slots t)"
  shows "sk_state (st_slots (sock_reset t g failure) ! h) \<in> {sk_state (st_slots t ! h), St_free, St_reset}"
proof (cases "sock_slot t g")
  case (Some v)
  show ?thesis
    using Some sock_release_state [OF assms, of g] sock_slot_SomeD [OF Some] by (cases "g = h") (auto simp: sock_reset_def)
qed (simp add: sock_reset_def)

lemma keeps_dead_release:
  assumes "sd_sockets s' = sd_sockets s" "length (sd_transmissions s') = length (sd_transmissions s)"
  shows "keeps_dead h s (s'\<lparr>sd_sockets := fst (sock_release (sd_sockets s') g)\<rparr>)"
    and "keeps_dead h s (s'\<lparr>sd_sockets := sock_reset (sd_sockets s') g failure\<rparr>)"
  using assms sock_release_state [of h "sd_sockets s" g] sock_reset_state [of h "sd_sockets s" g failure]
  by (auto simp: keeps_dead_def rx_live_def)

lemma keeps_dead_fail: "keeps_dead h s (fail_connection pf s g)"
proof (cases "socket_at s g")
  case (Some v)
  let ?s1 = "s\<lparr>sd_transmissions := clear_transmissions g (sd_transmissions s)\<rparr>"
  define s2 where "s2 = (if sk_state v \<noteq> St_syn_received
      then fst (send_segment pf ?s1 v (tcp_rst OR tcp_ack) [] (sk_send_next v)) else ?s1)"
  have "sd_sockets s2 = sd_sockets s" "length (sd_transmissions s2) = length (sd_transmissions s)"
    by (simp_all add: s2_def send_segment_keeps)
  from keeps_dead_release [OF this] show ?thesis
    by (simp add: fail_connection_def Some Let_def s2_def [symmetric])
qed (simp add: fail_connection_def keeps_dead_def)

lemma put_socket_simps [simp]:
  "length (st_slots (sd_sockets (put_socket g v s))) = length (st_slots (sd_sockets s))"
  "sd_transmissions (put_socket g v s) = sd_transmissions s" "sd_now (put_socket g v s) = sd_now s"
  by (simp_all add: put_socket_def)

lemma keeps_dead_timer: "keeps_dead h s (timer_step pf g s)"
proof (cases "g = h \<and> rx_live (slot_of h s)")
  case True
  then show ?thesis
    using keeps_dead_fail [of h s pf h] by (simp add: keeps_dead_def timer_step_eq Let_def timer_send_keeps syn_timer_keeps)
next
  case False
  have put: "keeps_dead h s (put_socket g w s1)"
    if "sd_sockets s1 = sd_sockets s" "sd_transmissions s1 = sd_transmissions s" "g = h \<Longrightarrow> \<not> rx_live w" for w s1
    using that by (cases "g = h") (auto simp: keeps_dead_def put_socket_def)
  let ?v = "slot_of g s"
  have syn: "sk_state ?v = St_syn_received \<Longrightarrow> keeps_dead h s (put_socket g (snd (syn_timer pf s ?v)) (fst (syn_timer pf s ?v)))"
    using syn_timer_keeps(3) [of pf s ?v] by (intro put) (simp_all add: syn_timer_keeps tx_fields_def rx_live_def)
  have closed: "keeps_dead h s (put_socket g (?v\<lparr>sk_state := St_closed\<rparr>) s)" by (intro put) (simp_all add: rx_live_def)
  have send: "rx_live ?v \<Longrightarrow> keeps_dead h s (put_socket g (snd (timer_send pf s ?v)) (fst (timer_send pf s ?v)))"
    using False by (intro put) (simp_all add: timer_send_keeps)
  have refl: "keeps_dead h s s" by (simp add: keeps_dead_def)
  show ?thesis
    using syn closed send [unfolded rx_live_def] refl keeps_dead_fail [of h s pf g] keeps_dead_release(1) [of s s h g]
    by (simp add: timer_step_eq Let_def)
qed

lemma timer_step_after:
  assumes "tx_after base W h s"
  shows "tx_after base W h (timer_step pf g s)"
proof (cases "rx_live (slot_of h s)")
  case True
  note t = tx_after_inv [OF assms True]
  show ?thesis using timer_step_self [OF t] tx_after_same [OF t timer_step_other [OF tx_inv_owned [OF t]]] by (cases "g = h") auto
next
  case False
  then show ?thesis using assms keeps_dead_timer [of h s pf g] by (simp add: keeps_dead_def tx_after_def)
qed

lemma flush_timers_after: "tx_after base W h s \<Longrightarrow> tx_after base W h (flush_timers pf s)"
proof -
  have "tx_after base W h s \<Longrightarrow> tx_after base W h (fold (timer_step pf) gs s)" for gs
    by (induction gs arbitrary: s) (simp_all add: timer_step_after)
  then show "tx_after base W h s \<Longrightarrow> tx_after base W h (flush_timers pf s)" by (simp add: flush_timers_def)
qed

lemma keeps_dead_retransmission:
  "sd_transmissions s \<noteq> [] \<Longrightarrow> keeps_dead h s (retransmission_loop pf cs s)"
proof (induction cs arbitrary: s)
  case (Cons c cs)
  define index where "index = (sd_retry_cursor s + c) mod length (sd_transmissions s)"
  have i: "index < length (sd_transmissions s)" using Cons.prems by (simp add: index_def)
  let ?d = "s\<lparr>sd_transmissions := (sd_transmissions s)[index := None]\<rparr>"
  have d: "keeps_dead h s (retransmission_loop pf cs ?d)" using Cons.IH [of ?d] Cons.prems by (simp add: keeps_dead_def)
  have r: "keeps_dead h s (retransmit pf index g q p v s)"
    if "sd_transmissions s ! index = Some ((g, q), p)" "socket_at s g = Some v" for g q p v
    using same_tx_retransmit [OF i that(1)] that(2) sock_slot_SomeD [of "sd_sockets s" g v]
    by (intro keeps_dead_same) (simp add: socket_at_def)
  show ?case
    using Cons.IH [OF Cons.prems] d r by (auto simp: index_def [symmetric] Let_def split: option.split)
qed (simp add: keeps_dead_def)

lemma flush_retransmission_after:
  assumes "tx_after base W h s"
  shows "tx_after base W h (flush_retransmission pf s)"
proof -
  have ne: "sd_transmissions s \<noteq> []" using assms by (auto simp: tx_after_def)
  show ?thesis
  proof (cases "rx_live (slot_of h s)")
    case True
    note t = tx_after_inv [OF assms True]
    then show ?thesis
      using tx_after_same [OF t same_tx_retransmission_loop] True ne by (simp add: flush_retransmission_def tx_inv_def)
  next
    case False
    then show ?thesis
      using assms keeps_dead_retransmission [OF ne, of h pf] by (simp add: keeps_dead_def tx_after_def flush_retransmission_def)
  qed
qed

lemma poll_ok:
  assumes t: "tx_inv base W h s"
  shows "tx_after base W h (poll pf s)"
proof -
  define s1 where "s1 = flush_acknowledgements pf (update_clock pf s)"
  define s2 where "s2 = (case pf_receive pf (sd_device s1) of
      (d, None) \<Rightarrow> s1\<lparr>sd_device := d\<rparr>
    | (d, Some frame) \<Rightarrow> (case handle_frame pf (s1\<lparr>sd_device := d\<rparr>) frame of (s3, r) \<Rightarrow> record_reply r s3))"
  have t1: "tx_inv base W h (s1\<lparr>sd_device := d\<rparr>)" for d
    using tx_inv_same [OF t same_tx_trans [OF same_tx_clock same_tx_flush_acknowledgements]]
    by (simp add: s1_def tx_inv_def)
  have rr: "tx_after base W h (record_reply r s3)" if "tx_after base W h s3" for r s3
    using that by (simp add: tx_after_def)
  have "tx_after base W h s2"
    using tx_inv_after [OF t1] rr [OF handle_frame_ok [OF t1]] by (auto simp: s2_def case_prod_unfold split: option.split)
  from flush_retransmission_after [OF flush_timers_after [OF this]] show ?thesis
    using tx_inv_after [OF t] by (simp add: poll_def Let_def s1_def [symmetric] s2_def [symmetric])
qed

subsection \<open>Writing\<close>

lemma tx_slot_append:
  assumes t: "tx_slot base W v E" and E: "finite E" "card E < transmit_capacity" and fin: "\<not> sk_fin_sent v"
    and d: "d \<noteq> []" "length d \<le> transmit_segment_capacity"
    and v': "tx_fields v' = tx_fields (v\<lparr>sk_send_next := sk_send_next v + of_nat (length d)\<rparr>)"
  shows "tx_slot base (W @ d) v' (insert (sk_send_next v, d) E)"
proof -
  have ts: "tx_stream base W v E" using t by (simp add: tx_slot_def)
  have "card E \<le> transmit_capacity" using E(2) by simp
  with ts E(1) obtain k where k: "sk_send_unacknowledged v = base + of_nat k" "k \<le> length W + (if sk_fin_sent v then 1 else 0)"
    "tiles (sk_send_unacknowledged v) (drop k W) E" "length W \<le> k + 16384" by (rule tx_stream_flight)
  have kW: "k \<le> length W" using k(2) fin by simp
  have nxt: "sk_send_next v = sk_send_unacknowledged v + of_nat (length (drop k W))"
    using ts fin k(1) kW by (simp add: tx_stream_def of_nat_diff)
  have "tiles (sk_send_unacknowledged v) (drop k W @ d) (insert (sk_send_next v, d) E)"
    unfolding nxt by (rule tiles_append [OF k(3) _ d]) (use k(4) d(2) in simp)
  then have "tx_stream base (W @ d) (v\<lparr>sk_send_next := sk_send_next v + of_nat (length d)\<rparr>) (insert (sk_send_next v, d) E)"
    using ts fin k(1) kW by (auto simp: tx_stream_def intro!: exI [of _ k])
  then have "tx_slot base (W @ d) (v\<lparr>sk_send_next := sk_send_next v + of_nat (length d)\<rparr>) (insert (sk_send_next v, d) E)"
    using t fin by (simp add: tx_slot_def rx_live_def)
  then show ?thesis using tx_slot_cong [OF v'] by simp
qed

lemma entries_card_free:
  assumes "i < length ts" "ts ! i = None"
  shows "card (entries h ts) < length ts"
proof -
  let ?ts = "take i ts @ drop (Suc i) ts"
  have "set ts = insert None (set ?ts)"
    using assms by (metis id_take_nth_drop list.set(2) set_append Un_insert_right)
  then have "entries h ts = entries h ?ts" by (auto simp: entries_def)
  moreover have "length ?ts < length ts" using assms(1) by simp
  ultimately show ?thesis using entries_card [of h ?ts] by simp
qed

lemma queue_transmission_other:
  assumes "queue_transmission pf s g v flags payload sequence = (s1, ok)"
  shows "sd_sockets s1 = sd_sockets s" "length (sd_transmissions s1) = length (sd_transmissions s)" "sd_now s1 = sd_now s"
    "g \<noteq> h \<or> \<not> ok \<Longrightarrow> entries h (sd_transmissions s1) = entries h (sd_transmissions s)"
  using assms first_index_SomeD [of "\<lambda>e. e = None" "sd_transmissions s"]
  by (auto simp: queue_transmission_def send_segment_eqs entries_fill split: if_splits option.splits prod.splits)

lemma queue_transmission_ok:
  assumes t: "tx_slot base W v (entries h (sd_transmissions s))" "length (sd_transmissions s) = transmit_capacity"
    and fin: "\<not> sk_fin_sent v" and d: "d \<noteq> []"
    and q: "queue_transmission pf s h v flags d (sk_send_next v) = (s1, True)"
    and v': "tx_fields v' = tx_fields (v\<lparr>sk_send_next := sk_send_next v + of_nat (length d)\<rparr>)"
  shows "tx_slot base (W @ d) v' (entries h (sd_transmissions s1))"
  using q
proof (rule queue_transmission_True)
  fix i s2
  assume i: "first_index (\<lambda>e. e = None) (sd_transmissions s) = Some i" and l: "length d \<le> transmit_segment_capacity"
    and s1: "s1 = s2\<lparr>sd_transmissions := (sd_transmissions s)[i := Some ((h, sk_send_next v),
       \<lparr>ts_retry_at = sd_now s2 + sk_rto v, ts_delay = sk_rto v, ts_first_sent = sd_now s2,
        ts_fast_retry = False, ts_flags = flags, ts_attempts = 1, ts_data = d\<rparr>)]\<rparr>"
  have n: "i < length (sd_transmissions s)" "sd_transmissions s ! i = None" using first_index_SomeD [OF i] by simp_all
  have "entries h (sd_transmissions s1) = insert (sk_send_next v, d) (entries h (sd_transmissions s))"
    by (simp add: s1 entries_fill [OF n])
  moreover have "card (entries h (sd_transmissions s)) < transmit_capacity" using entries_card_free [OF n, of h] t(2) by simp
  ultimately show ?thesis using tx_slot_append [OF t(1) entries_finite _ fin d l v'] by simp
qed

lemma drop_take_split:
  assumes "w + c \<le> b"
  shows "drop w (take b xs) = take c (drop w xs) @ drop (w + c) (take b xs)"
proof -
  have "take c (drop w (take b xs)) = take c (drop w xs)" using assms by (simp add: drop_take min_def)
  moreover have "drop c (drop w (take b xs)) = drop (w + c) (take b xs)" by (simp add: add.commute)
  ultimately show ?thesis by (metis append_take_drop_id)
qed

text \<open>What the write loop does to the connection, and what it has written.\<close>

lemma write_loop_ok:
  assumes "tx_slot base W v (entries h (sd_transmissions s))" "length (sd_transmissions s) = transmit_capacity" "\<not> sk_fin_sent v"
    and "written \<le> length input" "write_loop pf s h v input available written = (s', v', result, written')"
  shows "tx_slot base (W @ drop written (take written' input)) v' (entries h (sd_transmissions s')) \<and>
    written \<le> written' \<and> written' \<le> length input \<and> (written \<le> available \<longrightarrow> written' \<le> available) \<and> sd_sockets s' = sd_sockets s \<and>
    length (sd_transmissions s') = transmit_capacity \<and>
    sk_send_next v' = sk_send_next v + of_nat (written' - written) \<and> sk_send_unacknowledged v' = sk_send_unacknowledged v"
  using assms
proof (induction "free_transmissions s" arbitrary: W v s written rule: less_induct)
  case less
  show ?case
  proof (cases "written < length input \<and> written < available")
    case False
    then show ?thesis using less.prems by (auto simp: write_loop.simps [of pf s])
  next
    case True
    define count where "count = min (min (length input - written) (available - written)) (min transmit_segment_capacity (unat (sk_peer_mss v)))"
    define d where "d = take count (drop written input)"
    obtain s1 ok where q: "queue_transmission pf s h v (tcp_ack OR tcp_psh) d (sk_send_next v) = (s1, ok)" by fastforce
    note Q = queue_transmission_other [OF q]
    note eq = write_loop.simps [of pf s h v input available written, unfolded if_P [OF True] Let_def, folded count_def, folded d_def, unfolded q prod.case]
    show ?thesis
    proof (cases ok)
      case False
      then show ?thesis using less.prems Q Q(4) [of h] eq by auto
    next
      case ok: True
      define v1 where "v1 = v\<lparr>sk_progress_at := (if sk_send_unacknowledged v = sk_send_next v then sd_now s1 else sk_progress_at v),
          sk_acknowledgement_retries := 0, sk_send_next := sk_send_next v + of_nat count\<rparr>"
      have c: "0 < count" "count \<le> length input - written" "written + count \<le> available"
        using True less.prems(1) by (auto simp: count_def word_neq_0_unat tx_slot_def)
      have dl: "length d = count" "d \<noteq> []" using c by (auto simp: d_def)
      have "tx_fields v1 = tx_fields (v\<lparr>sk_send_next := sk_send_next v + of_nat (length d)\<rparr>)" by (simp add: v1_def tx_fields_def dl)
      from queue_transmission_ok [OF less.prems(1-3) dl(2) q [unfolded ok [THEN eqTrueI]] this]
      have t1: "tx_slot base (W @ d) v1 (entries h (sd_transmissions s1))" .
      have "write_loop pf s1 h v1 input available (written + count) = (s', v', result, written')"
        using less.prems(5) eq ok by (simp add: v1_def)
      from less.hyps [OF _ t1 _ _ _ this] queue_transmission_fills [of pf s h v _ d _ s1] q ok Q(2) less.prems c
      have IH: "tx_slot base ((W @ d) @ drop (written + count) (take written' input)) v' (entries h (sd_transmissions s')) \<and>
          written + count \<le> written' \<and> written' \<le> length input \<and> (written + count \<le> available \<longrightarrow> written' \<le> available) \<and>
          sd_sockets s' = sd_sockets s1 \<and> length (sd_transmissions s') = transmit_capacity \<and>
          sk_send_next v' = sk_send_next v1 + of_nat (written' - (written + count)) \<and> sk_send_unacknowledged v' = sk_send_unacknowledged v1"
        by (simp add: v1_def)
      then have w: "written + count \<le> written'" by simp
      have "drop written (take written' input) = d @ drop (written + count) (take written' input)"
        unfolding d_def by (rule drop_take_split [OF w])
      moreover have "of_nat count + of_nat (written' - (written + count)) = (of_nat (written' - written) :: u32)"
        using w by (simp add: of_nat_diff)
      ultimately show ?thesis using IH Q(1) c by (auto simp: v1_def add.assoc)
    qed
  qed
qed

lemma write_loop_other:
  assumes "g \<noteq> h" "write_loop pf s g v input available written = (s', v', result, written')"
  shows "same_tx h s s' \<and> sd_sockets s' = sd_sockets s"
  using assms(2)
proof (induction "free_transmissions s" arbitrary: v s written rule: less_induct)
  case less
  show ?case
  proof (cases "written < length input \<and> written < available")
    case False
    then show ?thesis using less.prems by (auto simp: write_loop.simps [of pf s])
  next
    case True
    define count where "count = min (min (length input - written) (available - written)) (min transmit_segment_capacity (unat (sk_peer_mss v)))"
    define d where "d = take count (drop written input)"
    obtain s1 ok where q: "queue_transmission pf s g v (tcp_ack OR tcp_psh) d (sk_send_next v) = (s1, ok)" by fastforce
    note Q = queue_transmission_other [OF q]
    have s1: "same_tx h s s1" using Q assms(1) by (simp add: same_tx_def)
    note eq = write_loop.simps [of pf s g v input available written, unfolded if_P [OF True] Let_def, folded count_def, folded d_def, unfolded q prod.case]
    show ?thesis
    proof (cases ok)
      case False
      then show ?thesis using less.prems Q(1) s1 eq by auto
    next
      case ok: True
      have "free_transmissions s1 < free_transmissions s" using queue_transmission_fills [of pf s g v _ d _ s1] q ok by simp
      from less.hyps [OF this] less.prems eq ok Q(1) same_tx_trans [OF s1] show ?thesis by fastforce
    qed
  qed
qed

text \<open>The slot a write starts with: an idle connection restarts with a small window.\<close>

definition restart_idle :: "u64 \<Rightarrow> socket_slot \<Rightarrow> socket_slot" where
  "restart_idle now v = (if sk_send_next v = sk_send_unacknowledged v \<and> now - sk_progress_at v \<ge> sk_rto v
     then v\<lparr>sk_congestion_window := min (sk_congestion_window v) (4 * ucast (sk_peer_mss v))\<rparr> else v)"

lemma restart_idle_keeps: "tx_fields (restart_idle now v) = tx_fields v" "sk_peer_window (restart_idle now v) = sk_peer_window v"
  by (simp_all add: restart_idle_def tx_fields_def)

lemma socket_write_cases:
  obtains (none) r where "socket_write pf s h input = (update_clock pf s, r, 0)"
  | (blocked) v where "socket_write pf s h input = (put_socket h v (update_clock pf s), Sr_would_block, 0)"
      "tx_fields v = tx_fields (slot_of h (update_clock pf s))"
  | (sent) v s1 v1 r n where "v = restart_idle (sd_now (update_clock pf s)) (slot_of h (update_clock pf s))"
      "write_loop pf (update_clock pf s) h v input (unat (send_space v)) 0 = (s1, v1, r, n)"
      "sock_writable (sd_sockets (update_clock pf s)) h" "send_space v \<noteq> 0"
      "socket_write pf s h input = (put_socket h v1 s1, r, n)"
proof (cases "socket_at (update_clock pf s) h")
  case None
  then show thesis using none by (simp add: socket_write_def Let_def)
next
  case (Some v0)
  let ?s = "update_clock pf s"
  have v0: "v0 = slot_of h ?s" using sock_slot_SomeD [of "sd_sockets ?s" h v0] Some by (simp add: socket_at_def)
  define v where "v = restart_idle (sd_now ?s) v0"
  obtain s1 v1 r n where w: "write_loop pf ?s h v input (unat (send_space v)) 0 = (s1, v1, r, n)" by (metis prod_cases4)
  show thesis
  proof (cases "sk_state v0 = St_reset \<or> \<not> sock_writable (sd_sockets ?s) h \<or> input = []")
    case True
    then have "\<exists>r. socket_write pf s h input = (update_clock pf s, r, 0)" using Some by (auto simp: socket_write_def Let_def)
    then show thesis using none by blast
  next
    case False
    note eq = socket_write_def [of pf s h input, unfolded Let_def Some option.case]
    show thesis
    proof (cases "unat (send_space v) = 0")
      case True
      define w where "w = (if sk_peer_window v = 0 \<and> \<not> sk_persist_waiting v
          then v\<lparr>sk_persist_waiting := True, sk_progress_at := sd_now ?s, sk_persist_delay := sk_rto v,
            sk_persist_retry_at := sd_now ?s + sk_rto v\<rparr> else v)"
      have "socket_write pf s h input = (put_socket h w ?s, Sr_would_block, 0)"
        using False True unfolding eq v_def [unfolded restart_idle_def, symmetric] w_def by simp
      moreover have "tx_fields w = tx_fields v0" using restart_idle_keeps(1) by (simp add: w_def v_def tx_fields_def)
      ultimately show thesis using blocked v0 by blast
    next
      case pos: False
      have "socket_write pf s h input = (put_socket h v1 s1, r, n)"
        using False pos w unfolding eq v_def [unfolded restart_idle_def, symmetric] by simp
      moreover have "v = restart_idle (sd_now ?s) (slot_of h ?s)" "send_space v \<noteq> 0" using v0 pos by (auto simp: v_def)
      ultimately show thesis using sent w False by blast
    qed
  qed
qed

lemma tx_inv_put:
  "h < length (st_slots (sd_sockets s)) \<Longrightarrow> length (sd_transmissions s) = transmit_capacity \<Longrightarrow>
   tx_slot base W v (entries h (sd_transmissions s)) \<Longrightarrow> tx_inv base W h (put_socket h v s)"
  by (simp add: tx_inv_def put_socket_def)

lemma socket_write_ok:
  assumes t: "tx_inv base W h s" and w: "socket_write pf s h input = (s', r, n)"
  shows "tx_inv base (W @ take n input) h s'" "n \<le> length input"
proof -
  let ?s = "update_clock pf s"
  have t1: "tx_inv base W h ?s" by (rule tx_inv_same [OF t same_tx_clock])
  have "tx_inv base (W @ take n input) h s' \<and> n \<le> length input"
  proof (cases rule: socket_write_cases [of pf s h input])
    case none
    then show ?thesis using w t1 by simp
  next
    case blocked
    then show ?thesis using w tx_inv_same [OF t1 same_tx_put] by simp
  next
    case (sent v s1 v1 r1 n1)
    have nf: "\<not> sk_fin_sent (slot_of h ?s)"
      using sent(3) t1 by (auto simp: sock_writable_def sock_slot_def tx_inv_def tx_slot_def split: if_splits)
    have v: "tx_slot base W v (entries h (sd_transmissions ?s))" "\<not> sk_fin_sent v"
      using t1 nf restart_idle_keeps(1) [of "sd_now ?s" "slot_of h ?s"] tx_slot_cong [of v "slot_of h ?s"]
      by (simp_all add: tx_inv_def sent(1) tx_fields_def)
    have "length (sd_transmissions ?s) = transmit_capacity" using t1 by (simp add: tx_inv_def)
    from write_loop_ok [OF v(1) this v(2) _ sent(2)] sent(5) w t1 show ?thesis
      by (auto simp: tx_inv_def put_socket_def)
  qed
  then show "tx_inv base (W @ take n input) h s'" "n \<le> length input" by simp_all
qed

lemma socket_write_other: "g \<noteq> h \<Longrightarrow> same_tx h s (fst (socket_write pf s g input))"
proof (cases rule: socket_write_cases [of pf s g input])
  case none
  then show ?thesis by (simp add: same_tx_clock)
next
  case blocked
  assume "g \<noteq> h"
  then show ?thesis unfolding blocked fst_conv by (intro same_tx_trans [OF same_tx_clock same_tx_put]) simp
next
  case (sent v s1 v1 r1 n1)
  assume g: "g \<noteq> h"
  from write_loop_other [OF g sent(2)] have "same_tx h (update_clock pf s) s1" ..
  then show ?thesis unfolding sent fst_conv
    by (rule same_tx_trans [OF same_tx_trans [OF same_tx_clock] same_tx_put]) (use g in simp)
qed

subsection \<open>The other socket operations\<close>

lemma socket_read_ok:
  assumes t: "tx_inv base W h s"
  shows "tx_inv base W h (fst (socket_read pf s g sz))"
proof -
  let ?s = "update_clock pf s"
  obtain t1 r bytes where rd: "sock_read (sd_sockets ?s) g sz = (t1, r, bytes)" by (metis prod_cases3)
  let ?s1 = "?s\<lparr>sd_sockets := t1\<rparr>"
  have tc: "tx_inv base W h ?s" by (rule tx_inv_same [OF t same_tx_clock])
  have s1: "tx_inv base W h ?s1"
  proof (cases "g = h")
    case True
    have "length (st_slots t1) = length (st_slots (sd_sockets ?s)) \<and> rx_frame (slot_of h ?s) (st_slots t1 ! h)"
      using sock_read_rx [of h "sd_sockets ?s" sz] tc True rd by (simp add: tx_inv_def)
    then show ?thesis using tc tx_slot_rx_frame by (auto simp: tx_inv_def)
  next
    case False
    have "keeps_slot h (sd_sockets ?s) t1" using sock_read_keeps [OF False, of "sd_sockets ?s" sz] rd by simp
    then show ?thesis by (rule tx_inv_same [OF tc same_tx_keeps])
  qed
  have "\<exists>b. fst (socket_read pf s g sz) = ?s1 \<or> fst (socket_read pf s g sz) = put_socket g b ?s1 \<and> tx_fields b = tx_fields (slot_of g ?s1)"
  proof (cases "bytes = [] \<or> socket_at ?s1 g = None")
    case True
    then show ?thesis by (auto simp: socket_read_def Let_def rd)
  next
    case False
    then obtain v where v: "socket_at ?s1 g = Some v" by auto
    have "v = slot_of g ?s1" using sock_slot_SomeD [of t1 g v] v by (simp add: socket_at_def)
    then show ?thesis using False v by (auto simp: socket_read_def Let_def rd tx_fields_def)
  qed
  then show ?thesis using s1 tx_inv_same [OF s1 same_tx_put] by metis
qed

lemma socket_shutdown_ok:
  assumes t: "tx_inv base W h s"
  shows "tx_inv base W h (fst (socket_shutdown pf s g how))"
proof -
  let ?s = "update_clock pf s"
  have tc: "tx_inv base W h ?s" by (rule tx_inv_same [OF t same_tx_clock])
  define r where "r = (if how \<noteq> 0 then request_fin pf ?s (slot_of g ?s) else (?s, slot_of g ?s))"
  define w where "w = (if how \<noteq> 1 then (snd r)\<lparr>sk_read_closed := True, sk_receive_buffer := [], sk_acknowledgement_retries := 1\<rparr> else snd r)"
  have k: "sd_sockets (fst r) = sd_sockets ?s" "sd_transmissions (fst r) = sd_transmissions ?s" by (simp_all add: r_def)
  have "fst (socket_shutdown pf s g how) = ?s \<or> fst (socket_shutdown pf s g how) = put_socket g w (fst r)"
  proof (cases "socket_at ?s g")
    case (Some v)
    have "v = slot_of g ?s" using sock_slot_SomeD [of "sd_sockets ?s" g v] Some by (simp add: socket_at_def)
    then show ?thesis by (simp add: socket_shutdown_def Let_def Some w_def case_prod_unfold) (simp add: r_def)
  qed (simp add: socket_shutdown_def)
  moreover have "tx_inv base W h (put_socket g w (fst r))"
  proof (cases "g = h")
    case True
    have "tx_slot base W (slot_of h ?s) (entries h (sd_transmissions ?s))" using tc by (simp add: tx_inv_def)
    from request_fin_ok [OF this entries_finite tx_inv_card [OF tc], of pf ?s] this
    have r2: "tx_slot base W (snd r) (entries h (sd_transmissions ?s))" using True by (simp add: r_def)
    have "tx_fields w = tx_fields (snd r)" by (simp add: w_def tx_fields_def)
    from tx_slot_cong [OF this] r2 k tc show ?thesis unfolding True by (intro tx_inv_put) (simp_all add: tx_inv_def)
  next
    case False
    show ?thesis by (rule tx_inv_same [OF tc same_tx_trans [OF same_tx_eqs [OF k] same_tx_put]]) (use False in simp)
  qed
  ultimately show ?thesis using tc by auto
qed

lemma socket_close_self:
  assumes t: "tx_inv base W h s" and d: "\<not> sk_detached (slot_of h s)"
  shows "tx_after base W h (fst (socket_close pf s h))"
proof -
  let ?s = "update_clock pf s"
  let ?v = "slot_of h ?s"
  have tc: "tx_inv base W h ?s" by (rule tx_inv_same [OF t same_tx_clock])
  have l: "h < length (st_slots (sd_sockets ?s))" "length (sd_transmissions ?s) = transmit_capacity"
    and sl: "tx_slot base W ?v (entries h (sd_transmissions ?s))" using tc by (simp_all add: tx_inv_def)
  have live: "rx_live ?v" using sl by (simp add: tx_slot_def)
  have at: "socket_at ?s h = Some ?v" using l(1) rx_live_not_free [OF live] by (simp add: socket_at_def sock_slot_def)
  show ?thesis
  proof (cases "sk_references ?v = 1")
    case True
    have dead: "\<not> rx_live (st_slots (fst (sock_release (sd_sockets ?s) h)) ! h)" by (rule sock_release_dead [OF l(1) live True])
    have "tx_slot base W (?v\<lparr>sk_detached := True\<rparr>) (entries h (sd_transmissions ?s))"
      using sl True by (simp add: tx_slot_def tx_stream_def rx_live_def)
    from request_fin_ok [OF this entries_finite tx_inv_card [OF tc], of pf ?s]
    have "tx_after base W h (put_socket h (snd (request_fin pf ?s (?v\<lparr>sk_detached := True\<rparr>))) (fst (request_fin pf ?s (?v\<lparr>sk_detached := True\<rparr>))))"
      using l by (intro tx_after_put) simp_all
    moreover have "tx_after base W h (?s\<lparr>sd_transmissions := clear_transmissions h (sd_transmissions ?s), sd_sockets := fst (sock_release (sd_sockets ?s) h)\<rparr>)"
      using l dead by (intro tx_after_dead) simp_all
    ultimately show ?thesis using True live by (simp add: socket_close_def Let_def at case_prod_unfold rx_live_def)
  next
    case False
    have e: "sk_references ?v \<noteq> 0 \<Longrightarrow> st_slots (fst (sock_release (sd_sockets ?s) h)) ! h = ?v\<lparr>sk_references := sk_references ?v - 1\<rparr>"
      using False l(1) at by (simp add: sock_release_def socket_at_def Let_def)
    have z: "sk_references ?v = 0 \<Longrightarrow> fst (sock_release (sd_sockets ?s) h) = sd_sockets ?s"
      using at by (simp add: sock_release_def socket_at_def)
    have nd: "\<not> sk_detached ?v" using d same_tx_clock [of h s pf] by (simp add: same_tx_def tx_fields_def)
    have "tx_after base W h (?s\<lparr>sd_sockets := fst (sock_release (sd_sockets ?s) h)\<rparr>)"
    proof (cases "sk_references ?v = 0")
      case True
      then show ?thesis using tx_inv_after [OF tc] z by simp
    next
      case False
      have "tx_slot base W (?v\<lparr>sk_references := sk_references ?v - 1\<rparr>) (entries h (sd_transmissions ?s))"
        using sl nd by (simp add: tx_slot_def tx_stream_def rx_live_def)
      then show ?thesis using e [OF False] l by (simp add: tx_after_def)
    qed
    then show ?thesis using False by (simp add: socket_close_def Let_def at case_prod_unfold)
  qed
qed

lemma socket_close_other:
  assumes o: "owned_live h (sd_sockets s)" and g: "g \<noteq> h"
  shows "same_tx h s (fst (socket_close pf s g))"
proof (cases "socket_at (update_clock pf s) g")
  case (Some v)
  let ?s = "update_clock pf s"
  have sk: "sd_sockets ?s = sd_sockets s" by (simp add: update_clock_def split: prod.split)
  have rel: "same_tx h ?s (?s\<lparr>sd_sockets := fst (sock_release (sd_sockets ?s) g)\<rparr>)"
    by (rule same_tx_keeps [OF sock_release_keeps]) (use o g sk in simp_all)
  have cl: "same_tx h u (u\<lparr>sd_transmissions := clear_transmissions g (sd_transmissions u)\<rparr>)" for u :: "'a stack" by (rule same_tx_clear [OF g])
  have cr: "same_tx h ?s (?s\<lparr>sd_transmissions := clear_transmissions g (sd_transmissions ?s), sd_sockets := fst (sock_release (sd_sockets ?s) g)\<rparr>)"
    using same_tx_trans [OF cl same_tx_keeps, of ?s "fst (sock_release (sd_sockets ?s) g)"] rel
    by (simp add: same_tx_def entries_clear g)
  have "same_tx h ?s (put_socket g (snd (request_fin pf ?s w)) (fst (request_fin pf ?s w)))" for w
    by (rule same_tx_trans [OF same_tx_eqs same_tx_put]) (use g in simp_all)
  then have "same_tx h ?s (fst (socket_close pf s g))"
    using rel same_tx_trans [OF rel cl] cr by (simp add: socket_close_def Let_def Some case_prod_unfold)
  then show ?thesis by (rule same_tx_trans [OF same_tx_clock])
qed (simp add: socket_close_def same_tx_clock)

end
