(* ===== verification/Tcp_Stream.thy ===== *)
theory Tcp_Stream
  imports Tcp_Sender
begin

text \<open>
  The sending side of \<^verbatim>\<open>network/stack.cpp\<close>, third part: runs of the whole stack, the byte
  stream theorem of the sender, and the bound on the data in flight.
\<close>

unbundle bit_operations_syntax

section \<open>Runs of the stack\<close>

datatype stack_op =
  Sk_initialize | Sk_poll | Sk_ioctl u32 ifreq | Sk_open socket_type | Sk_retain socket_handle | Sk_close socket_handle
| Sk_bind socket_handle endpoint | Sk_listen socket_handle u32 | Sk_accept socket_handle | Sk_read socket_handle nat
| Sk_write socket_handle "u8 list" | Sk_shutdown socket_handle u32

text \<open>
  A closed socket has no descriptor left, so no operation names it although its slot lives on until
  the connection has ended.
\<close>

definition usable :: "'d stack \<Rightarrow> socket_handle \<Rightarrow> bool" where
  "usable s g \<longleftrightarrow> (case socket_at s g of None \<Rightarrow> True | Some v \<Rightarrow> \<not> sk_detached v)"

fun stack_step :: "'d platform \<Rightarrow> stack_op \<Rightarrow> 'd stack \<Rightarrow> 'd stack" where
  "stack_step pf Sk_initialize s = fst (stack_initialize pf s)"
| "stack_step pf Sk_poll s = poll pf s"
| "stack_step pf (Sk_ioctl request r) s = fst (stack_ioctl s request r)"
| "stack_step pf (Sk_open ty) s = fst (socket_open s ty)"
| "stack_step pf (Sk_retain g) s = (if usable s g then fst (socket_retain s g) else s)"
| "stack_step pf (Sk_close g) s = (if usable s g then fst (socket_close pf s g) else s)"
| "stack_step pf (Sk_bind g local) s = (if usable s g then fst (socket_bind s g local) else s)"
| "stack_step pf (Sk_listen g backlog) s = (if usable s g then fst (socket_listen s g backlog) else s)"
| "stack_step pf (Sk_accept g) s = (if usable s g then fst (socket_accept s g) else s)"
| "stack_step pf (Sk_read g sz) s = (if usable s g then fst (socket_read pf s g sz) else s)"
| "stack_step pf (Sk_write g input) s = (if usable s g then fst (socket_write pf s g input) else s)"
| "stack_step pf (Sk_shutdown g how) s = (if usable s g then fst (socket_shutdown pf s g how) else s)"

text \<open>The bytes an operation accepts for connection \<open>h\<close>.\<close>

fun accepted_for :: "'d platform \<Rightarrow> socket_handle \<Rightarrow> stack_op \<Rightarrow> 'd stack \<Rightarrow> u8 list" where
  "accepted_for pf h (Sk_write g input) s =
     (if g = h \<and> usable s g then take (snd (snd (socket_write pf s g input))) input else [])"
| "accepted_for pf h op s = []"

text \<open>A run collects the bytes accepted for \<open>h\<close> as long as the connection lives.\<close>

fun tx_step :: "'d platform \<Rightarrow> socket_handle \<Rightarrow> stack_op \<Rightarrow> 'd stack \<times> u8 list option \<Rightarrow> 'd stack \<times> u8 list option" where
  "tx_step pf h op (s, sent) =
     (let s' = stack_step pf op s
      in (s', if rx_live (slot_of h s') then map_option (\<lambda>W. W @ accepted_for pf h op s) sent else None))"

definition tx_run :: "'d platform \<Rightarrow> socket_handle \<Rightarrow> stack_op list \<Rightarrow> 'd stack \<Rightarrow> 'd stack \<times> u8 list option" where
  "tx_run pf h ops s = fold (tx_step pf h) ops (s, Some [])"

text \<open>A connection handed out by \<open>accept\<close>, before its first write.\<close>

definition fresh_connection :: "socket_handle \<Rightarrow> 'd stack \<Rightarrow> bool" where
  "fresh_connection h s \<longleftrightarrow> h < length (st_slots (sd_sockets s)) \<and> length (sd_transmissions s) = transmit_capacity \<and>
     \<not> list_ex (\<lambda>e. case e of Some ((g, _), _) \<Rightarrow> g = h | None \<Rightarrow> False) (sd_transmissions s) \<and>
     (let v = slot_of h s
      in (sk_state v = St_established \<or> sk_state v = St_close_wait) \<and> sk_accepted v \<and> \<not> sk_detached v \<and> \<not> sk_fin_sent v \<and> \<not> sk_fin_acked v \<and>
         sk_send_unacknowledged v = sk_send_next v \<and> sk_peer_mss v \<noteq> 0)"

lemma fresh_connection_inv:
  assumes "fresh_connection h s"
  shows "tx_inv (sk_send_next (slot_of h s)) [] h s"
proof -
  have "entries h (sd_transmissions s) = {}"
    using assms unfolding fresh_connection_def entries_def list_ex_iff by fastforce
  then show ?thesis
    using assms by (auto simp: fresh_connection_def Let_def tx_inv_def tx_slot_def tx_stream_def rx_live_def)
qed

lemma socket_table_op_ok:
  assumes t: "tx_inv base W h s" and k: "keeps_slot h (sd_sockets s) t'"
  shows "tx_after base W h (s\<lparr>sd_sockets := t'\<rparr>)"
  by (rule tx_after_same [OF t same_tx_keeps [OF k]])

lemma socket_retain_ok:
  assumes t: "tx_inv base W h s" and u: "usable s g"
  shows "tx_after base W h (fst (socket_retain s g))"
proof (cases "g = h")
  case False
  from socket_table_op_ok [OF t sock_retain_keeps [OF False]] show ?thesis by (simp add: socket_retain_def case_prod_unfold)
next
  case True
  have l: "h < length (st_slots (sd_sockets s))" and sl: "tx_slot base W (slot_of h s) (entries h (sd_transmissions s))"
    using t by (simp_all add: tx_inv_def)
  have at: "sock_slot (sd_sockets s) h = Some (slot_of h s)"
    using l sl rx_live_not_free [of "slot_of h s"] by (simp add: sock_slot_def tx_slot_def)
  have "\<not> sk_detached (slot_of h s)" using u True at by (simp add: usable_def socket_at_def)
  then have "tx_slot base W ((slot_of h s)\<lparr>sk_references := sk_references (slot_of h s) + 1\<rparr>) (entries h (sd_transmissions s))"
    using sl by (simp add: tx_slot_def tx_stream_def rx_live_def)
  then show ?thesis
    using t l True at by (auto simp: socket_retain_def case_prod_unfold sock_retain_def tx_after_def tx_inv_def)
qed

lemma stack_step_ok:
  assumes t: "tx_inv base W h s"
  shows "tx_after base (W @ accepted_for pf h op s) h (stack_step pf op s)"
proof -
  note o = tx_inv_owned [OF t]
  note table = socket_table_op_ok [OF t]
  have eqs: "tx_after base W h s'" if "sd_sockets s' = sd_sockets s" "sd_transmissions s' = sd_transmissions s" for s'
    using that tx_inv_after [OF t] by (simp add: tx_after_def)
  have close: "tx_after base W h (fst (socket_close pf s g))" if "usable s g" for g
  proof (cases "g = h")
    case True
    have "socket_at s h = Some (slot_of h s)"
      using t rx_live_not_free [of "slot_of h s"] by (simp add: tx_inv_def tx_slot_def socket_at_def sock_slot_def)
    then have "\<not> sk_detached (slot_of h s)" using that True by (simp add: usable_def)
    then show ?thesis using socket_close_self [OF t] True by simp
  qed (use tx_after_same [OF t socket_close_other [OF o]] in simp)
  have wr: "tx_after base (W @ accepted_for pf h (Sk_write g input) s) h (fst (socket_write pf s g input))" if "usable s g" for g input
  proof (cases "g = h")
    case True
    obtain s' r n where e: "socket_write pf s h input = (s', r, n)" by (metis prod_cases3)
    from tx_inv_after [OF socket_write_ok(1) [OF t e]] that True e show ?thesis by simp
  qed (use tx_after_same [OF t socket_write_other] in simp)
  show ?thesis
  proof (cases op)
    case Sk_initialize
    then show ?thesis by (auto simp: stack_initialize_def announce_address_def write_text_def intro!: eqs split: prod.split)
  next
    case (Sk_ioctl request r)
    then show ?thesis by (auto simp: stack_ioctl_def intro!: eqs split: prod.split)
  next
    case (Sk_bind g local)
    then show ?thesis
      using table [OF sock_bind_keeps [OF o, of g local]] tx_inv_after [OF t] by (simp add: socket_bind_def case_prod_unfold)
  next
    case (Sk_write g input)
    then show ?thesis using wr tx_inv_after [OF t] by (cases "usable s g") auto
  qed (use table [OF sock_open_keeps [OF o]] table [OF sock_listen_keeps [OF o]] table [OF sock_accept_keeps [OF o]] close
      poll_ok [OF t] tx_inv_after [OF socket_read_ok [OF t]] tx_inv_after [OF socket_shutdown_ok [OF t]] socket_retain_ok [OF t]
      tx_inv_after [OF t] in \<open>auto simp: socket_open_def socket_listen_def socket_accept_def case_prod_unfold\<close>)
qed

lemma tx_fold_ok:
  assumes "\<And>V. sent = Some V \<Longrightarrow> tx_inv base V h s" "fold (tx_step pf h) ops (s, sent) = (s', Some W)"
  shows "tx_inv base W h s'"
  using assms
proof (induction ops arbitrary: s sent)
  case (Cons op ops)
  obtain s1 sent1 where s1: "tx_step pf h op (s, sent) = (s1, sent1)" by fastforce
  have "tx_inv base V1 h s1" if S: "sent1 = Some V1" for V1
  proof -
    obtain V where V: "sent = Some V" "s1 = stack_step pf op s" "V1 = V @ accepted_for pf h op s" "rx_live (slot_of h s1)"
      using s1 S by (auto simp: Let_def split: if_splits)
    from tx_after_inv [OF stack_step_ok [OF Cons.prems(1) [OF V(1)], of pf op]] V show ?thesis by simp
  qed
  from Cons.IH [OF this] Cons.prems(2) s1 show ?case by simp
qed simp

text \<open>
  C39: from a fresh connection on, over every sequence of operations of the stack, with any frames
  arriving and any clock, and as long as the connection lives: the bytes accepted by its writes are
  numbered without gaps up to \<open>send_next\<close> (a sent FIN takes one more number), and the transmission
  queue holds exactly the bytes from \<open>send_unacknowledged\<close> on: every entry is the part of the
  written stream at its sequence number, and every unacknowledged byte is in an entry.
\<close>

theorem stack_send_stream:
  assumes "fresh_connection h s" "tx_run pf h ops s = (s', Some W)"
  shows "let v = slot_of h s'; base = sk_send_next (slot_of h s); fin = (if sk_fin_sent v then 1 else 0)
    in sk_send_next v = base + of_nat (length W + fin) \<and>
       (\<exists>k \<le> length W + fin. sk_send_unacknowledged v = base + of_nat k \<and> length W \<le> k + 16384 \<and>
          tiles (sk_send_unacknowledged v) (drop k W) (entries h (sd_transmissions s')))"
proof -
  have t: "tx_inv (sk_send_next (slot_of h s)) W h s'"
    by (rule tx_fold_ok [OF _ assms(2) [unfolded tx_run_def]]) (use fresh_connection_inv [OF assms(1)] in simp)
  have ts: "tx_stream (sk_send_next (slot_of h s)) W (slot_of h s') (entries h (sd_transmissions s'))"
    using t by (simp add: tx_inv_def tx_slot_def)
  from tx_stream_flight [OF ts entries_finite tx_inv_card [OF t]] obtain k where
    "sk_send_unacknowledged (slot_of h s') = sk_send_next (slot_of h s) + of_nat k"
    "k \<le> length W + (if sk_fin_sent (slot_of h s') then 1 else 0)" "length W \<le> k + 16384"
    "tiles (sk_send_unacknowledged (slot_of h s')) (drop k W) (entries h (sd_transmissions s'))" by metis
  moreover have "sk_send_next (slot_of h s') = sk_send_next (slot_of h s) + of_nat (length W + (if sk_fin_sent (slot_of h s') then 1 else 0))"
    using ts by (simp add: tx_stream_def)
  ultimately show ?thesis unfolding Let_def by blast
qed

text \<open>A device with a list of frames to deliver and a clock, which accepts everything.\<close>

definition demo_platform :: "(u8 list list \<times> u64) platform" where
  "demo_platform = \<lparr>pf_initialize = (\<lambda>d. (d, True)), pf_mac_address = (\<lambda>d. [2, 0, 0, 0, 0, 9]),
     pf_receive = (\<lambda>d. case fst d of [] \<Rightarrow> (d, None) | f # fs \<Rightarrow> ((fs, snd d), Some f)),
     pf_transmit = (\<lambda>d f. (d, True)), pf_time_ticks = (\<lambda>d. ((fst d, snd d + 1000), snd d + 1000))\<rparr>"

definition demo_stack :: "(u8 list list \<times> u64) stack" where
  "demo_stack = (stack_init ([], 0))\<lparr>sd_initialized := True, sd_sockets := put_slot 1 demo_socket socket_table_init\<rparr>"

lemma demo_write:
  "case tx_run demo_platform 1 [Sk_write 1 [104, 105]] demo_stack of
     (s', sent) \<Rightarrow> sent = Some [104, 105] \<and> \<not> sk_fin_sent (slot_of 1 s')"
  by code_simp

theorem stack_send_stream_witness:
  "\<exists>s'. tx_run demo_platform 1 [Sk_write 1 [104, 105]] demo_stack = (s', Some [104, 105]) \<and> sk_send_next (slot_of 1 s') = 1003 \<and>
      (\<exists>k \<le> 2. sk_send_unacknowledged (slot_of 1 s') = 1001 + of_nat k \<and>
         tiles (sk_send_unacknowledged (slot_of 1 s')) (drop k [104, 105]) (entries 1 (sd_transmissions s')))"
proof -
  obtain s' where r: "tx_run demo_platform 1 [Sk_write 1 [104, 105]] demo_stack = (s', Some [104, 105])" "\<not> sk_fin_sent (slot_of 1 s')"
    using demo_write by (auto split: prod.splits)
  have "fresh_connection 1 demo_stack" "sk_send_next (slot_of 1 demo_stack) = 1001" by code_simp+
  with stack_send_stream [of 1 demo_stack, OF _ r(1)] r show ?thesis by (simp add: Let_def numeral_2_eq_2)
qed

section \<open>Windows\<close>

lemma write_loop_count:
  assumes "write_loop pf s g v input available written = (s', v', result, written')" "written \<le> available"
  shows "written \<le> written' \<and> written' \<le> available \<and> sk_send_next v' = sk_send_next v + of_nat (written' - written) \<and>
    sk_send_unacknowledged v' = sk_send_unacknowledged v \<and> sk_peer_window v' = sk_peer_window v \<and>
    sk_congestion_window v' = sk_congestion_window v \<and> sd_sockets s' = sd_sockets s"
  using assms
proof (induction "free_transmissions s" arbitrary: v s written rule: less_induct)
  case less
  show ?case
  proof (cases "written < length input \<and> written < available")
    case False
    then show ?thesis using less.prems by (auto simp: write_loop.simps [of pf s])
  next
    case True
    define count where "count = min (min (length input - written) (available - written)) (min transmit_segment_capacity (unat (sk_peer_mss v)))"
    define d where "d = take count (drop written input)"
    obtain s1 ok where q: "queue_transmission pf s g v (tcp_ack OR tcp_psh) d (sk_send_next v) = (s1, ok)" by fastforce
    note eq = write_loop.simps [of pf s g v input available written, unfolded if_P [OF True] Let_def, folded count_def, folded d_def, unfolded q prod.case]
    show ?thesis
    proof (cases ok)
      case False
      then show ?thesis using less.prems queue_transmission_other(1) [OF q] eq by auto
    next
      case ok: True
      have f: "free_transmissions s1 < free_transmissions s" using queue_transmission_fills [of pf s g v _ d _ s1] q ok by simp
      have c: "written + count \<le> available" using True by (auto simp: count_def)
      define v1 where "v1 = v\<lparr>sk_progress_at := (if sk_send_unacknowledged v = sk_send_next v then sd_now s1 else sk_progress_at v),
          sk_acknowledgement_retries := 0, sk_send_next := sk_send_next v + of_nat count\<rparr>"
      have "write_loop pf s1 g v1 input available (written + count) = (s', v', result, written')"
        using less.prems(1) eq ok by (simp add: v1_def)
      note IH = less.hyps [OF f this c]
      then have "of_nat count + of_nat (written' - (written + count)) = (of_nat (written' - written) :: u32)"
        by (simp add: of_nat_diff)
      with IH queue_transmission_other(1) [OF q] show ?thesis by (simp add: v1_def add.assoc)
    qed
  qed
qed

text \<open>
  C40: a write never puts more data in flight than the window of the peer and the congestion window
  allow: when it accepts bytes, the unacknowledged sequence range afterwards fits both, and it is longer by
  the number of accepted bytes.
\<close>

theorem socket_write_window:
  assumes "socket_write pf s h input = (s', r, n)" "0 < n" "h < length (st_slots (sd_sockets s))"
  shows "let v = slot_of h s; v' = slot_of h s'
    in unat (sk_send_next v' - sk_send_unacknowledged v') = unat (sk_send_next v - sk_send_unacknowledged v) + n \<and>
       unat (sk_send_next v' - sk_send_unacknowledged v') \<le> unat (min (sk_peer_window v') (sk_congestion_window v'))"
proof (cases rule: socket_write_cases [of pf s h input])
  case (sent v s1 v1 r1 n1)
  let ?s = "update_clock pf s"
  have c: "sd_sockets ?s = sd_sockets s" by (simp add: update_clock_def split: prod.split)
  have n: "n1 = n" "s' = put_socket h v1 s1" using sent(5) assms(1) by simp_all
  define flight where "flight = sk_send_next v - sk_send_unacknowledged v"
  define limit where "limit = min (sk_peer_window v) (sk_congestion_window v)"
  have sp: "send_space v = limit - flight" "flight < limit"
    using sent(4) by (auto simp: send_space_def Let_def flight_def limit_def split: if_splits)
  have u: "unat (send_space v) = unat limit - unat flight" using sp by (simp add: unat_sub word_less_nat_alt word_le_nat_alt)
  from write_loop_count [OF sent(2)] have w: "n \<le> unat limit - unat flight" "sk_send_next v1 = sk_send_next v + of_nat n"
    "sk_send_unacknowledged v1 = sk_send_unacknowledged v" "sk_peer_window v1 = sk_peer_window v"
    "sk_congestion_window v1 = sk_congestion_window v" "sd_sockets s1 = sd_sockets s"
    using n u c by simp_all
  have "unat flight < unat limit" using sp(2) by (simp add: word_less_nat_alt)
  moreover have "unat limit < 4294967296" by (rule unat_u32_less)
  ultimately have "n < 4294967296" "unat flight + n < 4294967296" using w(1) by linarith+
  then have "unat (flight + of_nat n) = unat flight + n" by (simp add: unat_word_ariths unat_of_nat)
  moreover have "sk_send_next v1 - sk_send_unacknowledged v1 = flight + of_nat n" by (simp add: w flight_def)
  moreover have "slot_of h s' = v1" using n w assms(3) by (simp add: put_socket_def)
  moreover have "sk_send_next v - sk_send_unacknowledged v = sk_send_next (slot_of h s) - sk_send_unacknowledged (slot_of h s)"
    using sent(1) c by (simp add: restart_idle_def)
  ultimately show ?thesis using w(1,4,5) \<open>unat flight < unat limit\<close> by (simp add: Let_def flight_def limit_def)
qed (use assms in auto)

theorem socket_write_window_witness:
  "\<exists>s' r. socket_write demo_platform demo_stack 1 [104, 105] = (s', r, 2) \<and> unat (sk_send_next (slot_of 1 s') - sk_send_unacknowledged (slot_of 1 s')) = 2"
proof -
  have "snd (snd (socket_write demo_platform demo_stack 1 [104, 105])) = 2" by code_simp
  then obtain s' r where w: "socket_write demo_platform demo_stack 1 [104, 105] = (s', r, 2)" by (metis prod.collapse)
  have "1 < length (st_slots (sd_sockets demo_stack))" "sk_send_next (slot_of 1 demo_stack) = sk_send_unacknowledged (slot_of 1 demo_stack)"
    by code_simp+
  with socket_write_window [OF w] w show ?thesis by (simp add: Let_def)
qed

end
