(* ===== verification/Memory_Arena.thy ===== *)
theory Memory_Arena
  imports Base "HOL-Library.Multiset"
begin

text \<open>
  The memory arena of the kernel's C++ objects, \<^verbatim>\<open>include/mikos/memory/arena.hpp\<close>, and the
  allocation resource on it, \<^verbatim>\<open>include/mikos/memory/allocator.hpp\<close>. The linked list of blocks
  that lies inside the managed storage is the list of its blocks with their addresses; the null pointer
  is address 0. A block header is 12 bytes, aligned to 4, on the 32-bit target. The properties are about all runs: live allocations
  are aligned, disjoint from each other and from every block header, and memory is never lost.
\<close>

unbundle bit_operations_syntax

section \<open>Definitions\<close>

subsection \<open>The arena\<close>

definition sizeof_block :: u32 where
  "sizeof_block = 12"

definition alignof_block :: u32 where
  "alignof_block = 4"

record arena_block =
  ab_address :: u32
  ab_bytes :: u32
  ab_user :: u32

record arena =
  ar_blocks :: "arena_block list"
  ar_used :: u32
  ar_high_water :: u32
  ar_allocations :: u32

definition arena_new :: arena where
  "arena_new = \<lparr>ar_blocks = [], ar_used = 0, ar_high_water = 0, ar_allocations = 0\<rparr>"

definition make_block :: "u32 \<Rightarrow> u32 \<Rightarrow> arena_block" where
  "make_block address bytes = \<lparr>ab_address = address, ab_bytes = bytes, ab_user = 0\<rparr>"

definition arena_initialize :: "arena \<Rightarrow> u32 \<Rightarrow> u32 \<Rightarrow> arena \<times> bool" where
  "arena_initialize s storage bytes =
     (if ar_blocks s \<noteq> [] \<or> storage = 0 \<or> bytes < sizeof_block \<or> storage mod alignof_block \<noteq> 0 \<or>
         bytes > NOT 0 - storage
      then (s, False)
      else (s\<lparr>ar_blocks := [make_block storage bytes]\<rparr>, True))"

text \<open>The part of the loop body that decides whether a block is large enough, with the user address.\<close>

definition block_fit :: "arena_block \<Rightarrow> u32 \<Rightarrow> u32 \<Rightarrow> u32 option" where
  "block_fit b bytes alignment =
     (if ab_user b \<noteq> 0 then None
      else let start = ab_address b + sizeof_block
           in if start > NOT 0 - (alignment - 1) then None
              else let user = align_up start alignment; padding = user - ab_address b
                   in if padding > ab_bytes b \<or> bytes > ab_bytes b - padding then None else Some user)"

text \<open>The rest of the loop body: the block is cut where the remainder is worth a block of its own.\<close>

definition take_block :: "arena_block \<Rightarrow> u32 \<Rightarrow> u32 \<Rightarrow> arena_block \<times> arena_block list" where
  "take_block b bytes user =
     (let consumed = user - ab_address b + bytes; rounded = align_up consumed alignof_block
      in if consumed \<le> NOT 0 - (alignof_block - 1) \<and> rounded \<le> ab_bytes b \<and>
            ab_bytes b - rounded \<ge> sizeof_block + alignof_block
         then (b\<lparr>ab_bytes := rounded, ab_user := user\<rparr>, [make_block (ab_address b + rounded) (ab_bytes b - rounded)])
         else (b\<lparr>ab_user := user\<rparr>, []))"

fun allocate_in :: "arena_block list \<Rightarrow> u32 \<Rightarrow> u32 \<Rightarrow> (arena_block \<times> arena_block list) option" where
  "allocate_in [] bytes alignment = None"
| "allocate_in (b # bs) bytes alignment =
     (case block_fit b bytes alignment of
        Some user \<Rightarrow> (case take_block b bytes user of (b1, rest) \<Rightarrow> Some (b1, b1 # rest @ bs))
      | None \<Rightarrow> map_option (\<lambda>(x, ys). (x, b # ys)) (allocate_in bs bytes alignment))"

definition try_allocate :: "arena \<Rightarrow> u32 \<Rightarrow> u32 \<Rightarrow> arena \<times> u32" where
  "try_allocate s bytes alignment =
     (if bytes = 0 \<or> alignment = 0 \<or> alignment AND (alignment - 1) \<noteq> 0 then (s, 0)
      else case allocate_in (ar_blocks s) bytes alignment of
             None \<Rightarrow> (s, 0)
           | Some (b, bs) \<Rightarrow>
               let used = ar_used s + ab_bytes b
               in (s\<lparr>ar_blocks := bs, ar_used := used,
                     ar_high_water := (if used > ar_high_water s then used else ar_high_water s),
                     ar_allocations := ar_allocations s + 1\<rparr>, ab_user b))"

definition absorb_next :: "arena_block \<Rightarrow> arena_block list \<Rightarrow> arena_block \<times> arena_block list" where
  "absorb_next b rest =
     (case rest of
        [] \<Rightarrow> (b, [])
      | n # ns \<Rightarrow> if ab_user n = 0 then (b\<lparr>ab_bytes := ab_bytes b + ab_bytes n\<rparr>, ns) else (b, rest))"

text \<open>
  The loop of \<open>release\<close> with the block it visited last; the result is the list from that block on, and the
  bytes of the released block.
\<close>

fun release_in :: "arena_block option \<Rightarrow> arena_block list \<Rightarrow> u32 \<Rightarrow> (u32 \<times> arena_block list) option" where
  "release_in previous [] pointer = None"
| "release_in previous (b # bs) pointer =
     (if ab_user b \<noteq> pointer
      then map_option (\<lambda>(n, ys). (n, (case previous of None \<Rightarrow> [] | Some p \<Rightarrow> [p]) @ ys))
             (release_in (Some b) bs pointer)
      else case absorb_next (b\<lparr>ab_user := 0\<rparr>) bs of
             (b1, rest) \<Rightarrow>
               Some (ab_bytes b,
                 case previous of
                   None \<Rightarrow> b1 # rest
                 | Some p \<Rightarrow> if ab_user p = 0 then p\<lparr>ab_bytes := ab_bytes p + ab_bytes b1\<rparr> # rest
                             else p # b1 # rest))"

definition arena_release :: "arena \<Rightarrow> u32 \<Rightarrow> arena \<times> bool" where
  "arena_release s pointer =
     (if pointer = 0 then (s, True)
      else case release_in None (ar_blocks s) pointer of
             None \<Rightarrow> (s, False)
           | Some (n, bs) \<Rightarrow>
               (s\<lparr>ar_blocks := bs, ar_used := ar_used s - n, ar_allocations := ar_allocations s - 1\<rparr>, True))"

subsection \<open>The allocation resource\<close>

text \<open>The two failure calls do not return; they are the errors of the results.\<close>

datatype arena_error = Allocation_failure | Allocation_contract_failure

record resource =
  rs_reserved :: u32
  rs_reserved_bytes :: u32
  rs_reserved_alignment :: u32

definition reservation_open :: "arena \<Rightarrow> resource \<Rightarrow> u32 \<Rightarrow> u32 \<Rightarrow> arena_error + arena \<times> resource \<times> u32" where
  "reservation_open s r bytes alignment =
     (if rs_reserved r \<noteq> 0 then Inl Allocation_contract_failure
      else case try_allocate s bytes alignment of
             (s1, pointer) \<Rightarrow>
               Inr (s1, if pointer \<noteq> 0
                        then r\<lparr>rs_reserved := pointer, rs_reserved_bytes := bytes, rs_reserved_alignment := alignment\<rparr>
                        else r, pointer))"

definition reservation_close :: "arena \<Rightarrow> resource \<Rightarrow> u32 \<Rightarrow> arena_error + arena \<times> resource" where
  "reservation_close s r pointer =
     (if pointer \<noteq> 0 \<and> rs_reserved r = pointer
      then case arena_release s pointer of
             (s1, ok) \<Rightarrow> if ok then Inr (s1, r\<lparr>rs_reserved := 0\<rparr>) else Inl Allocation_contract_failure
      else Inr (s, r))"

definition resource_allocate :: "arena \<Rightarrow> resource \<Rightarrow> u32 \<Rightarrow> u32 \<Rightarrow> arena_error + arena \<times> resource \<times> u32" where
  "resource_allocate s r bytes alignment =
     (if rs_reserved r \<noteq> 0
      then if bytes > rs_reserved_bytes r \<or> alignment > rs_reserved_alignment r then Inl Allocation_contract_failure
           else Inr (s, r\<lparr>rs_reserved := 0\<rparr>, rs_reserved r)
      else case try_allocate s bytes alignment of
             (s1, pointer) \<Rightarrow> if pointer = 0 then Inl Allocation_failure else Inr (s1, r, pointer))"

definition resource_deallocate :: "arena \<Rightarrow> u32 \<Rightarrow> arena_error + arena" where
  "resource_deallocate s pointer =
     (case arena_release s pointer of (s1, ok) \<Rightarrow> if ok then Inr s1 else Inl Allocation_contract_failure)"

text \<open>The container allocator for a type of the given size and alignment.\<close>

definition allocator_max_size :: "u32 \<Rightarrow> u32" where
  "allocator_max_size sizeof_t = NOT 0 div sizeof_t"

definition allocator_allocate ::
  "u32 \<Rightarrow> u32 \<Rightarrow> arena \<Rightarrow> resource \<Rightarrow> u32 \<Rightarrow> arena_error + arena \<times> resource \<times> u32" where
  "allocator_allocate sizeof_t alignof_t s r n =
     (if n > allocator_max_size sizeof_t then Inl Allocation_failure
      else resource_allocate s r (if n = 0 then sizeof_t else n * sizeof_t) alignof_t)"

section \<open>The well-formed arena\<close>

fun tiling :: "nat \<Rightarrow> nat \<Rightarrow> arena_block list \<Rightarrow> bool" where
  "tiling a e [] \<longleftrightarrow> a = e"
| "tiling a e (b # bs) \<longleftrightarrow>
     unat (ab_address b) = a \<and> 4 dvd a \<and> 12 \<le> unat (ab_bytes b) \<and> tiling (a + unat (ab_bytes b)) e bs"

definition block_ok :: "arena_block \<Rightarrow> bool" where
  "block_ok b \<longleftrightarrow> ab_user b = 0 \<or>
     unat (ab_address b) + 12 \<le> unat (ab_user b) \<and> unat (ab_user b) < unat (ab_address b) + unat (ab_bytes b)"

lemma block_ok_free [simp]: "ab_user b = 0 \<Longrightarrow> block_ok b"
  by (simp add: block_ok_def)

fun coalesced :: "arena_block list \<Rightarrow> bool" where
  "coalesced (b # c # bs) \<longleftrightarrow> (ab_user b = 0 \<longrightarrow> ab_user c \<noteq> 0) \<and> coalesced (c # bs)"
| "coalesced _ \<longleftrightarrow> True"

fun payload :: "arena_block list \<Rightarrow> (u32 \<times> nat) list" where
  "payload [] = []"
| "payload (b # bs) =
     (if ab_user b = 0 then payload bs
      else (ab_user b, unat (ab_address b) + unat (ab_bytes b)) # payload bs)"

fun used_sum :: "arena_block list \<Rightarrow> nat" where
  "used_sum [] = 0"
| "used_sum (b # bs) = (if ab_user b = 0 then 0 else unat (ab_bytes b)) + used_sum bs"

lemma tiling_le: "tiling a e bs \<Longrightarrow> a + used_sum bs \<le> e"
proof (induction bs arbitrary: a)
  case (Cons b bs)
  have "a + unat (ab_bytes b) + used_sum bs \<le> e" using Cons by simp
  then show ?case by simp
qed simp

lemma tiling_ends: "tiling a e bs \<Longrightarrow> a \<le> e"
  using tiling_le [of a e bs] by linarith

lemma coalesced_Cons:
  "coalesced (b # bs) \<longleftrightarrow> (bs \<noteq> [] \<and> ab_user b = 0 \<longrightarrow> ab_user (hd bs) \<noteq> 0) \<and> coalesced bs"
  by (cases bs) auto

lemma payload_append [simp]: "payload (xs @ ys) = payload xs @ payload ys"
  by (induction xs) auto

lemma payload_bounds:
  "tiling a e bs \<Longrightarrow> list_all block_ok bs \<Longrightarrow> (p, l) \<in> set (payload bs) \<Longrightarrow> p \<noteq> 0 \<and> a + 12 \<le> unat p \<and> unat p < l \<and> l \<le> e"
proof (induction bs arbitrary: a)
  case (Cons b bs)
  have t: "tiling (a + unat (ab_bytes b)) e bs" "unat (ab_address b) = a" and k: "block_ok b" "list_all block_ok bs"
    using Cons.prems by simp_all
  show ?case
  proof (cases "(p, l) \<in> set (payload bs)")
    case True
    from Cons.IH [OF t(1) k(2) True] show ?thesis by simp
  next
    case False
    then have "ab_user b \<noteq> 0" "p = ab_user b" "l = a + unat (ab_bytes b)" using Cons.prems(3) t(2) by (simp_all split: if_splits)
    then show ?thesis using k(1) t(2) tiling_ends [OF t(1)] by (simp add: block_ok_def)
  qed
qed simp

lemma tiling_address: "tiling a e bs \<Longrightarrow> d \<in> set bs \<Longrightarrow> a \<le> unat (ab_address d)"
  by (induction bs arbitrary: a) fastforce+

lemma payload_headers:
  "tiling a e bs \<Longrightarrow> list_all block_ok bs \<Longrightarrow> (p, l) \<in> set (payload bs) \<Longrightarrow> b \<in> set bs \<Longrightarrow>
     unat (ab_address b) + 12 \<le> unat p \<or> l \<le> unat (ab_address b)"
proof (induction bs arbitrary: a)
  case (Cons c bs)
  have t: "tiling (a + unat (ab_bytes c)) e bs" "unat (ab_address c) = a" and k: "block_ok c" "list_all block_ok bs"
    using Cons.prems by simp_all
  show ?case
  proof (cases "(p, l) \<in> set (payload bs)")
    case True
    then show ?thesis using Cons.IH [OF t(1) k(2) True] payload_bounds [OF t(1) k(2) True] Cons.prems(4) t(2) by auto
  next
    case False
    then have "ab_user c \<noteq> 0" "p = ab_user c" "l = a + unat (ab_bytes c)" using Cons.prems(3) t(2) by (simp_all split: if_splits)
    then show ?thesis using k(1) t(2) tiling_address [OF t(1), of b] Cons.prems(4) by (auto simp: block_ok_def)
  qed
qed simp

lemma payload_sorted:
  "tiling a e bs \<Longrightarrow> list_all block_ok bs \<Longrightarrow> sorted_wrt (\<lambda>(p, l) (q, m). l + 12 \<le> unat q) (payload bs)"
proof (induction bs arbitrary: a)
  case (Cons b bs)
  have t: "tiling (a + unat (ab_bytes b)) e bs" "unat (ab_address b) = a" and k: "list_all block_ok bs"
    using Cons.prems by simp_all
  then show ?case using payload_bounds [OF t(1) k] Cons.IH [OF t(1) k] by auto
qed simp

lemma payload_distinct:
  "tiling a e bs \<Longrightarrow> list_all block_ok bs \<Longrightarrow> distinct (map fst (payload bs))"
proof (induction bs arbitrary: a)
  case (Cons b bs)
  have t: "tiling (a + unat (ab_bytes b)) e bs" "unat (ab_address b) = a" using Cons.prems(1) by auto
  have "ab_user b \<notin> fst ` set (payload bs)" if "ab_user b \<noteq> 0"
    using payload_bounds [OF t(1)] Cons.prems(2) that t(2) by (fastforce simp: block_ok_def)
  then show ?case using Cons.IH [OF t(1)] Cons.prems by auto
qed simp

section \<open>Allocation\<close>

lemma le_not_0_iff: "(w :: u32) \<le> NOT 0 - v \<longleftrightarrow> unat w + unat v < 4294967296"
proof -
  have not0: "NOT 0 = (4294967295 :: u32)" by code_simp
  have "unat v \<le> 4294967295" using unat_u32_less [of v] by linarith
  then have n: "unat (NOT 0 - v) = 4294967295 - unat v"
    unfolding not0 by (simp add: unat_sub_if')
  show ?thesis unfolding word_le_nat_alt n using unat_u32_less [of v] by arith
qed

lemma block_fit_bounds:
  assumes "block_fit b bytes (2 ^ k) = Some user" "k < 32" "unat (ab_address b) + unat (ab_bytes b) < 2 ^ 32" "12 \<le> unat (ab_bytes b)"
  shows "ab_user b = 0" "2 ^ k dvd unat user" "unat (ab_address b) + 12 \<le> unat user"
    "unat user + unat bytes \<le> unat (ab_address b) + unat (ab_bytes b)"
proof -
  let ?start = "ab_address b + sizeof_block"
  have st: "unat ?start = unat (ab_address b) + 12"
    using assms(3,4) by (simp add: sizeof_block_def unat_add_fits)
  have m: "unat (2 ^ k - 1 :: u32) = 2 ^ k - 1" using assms(2) by (simp add: two_exp_minus_one unat_mask)
  from assms(1) have f: "ab_user b = 0" "?start \<le> NOT 0 - (2 ^ k - 1)" "user = align_up ?start (2 ^ k)"
    "user - ab_address b \<le> ab_bytes b" "bytes \<le> ab_bytes b - (user - ab_address b)"
    by (auto simp: block_fit_def Let_def split: if_splits)
  have "unat ?start + (2 ^ k - 1) < 2 ^ LENGTH(32)"
    using f(2) unfolding le_not_0_iff m by simp
  then have u: "unat user = (unat ?start + (2 ^ k - 1)) div 2 ^ k * 2 ^ k"
    using unat_align_up [of k ?start] assms(2) f(3) by simp
  moreover have "0 < (2 :: nat) ^ k" by simp
  ultimately have ge: "unat ?start \<le> unat user"
    using div_mult_mod_eq [of "unat ?start + (2 ^ k - 1)" "2 ^ k"] mod_less_divisor [of "2 ^ k" "unat ?start + (2 ^ k - 1)"]
    by linarith
  show "ab_user b = 0" by (rule f)
  show "2 ^ k dvd unat user" using u by simp
  show g: "unat (ab_address b) + 12 \<le> unat user" using ge st by simp
  show "unat user + unat bytes \<le> unat (ab_address b) + unat (ab_bytes b)"
    using f(4,5) g by (simp add: word_le_nat_alt unat_sub_if' split: if_splits)
qed

lemma take_block_ok:
  assumes "take_block b bytes user = (b1, rest)" "tiling a e (b # bs)" "e < 2 ^ 32" "ab_user b = 0"
    "unat (ab_address b) + 12 \<le> unat user" "0 < unat bytes"
    "unat user + unat bytes \<le> unat (ab_address b) + unat (ab_bytes b)"
  shows "ab_user b1 = user \<and> tiling a e (b1 # rest @ bs) \<and> block_ok b1 \<and>
     unat user + unat bytes \<le> unat (ab_address b1) + unat (ab_bytes b1) \<and>
     (rest = [] \<or> (\<exists>r. rest = [r] \<and> ab_user r = 0))"
proof -
  define consumed where "consumed = user - ab_address b + bytes"
  define rounded where "rounded = align_up consumed alignof_block"
  have t: "unat (ab_address b) = a" "4 dvd a" "tiling (a + unat (ab_bytes b)) e bs" using assms(2) by simp_all
  have be: "a + unat (ab_bytes b) < 4294967296" using tiling_ends [OF t(3)] assms(3) by simp
  have c: "unat consumed = unat user - a + unat bytes"
    using assms(5,7) t(1) be by (simp add: consumed_def unat_add_fits unat_sub_if')
  show ?thesis
  proof (cases "consumed \<le> NOT 0 - (alignof_block - 1) \<and> rounded \<le> ab_bytes b \<and> ab_bytes b - rounded \<ge> sizeof_block + alignof_block")
    case True
    then have "unat consumed + 3 < 2 ^ LENGTH(32)" unfolding le_not_0_iff alignof_block_def by simp
    then have "unat rounded = (unat consumed + 3) div 4 * 4"
      using unat_align_up [of 2 consumed] by (simp add: rounded_def alignof_block_def)
    then have r: "4 dvd unat rounded" "unat consumed \<le> unat rounded" by auto
    have d: "unat rounded \<le> unat (ab_bytes b)" "16 \<le> unat (ab_bytes b) - unat rounded"
      using True by (auto simp: word_le_nat_alt unat_sub_if' sizeof_block_def alignof_block_def)
    have eq: "b1 = b\<lparr>ab_bytes := rounded, ab_user := user\<rparr>"
      "rest = [make_block (ab_address b + rounded) (ab_bytes b - rounded)]"
      using assms(1) True by (simp_all add: take_block_def Let_def consumed_def [symmetric] rounded_def [symmetric])
    have "unat (ab_address b + rounded) = a + unat rounded" "unat (ab_bytes b - rounded) = unat (ab_bytes b) - unat rounded"
      using d be t(1) by (simp_all add: unat_add_fits unat_sub_if')
    moreover have "12 \<le> unat rounded" "unat user < a + unat rounded" "unat user + unat bytes \<le> a + unat rounded"
      using r(2) assms(5,6) unfolding c t(1) by arith+
    ultimately show ?thesis unfolding eq using t d(1,2) r(1) assms(5)
      by (simp add: make_block_def block_ok_def)
  next
    case False
    then have eq: "b1 = b\<lparr>ab_user := user\<rparr>" "rest = []"
      using assms(1) by (auto simp add: take_block_def Let_def consumed_def [symmetric] rounded_def [symmetric])
    then show ?thesis unfolding eq using t assms(2,5,6,7) by (simp add: block_ok_def)
  qed
qed

lemma allocate_in_ok:
  assumes "allocate_in bs bytes (2 ^ k) = Some (b1, ys)" "k < 32" "tiling a e bs" "list_all block_ok bs" "coalesced bs"
    "e < 2 ^ 32" "0 < unat bytes"
  shows "tiling a e ys \<and> list_all block_ok ys \<and> coalesced ys \<and> ab_user b1 \<noteq> 0 \<and> 2 ^ k dvd unat (ab_user b1) \<and>
     (ab_user (hd ys) = 0 \<longrightarrow> ab_user (hd bs) = 0) \<and>
     unat (ab_user b1) + unat bytes \<le> unat (ab_address b1) + unat (ab_bytes b1) \<and>
     used_sum ys = used_sum bs + unat (ab_bytes b1) \<and>
     mset (payload ys) = add_mset (ab_user b1, unat (ab_address b1) + unat (ab_bytes b1)) (mset (payload bs))"
  using assms
proof (induction bs arbitrary: a b1 ys)
  case (Cons b bs)
  have t: "unat (ab_address b) = a" "12 \<le> unat (ab_bytes b)" "tiling (a + unat (ab_bytes b)) e bs"
    and k: "list_all block_ok bs" "coalesced bs" "block_ok b"
    using Cons.prems by (simp_all add: coalesced_Cons)
  show ?case
  proof (cases "block_fit b bytes (2 ^ k)")
    case None
    then obtain zs where z: "allocate_in bs bytes (2 ^ k) = Some (b1, zs)" "ys = b # zs"
      using Cons.prems(1) by auto
    from z(1) have ne: "bs \<noteq> []" "zs \<noteq> []"
      by (cases bs; auto split: option.splits prod.splits)+
    then show ?thesis using Cons.IH [OF z(1) Cons.prems(2) t(3) k(1,2) Cons.prems(6,7)] z(2) t k Cons.prems(3,5)
      by (auto simp: coalesced_Cons)
  next
    case (Some user)
    have "unat (ab_address b) + unat (ab_bytes b) < 2 ^ 32" using t tiling_ends [OF t(3)] Cons.prems(6) by simp
    note f = block_fit_bounds [OF Some Cons.prems(2) this t(2)]
    from Some Cons.prems(1) obtain rest where r: "take_block b bytes user = (b1, rest)" "ys = b1 # rest @ bs"
      by (auto split: prod.splits)
    note g = take_block_ok [OF r(1) Cons.prems(3,6) f(1,3) Cons.prems(7) f(4)]
    have u: "user \<noteq> 0" using f(3) by (auto simp: unat_eq_zero)
    from g show ?thesis unfolding r(2) using f u k Cons.prems(5)
      by (elim conjE disjE exE) (auto simp: coalesced_Cons)
  qed
qed simp

section \<open>Release\<close>

lemma absorb_next_ok:
  assumes "absorb_next b bs = (b1, rest)" "tiling a e (b # bs)" "list_all block_ok (b # bs)" "coalesced bs" "e < 2 ^ 32" "ab_user b = 0"
  shows "tiling a e (b1 # rest) \<and> list_all block_ok (b1 # rest) \<and> coalesced (b1 # rest) \<and> ab_user b1 = 0 \<and>
     used_sum rest = used_sum bs \<and> payload rest = payload bs"
proof (cases bs)
  case (Cons n ns)
  show ?thesis
  proof (cases "ab_user n = 0")
    case True
    then have eq: "b1 = b\<lparr>ab_bytes := ab_bytes b + ab_bytes n\<rparr>" "rest = ns" using assms(1) Cons by (simp_all add: absorb_next_def)
    have t: "tiling (a + unat (ab_bytes b) + unat (ab_bytes n)) e ns" using assms(2) Cons by simp
    have "unat (ab_bytes b + ab_bytes n) = unat (ab_bytes b) + unat (ab_bytes n)"
      using tiling_ends [OF t] assms(5) by (simp add: unat_add_fits)
    then show ?thesis unfolding eq using assms Cons True by (auto simp: coalesced_Cons add.assoc)
  next
    case False
    then have eq: "b1 = b" "rest = bs" using assms(1) Cons by (simp_all add: absorb_next_def)
    show ?thesis unfolding eq using assms False Cons by (simp add: coalesced_Cons)
  qed
next
  case Nil
  then show ?thesis using assms by (simp add: absorb_next_def)
qed

lemma release_in_ok:
  assumes "release_in prev bs p = Some (n, ys)" "p \<noteq> 0" "zs = (case prev of None \<Rightarrow> [] | Some q \<Rightarrow> [q])" 
    "tiling a e (zs @ bs)" "list_all block_ok (zs @ bs)" "coalesced (zs @ bs)" "e < 2 ^ 32"
  shows "tiling a e ys \<and> list_all block_ok ys \<and> coalesced ys \<and> ys \<noteq> [] \<and>
     (zs \<noteq> [] \<longrightarrow> ab_user (hd ys) = ab_user (hd zs)) \<and> used_sum (zs @ bs) = used_sum ys + unat n \<and>
     (\<exists>l. mset (payload (zs @ bs)) = add_mset (p, l) (mset (payload ys)))"
  using assms
proof (induction bs arbitrary: a prev zs n ys)
  case (Cons b bs)
  show ?case
  proof (cases "ab_user b = p")
    case False
    then obtain ws where w: "release_in (Some b) bs p = Some (n, ws)" "ys = zs @ ws"
      using Cons.prems(1,3) by (auto split: option.splits)
    from Cons.IH [OF w(1) Cons.prems(2) refl, of "a + sum_list (map (unat \<circ> ab_bytes) zs)"] Cons.prems(3-7)
    show ?thesis unfolding w(2) by (cases prev) (auto simp: coalesced_Cons)
  next
    case True
    obtain b1 rest where ab: "absorb_next (b\<lparr>ab_user := 0\<rparr>) bs = (b1, rest)" by fastforce
    let ?a = "a + sum_list (map (unat \<circ> ab_bytes) zs)"
    have t: "tiling ?a e (b\<lparr>ab_user := 0\<rparr> # bs)" "list_all block_ok (b\<lparr>ab_user := 0\<rparr> # bs)" "coalesced bs"
      using Cons.prems(3-6) by (auto simp: coalesced_Cons split: option.splits)
    note k = absorb_next_ok [OF ab t Cons.prems(7)]
    show ?thesis
    proof (cases prev)
      case None
      then show ?thesis using k Cons.prems True ab by auto
    next
      case (Some q)
      have "unat (ab_bytes q) + unat (ab_bytes b1) < 4294967296"
        using k Some Cons.prems(3,4,7) tiling_ends [of _ e rest] by fastforce
      then have "unat (ab_bytes q + ab_bytes b1) = unat (ab_bytes q) + unat (ab_bytes b1)"
        by (simp add: unat_add_fits)
      then show ?thesis using k Some Cons.prems True ab by (auto simp: coalesced_Cons add.assoc)
    qed
  qed
qed simp

lemma release_in_None_iff:
  "p \<noteq> 0 \<Longrightarrow> release_in prev bs p = None \<longleftrightarrow> p \<notin> fst ` set (payload bs)"
  by (induction bs arbitrary: prev) (auto split: prod.splits)

section \<open>Runs\<close>

lemma unat_two_exp: "k < LENGTH('a) \<Longrightarrow> unat (2 ^ k :: 'a :: len word) = 2 ^ k"
  using unat_of_nat [of "2 ^ k", where ?'a = 'a] by (simp add: take_bit_nat_def)

datatype arena_op = Arena_allocate u32 u32 | Arena_release u32

type_synonym arena_live = "(u32 \<times> u32 \<times> u32) list"

text \<open>A run keeps the list of allocations that are not released yet: pointer, size and alignment.\<close>

fun arena_step :: "arena_op \<Rightarrow> arena \<times> arena_live \<Rightarrow> arena \<times> arena_live" where
  "arena_step (Arena_allocate n al) (s, live) =
     (case try_allocate s n al of (s1, p) \<Rightarrow> (s1, if p = 0 then live else (p, n, al) # live))"
| "arena_step (Arena_release p) (s, live) =
     (case arena_release s p of (s1, ok) \<Rightarrow> (s1, if ok then filter (\<lambda>x. fst x \<noteq> p) live else live))"

definition arena_ok :: "u32 \<Rightarrow> u32 \<Rightarrow> arena \<Rightarrow> bool" where
  "arena_ok base bytes s \<longleftrightarrow>
     unat base + unat bytes < 2 ^ 32 \<and> tiling (unat base) (unat base + unat bytes) (ar_blocks s) \<and>
     list_all block_ok (ar_blocks s) \<and> coalesced (ar_blocks s) \<and> ar_blocks s \<noteq> [] \<and>
     unat (ar_used s) = used_sum (ar_blocks s) \<and> unat (ar_allocations s) = length (payload (ar_blocks s)) \<and>
     ar_used s \<le> ar_high_water s \<and> ar_high_water s \<le> bytes"

definition live_ok :: "arena_live \<Rightarrow> arena_block list \<Rightarrow> bool" where
  "live_ok live bs \<longleftrightarrow> mset (map fst live) = mset (map fst (payload bs)) \<and>
     (\<forall>(p, n, al) \<in> set live. 0 < unat n \<and> unat al dvd unat p \<and>
        (\<exists>l. (p, l) \<in> set (payload bs) \<and> unat p + unat n \<le> l))"

lemma tiling_count: "tiling a e bs \<Longrightarrow> a + 12 * length bs \<le> e"
  by (induction bs arbitrary: a) fastforce+

lemma payload_length: "length (payload bs) \<le> length bs"
  by (induction bs) auto

lemma arena_initialize_ok:
  assumes "arena_initialize arena_new storage bytes = (s, True)"
  shows "arena_ok storage bytes s \<and> live_ok [] (ar_blocks s) \<and> ar_blocks s = [make_block storage bytes]"
proof -
  from assms have c: "bytes \<le> NOT 0 - storage" "12 \<le> bytes" "storage mod 4 = 0" and s: "s = arena_new\<lparr>ar_blocks := [make_block storage bytes]\<rparr>"
    by (auto simp: arena_initialize_def sizeof_block_def alignof_block_def split: if_splits)
  have "12 \<le> unat bytes" using c(2) by (simp add: word_le_nat_alt)
  moreover have "unat storage mod 4 = 0" using arg_cong [OF c(3), of unat] by (simp add: unat_mod)
  ultimately show ?thesis using c(1) unfolding s le_not_0_iff
    by (simp add: arena_ok_def live_ok_def arena_new_def make_block_def dvd_eq_mod_eq_0 add.commute)
qed

lemma try_allocate_ok:
  assumes "try_allocate s n al = (s1, p)" "arena_ok base bytes s" "live_ok live (ar_blocks s)"
  shows "arena_ok base bytes s1 \<and> live_ok (if p = 0 then live else (p, n, al) # live) (ar_blocks s1)"
proof (cases "n = 0 \<or> al = 0 \<or> al AND (al - 1) \<noteq> 0 \<or> allocate_in (ar_blocks s) n al = None")
  case True
  then have "s1 = s" "p = 0" using assms(1) by (auto simp: try_allocate_def split: if_splits)
  then show ?thesis using assms(2,3) by simp
next
  case False
  then obtain b bs where a: "allocate_in (ar_blocks s) n al = Some (b, bs)" by auto
  define used where "used = ar_used s + ab_bytes b"
  have s1: "s1 = s\<lparr>ar_blocks := bs, ar_used := used, ar_high_water := (if used > ar_high_water s then used else ar_high_water s),
      ar_allocations := ar_allocations s + 1\<rparr>" "p = ab_user b"
    using assms(1) False a by (auto simp: try_allocate_def Let_def used_def)
  obtain k where k: "k < 32" "al = 2 ^ k" using False power_of_two_test [of al] by auto
  have i: "unat base + unat bytes < 2 ^ 32" "tiling (unat base) (unat base + unat bytes) (ar_blocks s)"
    "list_all block_ok (ar_blocks s)" "coalesced (ar_blocks s)" "unat (ar_used s) = used_sum (ar_blocks s)"
    "unat (ar_allocations s) = length (payload (ar_blocks s))" "ar_used s \<le> ar_high_water s" "ar_high_water s \<le> bytes"
    using assms(2) by (simp_all add: arena_ok_def)
  have n: "0 < unat n" using False by (simp add: unat_gt_0)
  note r = allocate_in_ok [OF a [unfolded k(2)] k(1) i(2,3,4,1) n]
  have u: "unat used = used_sum bs" "used \<le> bytes"
    using r tiling_le [of _ _ bs] i(1,5) unfolding used_def word_le_nat_alt by (fastforce simp: unat_add_fits)+
  have m: "mset (payload bs) = add_mset (ab_user b, unat (ab_address b) + unat (ab_bytes b)) (mset (payload (ar_blocks s)))"
    using r by blast
  have len: "length (payload bs) = Suc (length (payload (ar_blocks s)))" using arg_cong [OF m, of size] by simp
  have "length (payload bs) < 4294967296"
    using r tiling_count [of _ _ bs] payload_length [of bs] i(1) by fastforce
  then have al: "unat (ar_allocations s + 1) = length (payload bs)" using i(6) len by (simp add: unat_add_fits)
  have st: "set (payload bs) = insert (ab_user b, unat (ab_address b) + unat (ab_bytes b)) (set (payload (ar_blocks s)))"
    using arg_cong [OF m, of set_mset] by simp
  have ne: "bs \<noteq> []" using len by (cases bs) auto
  have "arena_ok base bytes s1" using r u al i ne unfolding s1 by (simp add: arena_ok_def not_less)
  moreover have "live_ok ((p, n, al) # live) bs"
    using assms(3) r n k m unfolding live_ok_def s1 st
    by (auto simp: unat_two_exp)
  moreover have "p \<noteq> 0" using r s1(2) by simp
  ultimately show ?thesis by (simp add: s1(1))
qed

lemma arena_release_ok:
  assumes "arena_release s p = (s1, ok)" "arena_ok base bytes s" "live_ok live (ar_blocks s)"
  shows "arena_ok base bytes s1 \<and> live_ok (if ok then filter (\<lambda>x. fst x \<noteq> p) live else live) (ar_blocks s1) \<and>
    (ok \<longleftrightarrow> p = 0 \<or> p \<in> fst ` set live)"
proof -
  have i: "unat base + unat bytes < 2 ^ 32" "tiling (unat base) (unat base + unat bytes) (ar_blocks s)"
    "list_all block_ok (ar_blocks s)" "coalesced (ar_blocks s)" "unat (ar_used s) = used_sum (ar_blocks s)"
    "unat (ar_allocations s) = length (payload (ar_blocks s))" "ar_used s \<le> ar_high_water s" "ar_high_water s \<le> bytes"
    using assms(2) by (simp_all add: arena_ok_def)
  have lm: "mset (map fst live) = mset (map fst (payload (ar_blocks s)))" using assms(3) by (simp add: live_ok_def)
  then have ls: "fst ` set live = fst ` set (payload (ar_blocks s))" using mset_eq_setD [OF lm] by simp
  have z: "0 \<notin> fst ` set (payload (ar_blocks s))" using payload_bounds [OF i(2,3)] by auto
  consider "p = 0" | "p \<noteq> 0" "release_in None (ar_blocks s) p = None"
    | m bs where "p \<noteq> 0" "release_in None (ar_blocks s) p = Some (m, bs)" by fastforce
  then show ?thesis
  proof cases
    case 1
    have "filter (\<lambda>x. fst x \<noteq> p) live = live" using z 1 unfolding ls [symmetric] by (auto intro: filter_True)
    then show ?thesis using 1 assms by (auto simp: arena_release_def)
  next
    case 2
    then have "p \<notin> fst ` set live" using release_in_None_iff [of p None] ls by simp
    then show ?thesis using 2 assms by (auto simp: arena_release_def)
  next
    case 3
    have eq: "s1 = s\<lparr>ar_blocks := bs, ar_used := ar_used s - m, ar_allocations := ar_allocations s - 1\<rparr>" "ok"
      using assms(1) 3 by (auto simp: arena_release_def)
    have pin: "p \<in> fst ` set live" using release_in_None_iff [OF 3(1), of None "ar_blocks s"] 3(2) ls by simp
    note r = release_in_ok [OF 3(2,1) refl, unfolded option.case append_Nil, OF i(2,3,4,1)]
    then obtain l where l: "mset (payload (ar_blocks s)) = add_mset (p, l) (mset (payload bs))" by blast
    have st: "set (payload (ar_blocks s)) = insert (p, l) (set (payload bs))" using arg_cong [OF l, of set_mset] by simp
    have len: "length (payload (ar_blocks s)) = Suc (length (payload bs))" using arg_cong [OF l, of size] by simp
    have al: "unat (ar_allocations s - 1) = length (payload bs)" using i(6) len by (simp add: unat_sub_if')
    have us: "unat (ar_used s - m) = used_sum bs" "ar_used s - m \<le> ar_used s" using r i(5) by (simp_all add: unat_sub_if' word_le_nat_alt)
    have ok: "arena_ok base bytes s1" unfolding eq using r us al i by (auto simp: arena_ok_def)
    have d: "p \<notin> fst ` set (payload bs)"
      using payload_distinct [OF i(2,3)] mset_eq_imp_distinct_iff [of "map fst (payload (ar_blocks s))" "p # map fst (payload bs)"] l by simp
    have "mset (map fst live) = add_mset p (mset (map fst (payload bs)))" using lm arg_cong [OF l, of "image_mset fst"] by simp
    then have "mset (filter (\<lambda>x. x \<noteq> p) (map fst live)) = mset (map fst (payload bs))"
      using d by (auto simp: mset_filter filter_mset_eq_conv)
    then have "mset (map fst (filter (\<lambda>x. fst x \<noteq> p) live)) = mset (map fst (payload bs))"
      by (simp add: filter_map comp_def)
    then have "live_ok (filter (\<lambda>x. fst x \<noteq> p) live) bs"
      using assms(3) unfolding live_ok_def st by fastforce
    then show ?thesis using ok eq pin by simp
  qed
qed

definition arena_inv :: "u32 \<Rightarrow> u32 \<Rightarrow> arena \<times> arena_live \<Rightarrow> bool" where
  "arena_inv base bytes st \<longleftrightarrow> arena_ok base bytes (fst st) \<and> live_ok (snd st) (ar_blocks (fst st))"

interpretation arena_steps: step_system arena_step "arena_inv base bytes"
proof
  show "arena_inv base bytes (arena_step op st)" if i: "arena_inv base bytes st" for op st
  proof -
    obtain s live where st: "st = (s, live)" by fastforce
    have k: "arena_ok base bytes s" "live_ok live (ar_blocks s)" using i st by (simp_all add: arena_inv_def)
    show ?thesis
    proof (cases op)
      case (Arena_allocate n al)
      obtain s1 p where r: "try_allocate s n al = (s1, p)" by fastforce
      show ?thesis using try_allocate_ok [OF r k] Arena_allocate st r by (simp add: arena_inv_def)
    next
      case (Arena_release p)
      obtain s1 ok where r: "arena_release s p = (s1, ok)" by fastforce
      show ?thesis using arena_release_ok [OF r k] Arena_release st r by (cases ok) (simp_all add: arena_inv_def)
    qed
  qed
qed

lemma live_entry:
  "live_ok live bs \<Longrightarrow> (p, n, al) \<in> set live \<Longrightarrow> unat al dvd unat p \<and> (\<exists>l. (p, l) \<in> set (payload bs) \<and> unat p + unat n \<le> l)"
  by (fastforce simp: live_ok_def)

lemma live_nonzero:
  assumes "arena_ok base bytes s" "live_ok live (ar_blocks s)" "(p, n, al) \<in> set live"
  shows "p \<noteq> 0"
proof -
  obtain l where "(p, l) \<in> set (payload (ar_blocks s))" using live_entry [OF assms(2,3)] by blast
  then show ?thesis using assms(1) payload_bounds unfolding arena_ok_def by blast
qed

lemma arena_ok_used: "arena_ok base bytes s \<Longrightarrow> unat (ar_used s) = used_sum (ar_blocks s)"
  by (simp add: arena_ok_def)

lemma live_apart:
  assumes "arena_ok base bytes s" "live_ok live (ar_blocks s)" "(p, n, al) \<in> set live" "(q, m, al') \<in> set live" "p \<noteq> q"
  shows "unat p + unat n \<le> unat q \<or> unat q + unat m \<le> unat p"
proof -
  obtain l l' where l: "(p, l) \<in> set (payload (ar_blocks s))" "unat p + unat n \<le> l"
    "(q, l') \<in> set (payload (ar_blocks s))" "unat q + unat m \<le> l'"
    using live_entry [OF assms(2,3)] live_entry [OF assms(2,4)] by blast
  have "sorted_wrt (\<lambda>(p, l) (q, m). l + 12 \<le> unat q) (payload (ar_blocks s))"
    using assms(1) payload_sorted unfolding arena_ok_def by blast
  moreover have "sorted_wrt R xs \<Longrightarrow> x \<in> set xs \<Longrightarrow> y \<in> set xs \<Longrightarrow> x = y \<or> R x y \<or> R y x" for R and xs :: "(u32 \<times> nat) list" and x y
    by (induction xs) auto
  ultimately have "l + 12 \<le> unat q \<or> l' + 12 \<le> unat p" using l(1,3) assms(5) by fastforce
  then show ?thesis using l(2,4) by linarith
qed

lemma live_bounds:
  assumes "arena_ok base bytes s" "live_ok live (ar_blocks s)" "(p, n, al) \<in> set live"
  shows "unat al dvd unat p" "unat base + 12 \<le> unat p" "unat p + unat n \<le> unat base + unat bytes"
    "b \<in> set (ar_blocks s) \<Longrightarrow> unat (ab_address b) + 12 \<le> unat p \<or> unat p + unat n \<le> unat (ab_address b)"
proof -
  obtain l where l: "(p, l) \<in> set (payload (ar_blocks s))" "unat p + unat n \<le> l" "unat al dvd unat p"
    using live_entry [OF assms(2,3)] by blast
  have t: "tiling (unat base) (unat base + unat bytes) (ar_blocks s)" "list_all block_ok (ar_blocks s)"
    using assms(1) by (simp_all add: arena_ok_def)
  show "unat al dvd unat p" by (rule l)
  show "unat base + 12 \<le> unat p" "unat p + unat n \<le> unat base + unat bytes"
    using payload_bounds [OF t l(1)] l(2) by simp_all
  show "unat (ab_address b) + 12 \<le> unat p \<or> unat p + unat n \<le> unat (ab_address b)" if "b \<in> set (ar_blocks s)"
    using payload_headers [OF t l(1) that] l(2) by linarith
qed

lemma live_distinct: "arena_ok base bytes s \<Longrightarrow> live_ok live (ar_blocks s) \<Longrightarrow> distinct (map fst live)"
  using mset_eq_imp_distinct_iff [of "map fst live" "map fst (payload (ar_blocks s))"]
    payload_distinct [of "unat base" "unat base + unat bytes" "ar_blocks s"]
  by (simp add: live_ok_def arena_ok_def del: mset_map)

lemma live_empty:
  assumes "arena_ok base bytes s" "live_ok [] (ar_blocks s)"
  shows "ar_blocks s = [make_block base bytes]"
proof -
  have p: "payload (ar_blocks s) = []" using assms(2) by (simp add: live_ok_def)
  obtain b bs where b: "ar_blocks s = b # bs" using assms(1) by (cases "ar_blocks s") (auto simp: arena_ok_def)
  have u: "ab_user b = 0" using p b by (auto split: if_splits)
  have "bs = []"
  proof (rule ccontr)
    assume "bs \<noteq> []"
    then obtain c cs where "bs = c # cs" by (cases bs) auto
    then show False using assms(1) p b u by (auto simp: arena_ok_def split: if_splits)
  qed
  then have "unat (ab_address b) = unat base" "unat (ab_bytes b) = unat bytes" using assms(1) b by (simp_all add: arena_ok_def)
  then have "ab_address b = base" "ab_bytes b = bytes" by (simp_all add: word_unat_eq_iff)
  then show ?thesis using b u \<open>bs = []\<close> by (cases b) (simp add: make_block_def)
qed

text \<open>
  From the initialization of an arena on and over every sequence of allocations and releases, with
  any sizes, alignments and pointers: every live allocation is aligned as requested, lies inside the storage, and overlaps no
  other live allocation and no block header. The counter of allocations is exact, the used bytes cover them and never exceed the high water mark. Once everything is released the storage is one free block again, so no
  memory is lost to fragmentation or bookkeeping.
\<close>

theorem arena_run_safe:
  assumes "arena_initialize arena_new base bytes = (s0, True)" "fold arena_step ops (s0, []) = (s, live)"
  shows "(\<forall>(p, n, al) \<in> set live. unat al dvd unat p \<and> unat base + 12 \<le> unat p \<and> unat p + unat n \<le> unat base + unat bytes \<and>
       (\<forall>(q, m, _) \<in> set live. p = q \<or> unat p + unat n \<le> unat q \<or> unat q + unat m \<le> unat p) \<and>
       (\<forall>b \<in> set (ar_blocks s). unat (ab_address b) + 12 \<le> unat p \<or> unat p + unat n \<le> unat (ab_address b))) \<and>
     distinct (map fst live) \<and> unat (ar_allocations s) = length live \<and> ar_used s \<le> ar_high_water s \<and> ar_high_water s \<le> bytes \<and>
     (live = [] \<longrightarrow> ar_blocks s = [make_block base bytes] \<and> ar_used s = 0)"
proof -
  have "arena_inv base bytes (s, live)"
    unfolding assms(2) [symmetric] by (rule arena_steps.run_inv) (use arena_initialize_ok [OF assms(1)] in \<open>unfold arena_inv_def fst_conv snd_conv, blast\<close>)
  then have i: "arena_ok base bytes s" "live_ok live (ar_blocks s)" by (simp_all add: arena_inv_def)
  have "length live = length (payload (ar_blocks s))"
    using mset_eq_length [of "map fst live" "map fst (payload (ar_blocks s))"] i(2) by (simp add: live_ok_def del: mset_map)
  then have "unat (ar_allocations s) = length live" "ar_used s \<le> ar_high_water s" "ar_high_water s \<le> bytes" 
    using i(1) by (simp_all add: arena_ok_def)
  moreover have "ar_blocks s = [make_block base bytes] \<and> ar_used s = 0" if "live = []"
    using live_empty [OF i(1)] i(2) that arena_ok_used [OF i(1)] by (simp add: make_block_def unat_eq_zero)
  moreover have "unat al dvd unat p \<and> unat base + 12 \<le> unat p \<and> unat p + unat n \<le> unat base + unat bytes \<and>
       (\<forall>(q, m, _) \<in> set live. p = q \<or> unat p + unat n \<le> unat q \<or> unat q + unat m \<le> unat p) \<and>
       (\<forall>b \<in> set (ar_blocks s). unat (ab_address b) + 12 \<le> unat p \<or> unat p + unat n \<le> unat (ab_address b))"
    if e: "(p, n, al) \<in> set live" for p n al
    using live_bounds [OF i e] live_apart [OF i e] by (intro conjI ballI) auto
  ultimately show ?thesis using live_distinct [OF i] by (simp add: Ball_def split_paired_All)
qed

definition demo_ops :: "arena_op list" where
  "demo_ops = [Arena_allocate 100 16, Arena_allocate 33 64, Arena_allocate 8 4, Arena_release 4224, Arena_allocate 5000 4]"

theorem arena_run_safe_witness:
  "case fold arena_step demo_ops (fst (arena_initialize arena_new 4096 4096), []) of
     (s, live) \<Rightarrow> live = [(4272, 8, 4), (4112, 100, 16)] \<and> unat (ar_allocations s) = 2 \<and> distinct (map fst live)"
proof -
  let ?r = "fold arena_step demo_ops (fst (arena_initialize arena_new 4096 4096), [])"
  have i: "arena_initialize arena_new 4096 4096 = (fst (arena_initialize arena_new 4096 4096), True)" by code_simp
  have l: "snd ?r = [(4272, 8, 4), (4112, 100, 16)]" by code_simp
  then have "?r = (fst ?r, [(4272, 8, 4), (4112, 100, 16)])" by (metis prod.collapse)
  with arena_run_safe [OF i this] l show ?thesis by (simp add: case_prod_beta numeral_2_eq_2)
qed

section \<open>Reservations\<close>

text \<open>
  A reservation that was made is what the next allocation returns: an allocation that is not larger and not
  more aligned does not fail, changes nothing in the arena, and closing the reservation afterwards keeps the memory.
\<close>

lemma reservation_allocate:
  assumes "reservation_open s r bytes al = Inr (s1, r1, p)" "p \<noteq> 0" "n \<le> bytes" "a \<le> al"
  shows "\<exists>r2. resource_allocate s1 r1 n a = Inr (s1, r2, p) \<and> reservation_close s1 r2 p = Inr (s1, r2)"
  using assms by (auto simp: reservation_open_def resource_allocate_def reservation_close_def not_less split: if_splits prod.splits)

text \<open>A reservation that nothing took is given back when it is closed.\<close>

lemma reservation_unused:
  assumes "reservation_open s r bytes al = Inr (s1, r1, p)" "arena_ok base total_bytes s" "live_ok live (ar_blocks s)"
  shows "\<exists>s2 r2. reservation_close s1 r1 p = Inr (s2, r2) \<and> rs_reserved r2 = 0 \<and>
     arena_ok base total_bytes s2 \<and> live_ok (filter (\<lambda>x. fst x \<noteq> p) live) (ar_blocks s2)"
proof -
  have r: "rs_reserved r = 0" "try_allocate s bytes al = (s1, p)"
    "r1 = (if p \<noteq> 0 then r\<lparr>rs_reserved := p, rs_reserved_bytes := bytes, rs_reserved_alignment := al\<rparr> else r)"
    using assms(1) by (auto simp: reservation_open_def split: if_splits prod.splits)
  note k = try_allocate_ok [OF r(2) assms(2,3)]
  obtain s2 ok where c: "arena_release s1 p = (s2, ok)" by fastforce
  note d = arena_release_ok [OF c k [THEN conjunct1] k [THEN conjunct2]]
  have z: "filter (\<lambda>x. fst x \<noteq> 0) live = live"
    using live_nonzero [OF assms(2,3)] by (auto intro: filter_True)
  show ?thesis
  proof (cases "p = 0")
    case True
    then show ?thesis using k r z by (simp add: reservation_close_def)
  next
    case False
    then show ?thesis using d c r by (auto simp: reservation_close_def)
  qed
qed

text \<open>The product of the container allocator never wraps: every accepted count gets its full size.\<close>

lemma allocator_size:
  assumes "n \<le> allocator_max_size sizeof_t" "sizeof_t \<noteq> 0"
  shows "unat (n * sizeof_t) = unat n * unat sizeof_t"
proof -
  have "unat n \<le> unat (NOT 0 :: u32) div unat sizeof_t"
    using assms(1) by (simp add: allocator_max_size_def word_le_nat_alt unat_div_distrib del: bit.compl_zero)
  then have "unat n * unat sizeof_t \<le> unat (NOT 0 :: u32)"
    by (rule order.trans [OF mult_le_mono1 div_times_less_eq_dividend])
  then have "unat n * unat sizeof_t < 4294967296" using unat_u32_less [of "NOT 0"] by (rule le_less_trans)
  then show ?thesis by (simp add: unat_word_ariths)
qed

end
