(* ===== verification/Trap_Scheduler.thy ===== *)
theory Trap_Scheduler
  imports Prelude
begin

text \<open>
  The timer scheduler, \<^verbatim>\<open>include/mikos/scheduler.hpp\<close>: the trap frame of the interrupted program, and the
  timer handler that starts the next program in it. Shown: a program is started only from user mode, with no
  register of the old program left in the frame, and exactly once per request.
\<close>

unbundle bit_operations_syntax

section \<open>Definitions\<close>

record trap_frame =
  tf_x :: "u32 list"
  tf_mepc :: u32
  tf_mstatus :: u32
  tf_mcause :: u32
  tf_mtval :: u32

record scheduler =
  sc_next_entry :: u32
  sc_next_stack :: u32
  sc_timer_traps :: u32
  sc_user_preemptions :: u32
  sc_contract_violations :: u32
  sc_start_pending :: bool

definition scheduler_new :: scheduler where
  "scheduler_new = \<lparr>sc_next_entry = 0, sc_next_stack = 0, sc_timer_traps = 0, sc_user_preemptions = 0,
     sc_contract_violations = 0, sc_start_pending = False\<rparr>"

definition start_next_on_timer :: "scheduler \<Rightarrow> u32 \<Rightarrow> u32 \<Rightarrow> scheduler" where
  "start_next_on_timer s entry stack =
     s\<lparr>sc_next_entry := entry, sc_next_stack := stack, sc_start_pending := True\<rparr>"

definition on_timer :: "scheduler \<Rightarrow> trap_frame \<Rightarrow> bool \<Rightarrow> scheduler \<times> trap_frame" where
  "on_timer s frame kernel_mie_clear =
     (let s1 = s\<lparr>sc_timer_traps := sc_timer_traps s + 1\<rparr>; mstatus_mpp = push_bit 11 3
      in if \<not> kernel_mie_clear \<or> tf_mstatus frame AND mstatus_mpp \<noteq> 0
         then (s1\<lparr>sc_contract_violations := sc_contract_violations s1 + 1\<rparr>, frame)
         else let s2 = s1\<lparr>sc_user_preemptions := sc_user_preemptions s1 + 1\<rparr>
              in if \<not> sc_start_pending s2 then (s2, frame)
                 else (s2\<lparr>sc_start_pending := False\<rparr>,
                       frame\<lparr>tf_x := (map (\<lambda>_. 0) (tf_x frame))[2 := sc_next_stack s2],
                             tf_mepc := sc_next_entry s2\<rparr>))"

section \<open>Properties\<close>

definition from_user :: "bool \<Rightarrow> trap_frame \<Rightarrow> bool" where
  "from_user kernel_mie_clear frame \<longleftrightarrow> kernel_mie_clear \<and> \<not> bit (tf_mstatus frame) 11 \<and> \<not> bit (tf_mstatus frame) 12"

lemma mpp_mask: "(w :: u32) AND 6144 = 0 \<longleftrightarrow> \<not> bit w 11 \<and> \<not> bit w 12"
proof -
  have "(6144 :: u32) = push_bit 11 (mask 2)" by code_simp
  then have b: "bit (6144 :: u32) n \<longleftrightarrow> n = 11 \<or> n = 12" for n
    by (simp only: bit_push_bit_iff bit_mask_iff) auto
  show ?thesis
  proof
    assume "w AND 6144 = 0"
    then have "\<not> bit (w AND 6144) n" for n by simp
    then show "\<not> bit w 11 \<and> \<not> bit w 12" unfolding bit_and_iff b by blast
  next
    assume n: "\<not> bit w 11 \<and> \<not> bit w 12"
    show "w AND 6144 = 0" by (rule bit_word_eqI) (use n in \<open>unfold bit_and_iff b, auto\<close>)
  qed
qed

text \<open>
  A pending program is started by the first timer trap from user mode: the frame resumes at its entry in the
  same privilege mode, with its stack pointer, and no other register keeps a value of the preempted program.
  Without a pending program, or from kernel mode, the frame is left alone.
\<close>

lemma on_timer_start:
  assumes "on_timer s frame clear = (s', frame')" "length (tf_x frame) = 32"
  shows "if from_user clear frame \<and> sc_start_pending s
     then tf_mepc frame' = sc_next_entry s \<and> (\<forall>i < 32. tf_x frame' ! i = (if i = 2 then sc_next_stack s else 0)) \<and>
          tf_mstatus frame' = tf_mstatus frame \<and> \<not> sc_start_pending s'
     else frame' = frame \<and> sc_start_pending s' = sc_start_pending s"
  using assms by (auto simp: on_timer_def Let_def from_user_def mpp_mask nth_list_update split: if_splits)

text \<open>Every trap is counted once, as a preemption of user code or as a violation.\<close>

lemma on_timer_counts:
  assumes "on_timer s frame clear = (s', frame')"
  shows "sc_timer_traps s' = sc_timer_traps s + 1"
    "sc_user_preemptions s' + sc_contract_violations s' = sc_user_preemptions s + sc_contract_violations s + 1"
    "sc_contract_violations s' = sc_contract_violations s \<longleftrightarrow> from_user clear frame"
  using assms by (auto simp: on_timer_def Let_def from_user_def mpp_mask split: if_splits)

end
