(* ===== verification/Scatter_Write.thy ===== *)
theory Scatter_Write
  imports Prelude
begin

text \<open>
  The gathering write of \<^verbatim>\<open>include/mikos/io/scatter_write.hpp\<close> over the vectors of
  \<^verbatim>\<open>include/mikos/abi/iovec.hpp\<close>. The writer is the callback of the caller, a parameter of the loop; signed results
  are 32-bit words read as two's complement.
\<close>

section \<open>Definitions\<close>

record iovec32 =
  iv_base :: u32
  iv_size :: u32

fun requested_ok :: "iovec32 list \<Rightarrow> u32 \<Rightarrow> bool" where
  "requested_ok [] requested \<longleftrightarrow> True"
| "requested_ok (v # vs) requested \<longleftrightarrow>
     \<not> iv_size v > 0x7fffffff - requested \<and> requested_ok vs (requested + iv_size v)"

fun scatter_loop ::
  "('s \<Rightarrow> u32 \<Rightarrow> u32 \<Rightarrow> 's \<times> u32) \<Rightarrow> u32 \<Rightarrow> iovec32 list \<Rightarrow> u32 \<Rightarrow> 's \<Rightarrow> 's \<times> u32" where
  "scatter_loop wr invalid_argument [] done_bytes s = (s, done_bytes)"
| "scatter_loop wr invalid_argument (v # vs) done_bytes s =
     (if iv_size v = 0 then scatter_loop wr invalid_argument vs done_bytes s
      else case wr s (iv_base v) (iv_size v) of
             (s1, result) \<Rightarrow>
               if sint result < 0 then (s1, if done_bytes \<noteq> 0 then done_bytes else result)
               else if result > iv_size v then (s1, invalid_argument)
               else if result < iv_size v then (s1, done_bytes + result)
               else scatter_loop wr invalid_argument vs (done_bytes + result) s1)"

definition scatter_write ::
  "iovec32 list \<Rightarrow> ('s \<Rightarrow> u32 \<Rightarrow> u32 \<Rightarrow> 's \<times> u32) \<Rightarrow> u32 \<Rightarrow> 's \<Rightarrow> 's \<times> u32" where
  "scatter_write vectors wr invalid_argument s =
     (if \<not> requested_ok vectors 0 then (s, invalid_argument) else scatter_loop wr invalid_argument vectors 0 s)"

section \<open>Properties\<close>

text \<open>A writer that also records its calls with their results.\<close>

definition logged ::
  "('s \<Rightarrow> u32 \<Rightarrow> u32 \<Rightarrow> 's \<times> u32) \<Rightarrow> 's \<times> (iovec32 \<times> u32) list \<Rightarrow> u32 \<Rightarrow> u32 \<Rightarrow> ('s \<times> (iovec32 \<times> u32) list) \<times> u32" where
  "logged wr st address n =
     (case wr (fst st) address n of
        (s1, r) \<Rightarrow> ((s1, snd st @ [(\<lparr>iv_base = address, iv_size = n\<rparr>, r)]), r))"

lemma requested_ok_bound:
  "requested_ok vs n \<Longrightarrow> unat n < 2147483648 \<Longrightarrow> unat n + (\<Sum>v\<leftarrow>vs. unat (iv_size v)) < 2147483648"
proof (induction vs arbitrary: n)
  case (Cons v vs)
  have "unat (0x7fffffff - n) = 2147483647 - unat n" using Cons.prems(2) by (simp add: unat_sub_if')
  then have l: "unat (iv_size v) + unat n < 2147483648"
    using Cons.prems by (auto simp: word_less_nat_alt not_less)
  then have "unat (n + iv_size v) = unat n + unat (iv_size v)" by (simp add: unat_add_fits)
  then show ?case using Cons.IH [of "n + iv_size v"] Cons.prems l by simp
qed simp

text \<open>The calls of a run: all but the last wrote their vector completely, and the sizes add up to the result.\<close>

definition complete_calls :: "(iovec32 \<times> u32) list \<Rightarrow> bool" where
  "complete_calls calls \<longleftrightarrow> (\<forall>c \<in> set calls. snd c = iv_size (fst c))"

definition call_bytes :: "(iovec32 \<times> u32) list \<Rightarrow> nat" where
  "call_bytes calls = (\<Sum>c\<leftarrow>calls. unat (snd c))"

lemma complete_calls_simps [simp]:
  "complete_calls []" "complete_calls (c # cs) \<longleftrightarrow> snd c = iv_size (fst c) \<and> complete_calls cs"
  by (auto simp: complete_calls_def)

lemma call_bytes_simps [simp]: "call_bytes [] = 0" "call_bytes (c # cs) = unat (snd c) + call_bytes cs"
  by (simp_all add: call_bytes_def)

text \<open>
  What a run with \<open>n\<close> bytes behind it must look like: its calls are on the nonempty vectors in order. Either every
  vector was written completely, or the last call failed, claimed too much or was short.
\<close>

definition scatter_outcome :: "u32 \<Rightarrow> iovec32 list \<Rightarrow> nat \<Rightarrow> (iovec32 \<times> u32) list \<Rightarrow> u32 \<Rightarrow> bool" where
  "scatter_outcome invalid vectors n calls r \<longleftrightarrow>
     take (length calls) (filter (\<lambda>v. iv_size v \<noteq> 0) vectors) = map fst calls \<and>
     (complete_calls calls \<and> length calls = length (filter (\<lambda>v. iv_size v \<noteq> 0) vectors) \<and> unat r = n + call_bytes calls \<or>
      (\<exists>whole v x. calls = whole @ [(v, x)] \<and> complete_calls whole \<and>
         (if sint x < 0 then (if n + call_bytes whole = 0 then r = x else unat r = n + call_bytes whole)
          else if x > iv_size v then r = invalid
          else x < iv_size v \<and> unat r = n + call_bytes whole + unat x)))"

lemma scatter_outcome_skip: "iv_size v = 0 \<Longrightarrow> scatter_outcome invalid (v # vs) n calls r \<longleftrightarrow> scatter_outcome invalid vs n calls r"
  by (simp add: scatter_outcome_def)

lemma scatter_outcome_Cons:
  assumes "scatter_outcome invalid vs (n + unat (iv_size v)) calls r" "iv_size v \<noteq> 0"
  shows "scatter_outcome invalid (v # vs) n ((v, iv_size v) # calls) r"
proof -
  have t: "take (length calls) (filter (\<lambda>v. iv_size v \<noteq> 0) vs) = map fst calls" using assms(1) by (simp add: scatter_outcome_def)
  from assms(1) consider
    "complete_calls calls" "length calls = length (filter (\<lambda>v. iv_size v \<noteq> 0) vs)" "unat r = n + unat (iv_size v) + call_bytes calls"
  | whole w x where "calls = whole @ [(w, x)]" "complete_calls whole"
      "if sint x < 0 then (if n + unat (iv_size v) + call_bytes whole = 0 then r = x else unat r = n + unat (iv_size v) + call_bytes whole)
       else if x > iv_size w then r = invalid else x < iv_size w \<and> unat r = n + unat (iv_size v) + call_bytes whole + unat x"
    unfolding scatter_outcome_def by blast
  then show ?thesis
  proof cases
    case 1
    then show ?thesis using t assms(2) by (simp add: scatter_outcome_def)
  next
    case 2
    have "(v, iv_size v) # calls = ((v, iv_size v) # whole) @ [(w, x)]" "complete_calls ((v, iv_size v) # whole)"
      "if sint x < 0 then (if n + call_bytes ((v, iv_size v) # whole) = 0 then r = x else unat r = n + call_bytes ((v, iv_size v) # whole))
       else if x > iv_size w then r = invalid else x < iv_size w \<and> unat r = n + call_bytes ((v, iv_size v) # whole) + unat x"
      using 2 by (simp_all add: add.assoc split: if_splits)
    moreover have "take (length ((v, iv_size v) # calls)) (filter (\<lambda>v. iv_size v \<noteq> 0) (v # vs)) = map fst ((v, iv_size v) # calls)"
      using t assms(2) by simp
    ultimately show ?thesis unfolding scatter_outcome_def by blast
  qed
qed

lemma scatter_outcome_stop:
  assumes "iv_size v \<noteq> 0" "sint x < 0 \<or> x \<noteq> iv_size v" "unat n + unat (iv_size v) < 2147483648"
    "r = (if sint x < 0 then if n \<noteq> 0 then n else x else if x > iv_size v then invalid else n + x)"
  shows "scatter_outcome invalid (v # vs) (unat n) [(v, x)] r"
proof -
  have "x < iv_size v \<Longrightarrow> unat (n + x) = unat n + unat x"
    using assms(3) by (simp add: unat_add_fits word_less_nat_alt)
  then have "if sint x < 0 then (if unat n + call_bytes [] = 0 then r = x else unat r = unat n + call_bytes [])
     else if x > iv_size v then r = invalid else x < iv_size v \<and> unat r = unat n + call_bytes [] + unat x"
    using assms by (auto simp: unat_eq_zero)
  then show ?thesis unfolding scatter_outcome_def using assms(1) append_Nil complete_calls_simps(1)
    by (intro conjI disjI2) (simp, blast)
qed

lemma logged_vector:
  "wr s (iv_base v) (iv_size v) = (s1, x) \<Longrightarrow> logged wr (s, cs) (iv_base v) (iv_size v) = ((s1, cs @ [(v, x)]), x)"
  by (simp add: logged_def)

lemma scatter_loop_calls:
  assumes "scatter_loop (logged wr) invalid vs n (s, cs) = ((s', cs'), r)" "unat n + (\<Sum>v\<leftarrow>vs. unat (iv_size v)) < 2147483648"
  shows "\<exists>calls. cs' = cs @ calls \<and> scatter_outcome invalid vs (unat n) calls r"
  using assms
proof (induction vs arbitrary: n s cs)
  case Nil
  then show ?case by (simp add: scatter_outcome_def)
next
  case (Cons v vs)
  obtain s1 x where "wr s (iv_base v) (iv_size v) = (s1, x)" by fastforce
  note w = logged_vector [of wr, OF this]
  consider "iv_size v = 0" | "iv_size v \<noteq> 0" "0 \<le> sint x" "x = iv_size v" | "iv_size v \<noteq> 0" "sint x < 0 \<or> x \<noteq> iv_size v" by fastforce
  then show ?case
  proof cases
    case 1
    then show ?thesis using Cons by (simp add: scatter_outcome_skip)
  next
    case 2
    have l: "unat (n + x) = unat n + unat (iv_size v)" using Cons.prems(2) 2 by (simp add: unat_add_fits)
    have e: "scatter_loop (logged wr) invalid vs (n + x) (s1, cs @ [(v, x)]) = ((s', cs'), r)"
      using Cons.prems(1) 2 w by simp
    obtain calls where "cs' = (cs @ [(v, x)]) @ calls" "scatter_outcome invalid vs (unat n + unat (iv_size v)) calls r"
      using Cons.IH [OF e] l Cons.prems(2) by auto
    then show ?thesis using scatter_outcome_Cons [of invalid vs "unat n" v calls r] 2 by simp
  next
    case 3
    have "cs' = cs @ [(v, x)]" "r = (if sint x < 0 then if n \<noteq> 0 then n else x else if x > iv_size v then invalid else n + x)"
      using Cons.prems(1) 3 w by (auto split: if_splits)
    then show ?thesis using scatter_outcome_stop [OF 3, of n r invalid vs] Cons.prems(2) by auto
  qed
qed

text \<open>
  A gathering write whose total size fits a signed result calls the writer on the nonempty vectors in order, and calls it
  again only after a vector was written completely. Its result is the number of bytes written by all calls; an error of the
  writer is reported only when nothing was written before it, and a writer that claims more than it was
  given is refused.
\<close>

theorem scatter_write_correct:
  assumes "requested_ok vectors 0" "scatter_write vectors (logged wr) invalid (s, []) = ((s', calls), r)"
  shows "scatter_outcome invalid vectors 0 calls r"
proof -
  have "unat 0 + (\<Sum>v\<leftarrow>vectors. unat (iv_size v)) < 2147483648"
    using requested_ok_bound [OF assms(1)] by simp
  then show ?thesis using scatter_loop_calls [of wr invalid vectors 0 s "[]" s' calls r] assms
    by (simp add: scatter_write_def)
qed

text \<open>A writer with room for a number of bytes, and a request that exceeds it in its second nonempty vector.\<close>

definition room_writer :: "u32 \<Rightarrow> u32 \<Rightarrow> u32 \<Rightarrow> u32 \<times> u32" where
  "room_writer room address n = (if room = 0 then (0, -11) else (room - min room n, min room n))"

definition demo_vectors :: "iovec32 list" where
  "demo_vectors = [\<lparr>iv_base = 4096, iv_size = 6\<rparr>, \<lparr>iv_base = 1, iv_size = 0\<rparr>, \<lparr>iv_base = 8192, iv_size = 6\<rparr>, \<lparr>iv_base = 8, iv_size = 9\<rparr>]"

theorem scatter_write_correct_witness:
  "let (st, r) = scatter_write demo_vectors (logged room_writer) (-22) (10, [])
   in map snd (snd st) = [6, 4] \<and> r = 10 \<and> scatter_outcome (-22) demo_vectors 0 (snd st) r"
proof -
  let ?r = "scatter_write demo_vectors (logged room_writer) (-22) (10, [])"
  have v: "map snd (snd (fst ?r)) = [6, 4]" "snd ?r = 10" by code_simp+
  have q: "requested_ok demo_vectors 0" by code_simp
  have "?r = ((fst (fst ?r), snd (fst ?r)), snd ?r)" by simp
  from scatter_write_correct [OF q this] v show ?thesis by (simp add: Let_def case_prod_beta)
qed

end
