(* ===== verification/Sector_Reader.thy ===== *)
theory Sector_Reader
  imports Prelude
begin

text \<open>
  The byte-addressed view of a sector device, \<^verbatim>\<open>drivers/storage/sector_reader.hpp\<close>, with its cache of one
  sector. The device is a parameter: its size in sectors, its transfers and its flush. A failed transfer gives no data; the cache is invalid after it, so its contents do not
  matter. The buffer address is an argument since aligned whole sectors bypass the cache.
  Shown: a refinement to a flat image of bytes, and a bound on the device transfers.
\<close>

unbundle bit_operations_syntax

section \<open>Definitions\<close>

definition sector_size :: u32 where
  "sector_size = 512"

record 'd sector_device =
  dv_sector_count :: "'d \<Rightarrow> u64"
  dv_read_sector :: "'d \<Rightarrow> u64 \<Rightarrow> 'd \<times> u8 list option"
  dv_read_sectors :: "'d \<Rightarrow> u64 \<Rightarrow> u32 \<Rightarrow> 'd \<times> u8 list option"
  dv_write_sector :: "'d \<Rightarrow> u64 \<Rightarrow> u8 list \<Rightarrow> 'd \<times> bool"
  dv_write_sectors :: "'d \<Rightarrow> u64 \<Rightarrow> u8 list \<Rightarrow> 'd \<times> bool"
  dv_flush :: "'d \<Rightarrow> 'd \<times> bool"

record 'd sector_reader =
  sr_device :: 'd
  sr_cache :: "u8 list"
  sr_cached_sector :: u64
  sr_cache_valid :: bool

definition sr_new :: "'d \<Rightarrow> 'd sector_reader" where
  "sr_new d = \<lparr>sr_device = d, sr_cache = replicate (unat sector_size) 0, sr_cached_sector = 0, sr_cache_valid = False\<rparr>"

definition sr_size :: "'d sector_device \<Rightarrow> 'd sector_reader \<Rightarrow> u64" where
  "sr_size dev r =
     (let sectors = dv_sector_count dev (sr_device r)
      in if sectors > NOT 0 div ucast sector_size then NOT 0 else sectors * ucast sector_size)"

definition sr_invalidate :: "'d sector_reader \<Rightarrow> 'd sector_reader" where
  "sr_invalidate r = r\<lparr>sr_cache_valid := False\<rparr>"

text \<open>The sector a partial transfer goes through, read into the cache unless it is there.\<close>

definition sr_fill :: "'d sector_device \<Rightarrow> 'd sector_reader \<Rightarrow> u64 \<Rightarrow> 'd sector_reader \<times> bool" where
  "sr_fill dev r sector =
     (if \<not> sr_cache_valid r \<or> sr_cached_sector r \<noteq> sector
      then case dv_read_sector dev (sr_device r) sector of
             (d, None) \<Rightarrow> (r\<lparr>sr_device := d, sr_cache_valid := False\<rparr>, False)
           | (d, Some bytes) \<Rightarrow>
               (r\<lparr>sr_device := d, sr_cache := bytes, sr_cached_sector := sector, sr_cache_valid := True\<rparr>, True)
      else (r, True))"

definition sr_chunk :: "u32 \<Rightarrow> u32 \<Rightarrow> u32" where
  "sr_chunk within count = (let chunk = sector_size - within in if chunk > count then count else chunk)"

definition sr_direct :: "u64 \<Rightarrow> u32 \<Rightarrow> u32 \<Rightarrow> bool" where
  "sr_direct offset address count \<longleftrightarrow>
     offset mod ucast sector_size = 0 \<and> count \<ge> sector_size \<and> address AND 7 = 0"

lemma direct_less: "sector_size \<le> count \<Longrightarrow> unat (count mod sector_size) < unat count"
proof -
  assume l: "sector_size \<le> count"
  have "unat (count mod sector_size) < 512" by (simp add: sector_size_def unat_mod)
  moreover have "512 \<le> unat count" using l by (simp add: sector_size_def word_le_nat_alt)
  ultimately show ?thesis by simp
qed

lemma unat_within: "unat (ucast ((offset :: u64) mod ucast sector_size) :: u32) = unat offset mod 512"
  by (simp add: sector_size_def unsigned_ucast_eq unat_mod take_bit_nat_def)

lemma unat_chunk:
  assumes "unat within < 512"
  shows "unat (sr_chunk within count) = min (512 - unat within) (unat count)"
proof -
  have "unat (sector_size - within) = 512 - unat within"
    using assms by (simp add: sector_size_def unat_sub_if')
  then show ?thesis by (simp add: sr_chunk_def Let_def word_less_nat_alt min_def)
qed

lemma chunk_bounds:
  fixes offset :: u64 and count :: u32
  defines "chunk \<equiv> sr_chunk (ucast (offset mod ucast sector_size)) count"
  assumes "count \<noteq> 0"
  shows "unat chunk = min (512 - unat offset mod 512) (unat count)" "0 < unat chunk"
    "unat (count - chunk) = unat count - unat chunk"
proof -
  have l: "unat offset mod 512 < 512" by simp
  then show c: "unat chunk = min (512 - unat offset mod 512) (unat count)"
    unfolding chunk_def by (subst unat_chunk) (simp_all only: unat_within)
  have "0 < unat count" using assms(2) by (simp add: word_neq_0_unat)
  then show "0 < unat chunk" using l unfolding c by linarith
  have "unat chunk \<le> unat count" unfolding c by simp
  then show "unat (count - chunk) = unat count - unat chunk" by (simp add: unat_sub_if')
qed

lemma chunk_less:
  assumes "count \<noteq> 0"
  shows "unat (count - sr_chunk (ucast ((offset :: u64) mod ucast sector_size)) count) < unat count"
  unfolding chunk_bounds(3) [OF assms] using chunk_bounds(1,2) [OF assms, of offset] by linarith

function sr_read_loop ::
  "'d sector_device \<Rightarrow> 'd sector_reader \<Rightarrow> u64 \<Rightarrow> u32 \<Rightarrow> u32 \<Rightarrow> u8 list \<Rightarrow> 'd sector_reader \<times> u8 list option" where
  "sr_read_loop dev r offset address count output =
     (if count = 0 then (r, Some output)
      else let sector = offset div ucast sector_size; within = ucast (offset mod ucast sector_size)
           in if sr_direct offset address count
              then let direct = count - count mod sector_size
                   in case dv_read_sectors dev (sr_device r) sector direct of
                        (d, None) \<Rightarrow> (r\<lparr>sr_device := d, sr_cache_valid := False\<rparr>, None)
                      | (d, Some bytes) \<Rightarrow>
                          sr_read_loop dev (r\<lparr>sr_device := d, sr_cache_valid := False\<rparr>) (offset + ucast direct)
                            (address + direct) (count - direct) (output @ bytes)
              else let chunk = sr_chunk within count
                   in case sr_fill dev r sector of
                        (r1, False) \<Rightarrow> (r1, None)
                      | (r1, True) \<Rightarrow>
                          sr_read_loop dev r1 (offset + ucast chunk) (address + chunk) (count - chunk)
                            (output @ take (unat chunk) (drop (unat within) (sr_cache r1))))"
  by pat_completeness auto
termination
  by (relation "measure (\<lambda>(dev, r, offset, address, count, output). unat count)")
    (auto simp: sr_direct_def intro: direct_less chunk_less simp del: diff_diff_eq2 diff_diff_add)

text \<open>The result is what the buffer holds after a successful read.\<close>

definition sr_read ::
  "'d sector_device \<Rightarrow> 'd sector_reader \<Rightarrow> u64 \<Rightarrow> u32 \<Rightarrow> u32 \<Rightarrow> 'd sector_reader \<times> u8 list option" where
  "sr_read dev r offset address count =
     (if (address = 0 \<and> count \<noteq> 0) \<or> offset > sr_size dev r \<or> ucast count > sr_size dev r - offset then (r, None)
      else sr_read_loop dev r offset address count [])"

function sr_write_loop ::
  "'d sector_device \<Rightarrow> 'd sector_reader \<Rightarrow> u64 \<Rightarrow> u32 \<Rightarrow> u32 \<Rightarrow> u8 list \<Rightarrow> 'd sector_reader \<times> bool" where
  "sr_write_loop dev r offset address count input =
     (if count = 0 then (r, True)
      else let sector = offset div ucast sector_size; within = ucast (offset mod ucast sector_size)
           in if sr_direct offset address count
              then let direct = count - count mod sector_size
                   in case dv_write_sectors dev (sr_device r) sector (take (unat direct) input) of
                        (d, False) \<Rightarrow> (r\<lparr>sr_device := d, sr_cache_valid := False\<rparr>, False)
                      | (d, True) \<Rightarrow>
                          sr_write_loop dev (r\<lparr>sr_device := d, sr_cache_valid := False\<rparr>) (offset + ucast direct)
                            (address + direct) (count - direct) (drop (unat direct) input)
              else let chunk = sr_chunk within count
                   in case sr_fill dev r sector of
                        (r1, False) \<Rightarrow> (r1, False)
                      | (r1, True) \<Rightarrow>
                          (let cache = take (unat within) (sr_cache r1) @ take (unat chunk) input @
                                       drop (unat within + unat chunk) (sr_cache r1)
                           in case dv_write_sector dev (sr_device r1) sector cache of
                                (d, False) \<Rightarrow> (r1\<lparr>sr_device := d, sr_cache := cache, sr_cache_valid := False\<rparr>, False)
                              | (d, True) \<Rightarrow>
                                  sr_write_loop dev (r1\<lparr>sr_device := d, sr_cache := cache\<rparr>) (offset + ucast chunk)
                                    (address + chunk) (count - chunk) (drop (unat chunk) input)))"
  by pat_completeness auto
termination
  by (relation "measure (\<lambda>(dev, r, offset, address, count, input). unat count)")
    (auto simp: sr_direct_def intro: direct_less chunk_less simp del: diff_diff_eq2 diff_diff_add)

definition sr_write ::
  "'d sector_device \<Rightarrow> 'd sector_reader \<Rightarrow> u64 \<Rightarrow> u32 \<Rightarrow> u8 list \<Rightarrow> 'd sector_reader \<times> bool" where
  "sr_write dev r offset address input =
     (let count = of_nat (length input)
      in if (address = 0 \<and> count \<noteq> 0) \<or> offset > sr_size dev r \<or> ucast count > sr_size dev r - offset then (r, False)
         else sr_write_loop dev r offset address count input)"

definition sr_flush :: "'d sector_device \<Rightarrow> 'd sector_reader \<Rightarrow> 'd sector_reader \<times> bool" where
  "sr_flush dev r = (case dv_flush dev (sr_device r) of (d, ok) \<Rightarrow> (r\<lparr>sr_device := d\<rparr>, ok))"

declare sr_read_loop.simps [simp del] sr_write_loop.simps [simp del]

section \<open>The flat image\<close>

definition bytes_at :: "nat \<Rightarrow> nat \<Rightarrow> 'a list \<Rightarrow> 'a list" where
  "bytes_at off n xs = take n (drop off xs)"

definition overwrite :: "nat \<Rightarrow> 'a list \<Rightarrow> 'a list \<Rightarrow> 'a list" where
  "overwrite off bs xs = take off xs @ bs @ drop (off + length bs) xs"

lemma length_bytes_at: "off + n \<le> length xs \<Longrightarrow> length (bytes_at off n xs) = n"
  by (simp add: bytes_at_def)

lemma bytes_at_bytes_at: "a + m \<le> n \<Longrightarrow> bytes_at a m (bytes_at b n xs) = bytes_at (b + a) m xs"
  by (simp add: bytes_at_def drop_take take_take min_def add.commute)

lemma bytes_at_append: "bytes_at off n xs @ bytes_at (off + n) m xs = bytes_at off (n + m) xs"
proof -
  have "drop (off + n) xs = drop n (drop off xs)" by (simp add: add.commute)
  then show ?thesis by (simp only: bytes_at_def take_add)
qed

lemma nth_bytes_at: "i < n \<Longrightarrow> off + n \<le> length xs \<Longrightarrow> bytes_at off n xs ! i = xs ! (off + i)"
  by (simp add: bytes_at_def)

lemma length_overwrite [simp]: "off + length bs \<le> length xs \<Longrightarrow> length (overwrite off bs xs) = length xs"
  by (simp add: overwrite_def)

lemma nth_overwrite:
  "off + length bs \<le> length xs \<Longrightarrow> i < length xs \<Longrightarrow>
     overwrite off bs xs ! i = (if off \<le> i \<and> i < off + length bs then bs ! (i - off) else xs ! i)"
  by (auto simp: overwrite_def nth_append)

lemma overwrite_append:
  "off + length as + length bs \<le> length xs \<Longrightarrow>
     overwrite (off + length as) bs (overwrite off as xs) = overwrite off (as @ bs) xs"
  by (rule nth_equalityI) (auto simp: nth_overwrite nth_append)

lemma overwrite_inner:
  "a + length bs \<le> n \<Longrightarrow> b + n \<le> length xs \<Longrightarrow>
     overwrite b (overwrite a bs (bytes_at b n xs)) xs = overwrite (b + a) bs xs"
  by (rule nth_equalityI) (auto simp: nth_overwrite nth_bytes_at length_bytes_at)

lemma bytes_at_overwrite: "off + length bs \<le> length xs \<Longrightarrow> bytes_at off (length bs) (overwrite off bs xs) = bs"
  by (simp add: bytes_at_def overwrite_def)

lemma bytes_at_overwrite_other:
  "off + length bs \<le> length xs \<Longrightarrow> p + n \<le> length xs \<Longrightarrow> p + n \<le> off \<or> off + length bs \<le> p \<Longrightarrow>
     bytes_at p n (overwrite off bs xs) = bytes_at p n xs"
  by (rule nth_equalityI) (auto simp: nth_overwrite nth_bytes_at length_bytes_at)

text \<open>
  The documented behaviour of a sector device: it holds an image that reads leave alone and transfer, and a successful
  write replaces the sectors it names. A failed transfer promises nothing but the size.
\<close>

definition disk_sized :: "'d sector_device \<Rightarrow> ('d \<Rightarrow> u8 list) \<Rightarrow> bool" where
  "disk_sized dev img \<longleftrightarrow>
     (\<forall>d. length (img d) = 512 * unat (dv_sector_count dev d) \<and> length (img d) < 2 ^ 64)"

definition disk_ok :: "'d sector_device \<Rightarrow> ('d \<Rightarrow> u8 list) \<Rightarrow> bool" where
  "disk_ok dev img \<longleftrightarrow> disk_sized dev img \<and>
     (\<forall>d sector d' res. dv_read_sector dev d sector = (d', res) \<longrightarrow>
        img d' = img d \<and> (\<forall>bytes. res = Some bytes \<longrightarrow> bytes = bytes_at (512 * unat sector) 512 (img d))) \<and>
     (\<forall>d sector n d' res. dv_read_sectors dev d sector n = (d', res) \<longrightarrow>
        img d' = img d \<and> (\<forall>bytes. res = Some bytes \<longrightarrow> bytes = bytes_at (512 * unat sector) (unat n) (img d))) \<and>
     (\<forall>d sector bytes d' ok. dv_write_sector dev d sector bytes = (d', ok) \<longrightarrow>
        length (img d') = length (img d) \<and> (ok \<longrightarrow> img d' = overwrite (512 * unat sector) bytes (img d))) \<and>
     (\<forall>d sector bytes d' ok. dv_write_sectors dev d sector bytes = (d', ok) \<longrightarrow>
        length (img d') = length (img d) \<and> (ok \<longrightarrow> img d' = overwrite (512 * unat sector) bytes (img d))) \<and>
     (\<forall>d. img (fst (dv_flush dev d)) = img d)"

lemma disk_image:
  "disk_ok dev img \<Longrightarrow> length (img d) = 512 * unat (dv_sector_count dev d)"
  "disk_ok dev img \<Longrightarrow> length (img d) < 2 ^ 64"
  by (drule disk_ok_def [THEN iffD1, THEN conjunct1, THEN disk_sized_def [THEN iffD1], THEN spec, of _ _ d], simp)+

lemma disk_read_sector:
  "disk_ok dev img \<Longrightarrow> dv_read_sector dev d sector = (d', res) \<Longrightarrow>
     img d' = img d \<and> (\<forall>bytes. res = Some bytes \<longrightarrow> bytes = bytes_at (512 * unat sector) 512 (img d))"
  by (simp add: disk_ok_def)

lemma disk_read_sectors:
  "disk_ok dev img \<Longrightarrow> dv_read_sectors dev d sector n = (d', res) \<Longrightarrow>
     img d' = img d \<and> (\<forall>bytes. res = Some bytes \<longrightarrow> bytes = bytes_at (512 * unat sector) (unat n) (img d))"
  by (simp add: disk_ok_def)

lemma disk_write:
  "disk_ok dev img \<Longrightarrow> dv_write_sector dev d sector bytes = (d', ok) \<Longrightarrow>
     length (img d') = length (img d) \<and> (ok \<longrightarrow> img d' = overwrite (512 * unat sector) bytes (img d))"
  "disk_ok dev img \<Longrightarrow> dv_write_sectors dev d sector bytes = (d', ok) \<Longrightarrow>
     length (img d') = length (img d) \<and> (ok \<longrightarrow> img d' = overwrite (512 * unat sector) bytes (img d))"
  by (simp_all add: disk_ok_def)

lemma disk_size: "disk_ok dev img \<Longrightarrow> unat (sr_size dev r) = length (img (sr_device r))"
proof -
  assume "disk_ok dev img"
  then have l: "length (img (sr_device r)) = 512 * unat (dv_sector_count dev (sr_device r))"
    "512 * unat (dv_sector_count dev (sr_device r)) < 2 ^ 64"
    using disk_image [of dev img "sr_device r"] by simp_all
  have "NOT 0 div ucast sector_size = (36028797018963967 :: u64)" by code_simp
  then have "\<not> dv_sector_count dev (sr_device r) > NOT 0 div ucast sector_size"
    using l(2) by (simp add: word_less_nat_alt not_less)
  moreover have "unat (dv_sector_count dev (sr_device r) * ucast sector_size) = unat (dv_sector_count dev (sr_device r)) * 512"
    using l(2) by (simp add: sector_size_def unat_word_ariths)
  ultimately show ?thesis using l(1) by (simp add: sr_size_def Let_def)
qed

text \<open>The cache agrees with the image whenever it is valid.\<close>

definition coherent :: "('d \<Rightarrow> u8 list) \<Rightarrow> 'd sector_reader \<Rightarrow> bool" where
  "coherent img r \<longleftrightarrow> (sr_cache_valid r \<longrightarrow> 512 * unat (sr_cached_sector r) + 512 \<le> length (img (sr_device r)) \<and>
     sr_cache r = bytes_at (512 * unat (sr_cached_sector r)) 512 (img (sr_device r)))"

lemma coherent_invalid [simp]: "\<not> sr_cache_valid r \<Longrightarrow> coherent img r"
  by (simp add: coherent_def)

lemma sr_fill_ok:
  assumes "disk_ok dev img" "coherent img r" "sr_fill dev r sector = (r', ok)"
    "512 * unat sector + 512 \<le> length (img (sr_device r))"
  shows "img (sr_device r') = img (sr_device r)" "coherent img r'"
    "ok \<Longrightarrow> sr_cache_valid r' \<and> sr_cached_sector r' = sector \<and> sr_cache r' = bytes_at (512 * unat sector) 512 (img (sr_device r))"
proof -
  show "img (sr_device r') = img (sr_device r)" "coherent img r'"
    "ok \<Longrightarrow> sr_cache_valid r' \<and> sr_cached_sector r' = sector \<and> sr_cache r' = bytes_at (512 * unat sector) 512 (img (sr_device r))"
    using assms(2-4) disk_read_sector [OF assms(1)] by (auto simp: sr_fill_def coherent_def split: if_splits prod.splits option.splits)
qed

lemma u64_offset:
  fixes offset :: u64 and n :: u32
  assumes "unat offset + unat n < 2 ^ 64"
  shows "unat (offset + ucast n) = unat offset + unat n"
proof -
  have "unat (ucast n :: u64) = unat n" by (simp add: unsigned_ucast_eq take_bit_nat_def less_trans [OF unat_u32_less])
  then show ?thesis using unat_add_fits [of offset "ucast n"] assms by simp
qed

lemma unat_sector: "unat ((offset :: u64) div ucast sector_size) = unat offset div 512"
  by (simp add: sector_size_def unat_div_distrib)

lemma unat_direct: "unat (count - count mod sector_size) = unat count - unat count mod 512"
proof -
  have "unat (count mod sector_size) = unat count mod 512" by (simp add: sector_size_def unat_mod)
  then show ?thesis by (simp add: unat_sub_if')
qed

lemma aligned_offset: "(offset :: u64) mod ucast sector_size = 0 \<Longrightarrow> 512 * (unat offset div 512) = unat offset"
proof -
  assume "offset mod ucast sector_size = 0"
  then have "unat (offset mod ucast sector_size) = 0" by simp
  then have "unat offset mod 512 = 0" by (simp add: sector_size_def unat_mod)
  then show ?thesis by (metis add.right_neutral mult_div_mod_eq)
qed


lemma direct_bounds:
  fixes offset :: u64 and count :: u32
  assumes "sr_direct offset address count" "unat offset + unat count < 2 ^ 64"
  defines "direct \<equiv> count - count mod sector_size"
  shows "512 * unat (offset div ucast sector_size) = unat offset" "unat (offset + ucast direct) = unat offset + unat direct"
    "unat (count - direct) = unat count - unat direct" "unat direct \<le> unat count" "unat (count - direct) < unat count"
    "unat direct = unat count div 512 * 512"
proof -
  have d: "unat direct = unat count - unat count mod 512" unfolding direct_def by (rule unat_direct)
  show "unat direct = unat count div 512 * 512" unfolding d by (simp add: minus_mod_eq_div_mult)
  show "512 * unat (offset div ucast sector_size) = unat offset"
    using assms(1) aligned_offset [of offset] by (simp add: unat_sector sr_direct_def)
  show l: "unat direct \<le> unat count" unfolding d by simp
  then show "unat (offset + ucast direct) = unat offset + unat direct" using assms(2) by (simp add: u64_offset)
  show "unat (count - direct) = unat count - unat direct" using l by (simp add: unat_sub_if')
  show "unat (count - direct) < unat count"
    using assms(1) direct_less [of count] by (simp add: direct_def sr_direct_def)
qed

text \<open>One round of the read loop through the cache.\<close>

lemma chunk_in_sector:
  fixes offset :: u64 and count :: u32
  defines "chunk \<equiv> sr_chunk (ucast (offset mod ucast sector_size)) count"
  assumes "count \<noteq> 0" "unat offset + unat count \<le> n" "512 dvd n" "n < 2 ^ 64"
  shows "512 * unat (offset div ucast sector_size) + unat (ucast (offset mod ucast sector_size) :: u32) = unat offset"
    "unat (ucast (offset mod ucast sector_size) :: u32) + unat chunk \<le> 512"
    "512 * unat (offset div ucast sector_size) + 512 \<le> n" "unat (offset + ucast chunk) = unat offset + unat chunk"
    "unat (count - chunk) = unat count - unat chunk" "0 < unat chunk" "unat chunk \<le> unat count"
proof -
  note c = chunk_bounds [OF assms(2), of offset, folded chunk_def]
  show "512 * unat (offset div ucast sector_size) + unat (ucast (offset mod ucast sector_size) :: u32) = unat offset"
    unfolding unat_sector unat_within by (rule mult_div_mod_eq)
  show "unat (ucast (offset mod ucast sector_size) :: u32) + unat chunk \<le> 512"
    unfolding unat_within c(1) using mod_less_divisor [of 512 "unat offset"] by linarith
  show u: "unat chunk \<le> unat count" unfolding c(1) by simp
  show "unat (offset + ucast chunk) = unat offset + unat chunk" using u assms(3,5) by (simp add: u64_offset)
  show "unat (count - chunk) = unat count - unat chunk" "0 < unat chunk" by (rule c)+
  obtain k where k: "n = 512 * k" using assms(4) by (elim dvdE)
  have "0 < unat count" using assms(2) by (simp add: word_neq_0_unat)
  then have "unat offset div 512 < k" using assms(3) k by (simp add: less_mult_imp_div_less mult.commute)
  then show "512 * unat (offset div ucast sector_size) + 512 \<le> n" unfolding unat_sector k by simp
qed

lemma sr_read_loop_ok:
  assumes "disk_ok dev img" "sr_read_loop dev r offset address count out = (r', res)" "coherent img r"
    "unat offset + unat count \<le> length (img (sr_device r))"
  shows "img (sr_device r') = img (sr_device r) \<and> coherent img r' \<and>
    (\<forall>bytes. res = Some bytes \<longrightarrow> bytes = out @ bytes_at (unat offset) (unat count) (img (sr_device r)))"
  using assms(2-4)
proof (induction "unat count" arbitrary: r offset address count out rule: less_induct)
  case less
  let ?i = "img (sr_device r)" and ?sector = "offset div ucast sector_size :: u64"
  have len: "512 dvd length ?i" "length ?i < 2 ^ 64" using disk_image [OF assms(1), of "sr_device r"] by simp_all
  consider "count = 0" | "count \<noteq> 0" "sr_direct offset address count" | "count \<noteq> 0" "\<not> sr_direct offset address count" by blast
  then show ?case
  proof cases
    case 1
    then show ?thesis using less.prems by (auto simp: bytes_at_def sr_read_loop.simps [of _ _ _ _ 0])
  next
    case 2
    define direct where "direct = count - count mod sector_size"
    have "unat offset + unat count < 2 ^ 64" using less.prems(3) len(2) by linarith
    note b = direct_bounds [OF 2(2) this, folded direct_def]
    obtain d rs where t: "dv_read_sectors dev (sr_device r) ?sector direct = (d, rs)" by fastforce
    note rd = disk_read_sectors [OF assms(1) t]
    let ?r = "r\<lparr>sr_device := d, sr_cache_valid := False\<rparr>"
    show ?thesis
    proof (cases rs)
      case None
      then show ?thesis using less.prems(1) 2 t rd
        by (subst (asm) sr_read_loop.simps) (auto simp: Let_def direct_def [symmetric])
    next
      case (Some bytes)
      have e: "sr_read_loop dev ?r (offset + ucast direct) (address + direct) (count - direct) (out @ bytes) = (r', res)"
        using less.prems(1) 2 t Some by (subst (asm) sr_read_loop.simps) (simp add: Let_def direct_def [symmetric])
      have "unat (offset + ucast direct) + unat (count - direct) \<le> length (img (sr_device ?r))"
        using b less.prems(3) rd by simp
      note h = less.hyps [OF b(5) e coherent_invalid this]
      have "bytes @ bytes_at (unat offset + unat direct) (unat count - unat direct) ?i = bytes_at (unat offset) (unat count) ?i"
        using rd Some b(1,4) bytes_at_append [of "unat offset" "unat direct" ?i "unat count - unat direct"] by simp
      then show ?thesis using h rd b(2,3) by simp
    qed
  next
    case 3
    define within where "within = (ucast (offset mod ucast sector_size) :: u32)"
    define chunk where "chunk = sr_chunk within count"
    note b = chunk_in_sector [OF 3(1) less.prems(3) len, folded within_def, folded chunk_def]
    obtain r1 ok where f: "sr_fill dev r ?sector = (r1, ok)" by fastforce
    note fl = sr_fill_ok [OF assms(1) less.prems(2) f b(3)]
    show ?thesis
    proof (cases ok)
      case False
      then show ?thesis using less.prems(1) 3 f fl
        by (subst (asm) sr_read_loop.simps) (auto simp: Let_def within_def [symmetric] chunk_def [symmetric])
    next
      case True
      let ?part = "take (unat chunk) (drop (unat within) (sr_cache r1))"
      have e: "sr_read_loop dev r1 (offset + ucast chunk) (address + chunk) (count - chunk) (out @ ?part) = (r', res)"
        using less.prems(1) 3 f True by (subst (asm) sr_read_loop.simps) (simp add: Let_def within_def [symmetric] chunk_def [symmetric])
      have "unat (offset + ucast chunk) + unat (count - chunk) \<le> length (img (sr_device r1))"
        using b less.prems(3) fl(1) by simp
      moreover have "unat (count - chunk) < unat count" using b by simp
      ultimately have h: "img (sr_device r') = img (sr_device r1) \<and> coherent img r' \<and>
        (\<forall>bytes. res = Some bytes \<longrightarrow> bytes = (out @ ?part) @ bytes_at (unat (offset + ucast chunk)) (unat (count - chunk)) (img (sr_device r1)))"
        using less.hyps [OF _ e fl(2)] by blast
      have "?part = bytes_at (unat offset) (unat chunk) ?i"
        using fl(3) [OF True] b(1) bytes_at_bytes_at [OF b(2), of "512 * unat ?sector" ?i] by (simp add: bytes_at_def)
      then have "?part @ bytes_at (unat offset + unat chunk) (unat count - unat chunk) ?i = bytes_at (unat offset) (unat count) ?i"
        using b(7) bytes_at_append [of "unat offset" "unat chunk" ?i "unat count - unat chunk"] by simp
      then show ?thesis using h fl(1) b(4,5) by simp
    qed
  qed
qed

text \<open>Writing part of a sector through the cache.\<close>

lemma write_cached:
  assumes "disk_ok dev img" "dv_write_sector dev d sector (overwrite w bytes (bytes_at (512 * unat sector) 512 (img d))) = (d', ok)"
    "w + length bytes \<le> 512" "512 * unat sector + 512 \<le> length (img d)"
  shows "length (img d') = length (img d)" "ok \<Longrightarrow> img d' = overwrite (512 * unat sector + w) bytes (img d)"
    "ok \<Longrightarrow> overwrite w bytes (bytes_at (512 * unat sector) 512 (img d)) = bytes_at (512 * unat sector) 512 (img d')"
proof -
  let ?c = "overwrite w bytes (bytes_at (512 * unat sector) 512 (img d))"
  note k = disk_write(1) [OF assms(1,2)]
  have l: "length ?c = 512" using assms(3,4) by (simp add: length_bytes_at)
  show "length (img d') = length (img d)" using k by simp
  show i: "img d' = overwrite (512 * unat sector + w) bytes (img d)" if ok
    using k that overwrite_inner [OF assms(3,4)] by simp
  show "?c = bytes_at (512 * unat sector) 512 (img d')" if ok
    using k that bytes_at_overwrite [of "512 * unat sector" ?c "img d"] l assms(4) by simp
qed

lemma take_drop_overwrite: "take w xs @ bs @ drop (w + length bs) xs = overwrite w bs xs"
  by (simp add: overwrite_def)

lemma sr_write_loop_ok:
  assumes "disk_ok dev img" "sr_write_loop dev r offset address count input = (r', ok)" "coherent img r"
    "unat offset + unat count \<le> length (img (sr_device r))" "length input = unat count"
  shows "length (img (sr_device r')) = length (img (sr_device r)) \<and> coherent img r' \<and>
    (ok \<longrightarrow> img (sr_device r') = overwrite (unat offset) input (img (sr_device r)))"
  using assms(2-5)
proof (induction "unat count" arbitrary: r offset address count input rule: less_induct)
  case less
  let ?i = "img (sr_device r)" and ?sector = "offset div ucast sector_size :: u64"
  have len: "512 dvd length ?i" "length ?i < 2 ^ 64" using disk_image [OF assms(1), of "sr_device r"] by simp_all
  have split: "overwrite (unat offset + k) (drop k input) (overwrite (unat offset) (take k input) ?i) = overwrite (unat offset) input ?i"
    if "k \<le> unat count" for k
    using overwrite_append [of "unat offset" "take k input" "drop k input" ?i] that less.prems(3,4) by (simp add: min.absorb2)
  consider "count = 0" | "count \<noteq> 0" "sr_direct offset address count" | "count \<noteq> 0" "\<not> sr_direct offset address count" by blast
  then show ?case
  proof cases
    case 1
    then show ?thesis using less.prems by (auto simp: overwrite_def sr_write_loop.simps [of _ _ _ _ 0])
  next
    case 2
    define direct where "direct = count - count mod sector_size"
    have "unat offset + unat count < 2 ^ 64" using less.prems(3) len(2) by linarith
    note b = direct_bounds [OF 2(2) this, folded direct_def]
    obtain d w where t: "dv_write_sectors dev (sr_device r) ?sector (take (unat direct) input) = (d, w)" by fastforce
    note wr = disk_write(2) [OF assms(1) t]
    let ?r = "r\<lparr>sr_device := d, sr_cache_valid := False\<rparr>"
    show ?thesis
    proof (cases w)
      case False
      then show ?thesis using less.prems(1) 2 t wr
        by (subst (asm) sr_write_loop.simps) (auto simp: Let_def direct_def [symmetric])
    next
      case True
      have e: "sr_write_loop dev ?r (offset + ucast direct) (address + direct) (count - direct) (drop (unat direct) input) = (r', ok)"
        using less.prems(1) 2 t True by (subst (asm) sr_write_loop.simps) (simp add: Let_def direct_def [symmetric])
      have "unat (offset + ucast direct) + unat (count - direct) \<le> length (img (sr_device ?r))"
        "length (drop (unat direct) input) = unat (count - direct)"
        using b less.prems(3,4) wr by simp_all
      note h = less.hyps [OF b(5) e coherent_invalid this]
      then show ?thesis using wr True b(1,2,4) split [OF b(4)] less.prems(3,4) by (simp add: min.absorb2)
    qed
  next
    case 3
    define within where "within = (ucast (offset mod ucast sector_size) :: u32)"
    define chunk where "chunk = sr_chunk within count"
    note b = chunk_in_sector [OF 3(1) less.prems(3) len, folded within_def, folded chunk_def]
    obtain r1 f where f: "sr_fill dev r ?sector = (r1, f)" by fastforce
    note fl = sr_fill_ok [OF assms(1) less.prems(2) f b(3)]
    show ?thesis
    proof (cases f)
      case False
      then show ?thesis using less.prems(1) 3 f fl
        by (subst (asm) sr_write_loop.simps) (auto simp: Let_def within_def [symmetric] chunk_def [symmetric])
    next
      case True
      let ?part = "take (unat chunk) input"
      have pl: "length ?part = unat chunk" using b(7) less.prems(4) by simp
      define cache where "cache = overwrite (unat within) ?part (sr_cache r1)"
      have c: "take (unat within) (sr_cache r1) @ ?part @ drop (unat within + unat chunk) (sr_cache r1) = cache"
        unfolding cache_def take_drop_overwrite [symmetric] pl ..
      obtain d w where t: "dv_write_sector dev (sr_device r1) ?sector cache = (d, w)" by fastforce
      have cc: "sr_cache r1 = bytes_at (512 * unat ?sector) 512 (img (sr_device r1))" using fl True by simp
      have "512 * unat ?sector + 512 \<le> length (img (sr_device r1))" "unat within + length ?part \<le> 512" using b fl(1) pl by simp_all
      note wr = write_cached [OF assms(1) t [unfolded cache_def cc] this(2,1), folded cc, folded cache_def]
      show ?thesis
      proof (cases w)
        case False
        then show ?thesis using less.prems(1) 3 f fl(1) \<open>f\<close> t wr(1) c
          by (subst (asm) sr_write_loop.simps) (auto simp: Let_def within_def [symmetric] chunk_def [symmetric])
      next
        case w: True
        let ?r = "r1\<lparr>sr_device := d, sr_cache := cache\<rparr>"
        have e: "sr_write_loop dev ?r (offset + ucast chunk) (address + chunk) (count - chunk) (drop (unat chunk) input) = (r', ok)"
          using less.prems(1) 3 f \<open>f\<close> t w c
          by (subst (asm) sr_write_loop.simps) (simp add: Let_def within_def [symmetric] chunk_def [symmetric])
        have co: "coherent img ?r" using wr(1,3) w fl True b(3) by (simp add: coherent_def)
        have m: "unat (count - chunk) < unat count" "unat (offset + ucast chunk) + unat (count - chunk) \<le> length (img (sr_device ?r))"
          "length (drop (unat chunk) input) = unat (count - chunk)"
          using b less.prems(3,4) wr(1) fl(1) by simp_all
        note h = less.hyps [OF m(1) e co m(2,3)]
        have "img d = overwrite (unat offset) ?part ?i" using wr(2) w fl(1) b(1) by simp
        then show ?thesis using h wr(1) fl(1) b(4) split [OF b(7)] by simp
      qed
    qed
  qed
qed

lemma in_range:
  assumes "disk_ok dev img" "offset \<le> sr_size dev r" "ucast (count :: u32) \<le> sr_size dev r - offset"
  shows "unat offset + unat count \<le> length (img (sr_device r))"
proof -
  have "unat (ucast count :: u64) = unat count" by (simp add: unsigned_ucast_eq take_bit_nat_def less_trans [OF unat_u32_less])
  then have "unat count \<le> unat (sr_size dev r) - unat offset"
    using assms(2,3) by (simp add: word_le_nat_alt unat_sub_if')
  moreover have "unat offset \<le> unat (sr_size dev r)" using assms(2) by (simp add: word_le_nat_alt)
  ultimately show ?thesis by (simp add: disk_size [OF assms(1)])
qed

lemma sr_read_ok:
  assumes "disk_ok dev img" "coherent img r" "sr_read dev r offset address count = (r', res)"
  shows "img (sr_device r') = img (sr_device r) \<and> coherent img r' \<and>
    (\<forall>bytes. res = Some bytes \<longrightarrow> bytes = bytes_at (unat offset) (unat count) (img (sr_device r))) \<and>
    (unat offset + unat count > length (img (sr_device r)) \<longrightarrow> r' = r \<and> res = None)"
  using assms(2,3) in_range [OF assms(1), of offset r count]
    sr_read_loop_ok [OF assms(1) _ assms(2), of offset address count "[]" r' res]
  by (auto simp: sr_read_def not_less split: if_splits)

lemma sr_write_ok:
  assumes "disk_ok dev img" "coherent img r" "length input < 2 ^ 32" "sr_write dev r offset address input = (r', ok)"
  shows "coherent img r' \<and> length (img (sr_device r')) = length (img (sr_device r)) \<and>
    (ok \<longrightarrow> img (sr_device r') = overwrite (unat offset) input (img (sr_device r))) \<and>
    (unat offset + length input > length (img (sr_device r)) \<longrightarrow> r' = r \<and> \<not> ok)"
proof -
  have len: "unat (of_nat (length input) :: u32) = length input"
    using assms(3) by (simp add: unat_of_nat take_bit_nat_def)
  then show ?thesis
    using assms(2,4) in_range [OF assms(1), of offset r "of_nat (length input)"]
      sr_write_loop_ok [OF assms(1) _ assms(2), of offset address "of_nat (length input)" input r' ok]
    by (auto simp: sr_write_def Let_def not_less split: if_splits)
qed

text \<open>A device that holds two sectors in memory.\<close>

definition memory_image :: "(nat \<Rightarrow> u8) \<Rightarrow> u8 list" where
  "memory_image d = map d [0..<1024]"

definition memory_read :: "(nat \<Rightarrow> u8) \<Rightarrow> u64 \<Rightarrow> nat \<Rightarrow> (nat \<Rightarrow> u8) \<times> u8 list option" where
  "memory_read d sector n =
     (d, if 512 * unat sector + n \<le> 1024 then Some (map d [512 * unat sector..<512 * unat sector + n]) else None)"

definition memory_write :: "(nat \<Rightarrow> u8) \<Rightarrow> u64 \<Rightarrow> u8 list \<Rightarrow> (nat \<Rightarrow> u8) \<times> bool" where
  "memory_write d sector bytes =
     (if 512 * unat sector + length bytes \<le> 1024
      then ((\<lambda>i. if 512 * unat sector \<le> i \<and> i < 512 * unat sector + length bytes then bytes ! (i - 512 * unat sector) else d i), True)
      else (d, False))"

definition memory_disk :: "(nat \<Rightarrow> u8) sector_device" where
  "memory_disk =
     \<lparr>dv_sector_count = \<lambda>_. 2, dv_read_sector = \<lambda>d sector. memory_read d sector 512,
      dv_read_sectors = \<lambda>d sector n. memory_read d sector (unat n), dv_write_sector = memory_write,
      dv_write_sectors = memory_write, dv_flush = \<lambda>d. (d, True)\<rparr>"

lemma memory_disk_ok: "disk_ok memory_disk memory_image"
proof -
  have r: "memory_read d sector n = (d', res) \<Longrightarrow>
      memory_image d' = memory_image d \<and> (\<forall>bytes. res = Some bytes \<longrightarrow> bytes = bytes_at (512 * unat sector) n (memory_image d))" for d sector n d' res
    by (auto simp: memory_read_def memory_image_def bytes_at_def take_map drop_map simp del: upt_rec_numeral split: if_splits)
  have w: "memory_write d sector bytes = (d', ok) \<Longrightarrow> length (memory_image d') = length (memory_image d) \<and>
      (ok \<longrightarrow> memory_image d' = overwrite (512 * unat sector) bytes (memory_image d))" for d sector bytes d' ok
    by (auto simp: memory_write_def memory_image_def nth_overwrite intro!: nth_equalityI simp del: upt_rec_numeral split: if_splits)
  have "disk_sized memory_disk memory_image"
    by (simp add: memory_disk_def disk_sized_def memory_image_def del: upt_rec_numeral)
  then show ?thesis unfolding disk_ok_def using r w by (simp add: memory_disk_def)
qed

section \<open>Termination and cost\<close>

text \<open>A device that also counts its transfers.\<close>

definition counted :: "'d sector_device \<Rightarrow> ('d \<times> nat) sector_device" where
  "counted dev =
     \<lparr>dv_sector_count = \<lambda>d. dv_sector_count dev (fst d),
      dv_read_sector = \<lambda>d sector. (case dv_read_sector dev (fst d) sector of (d', x) \<Rightarrow> ((d', snd d + 1), x)),
      dv_read_sectors = \<lambda>d sector n. (case dv_read_sectors dev (fst d) sector n of (d', x) \<Rightarrow> ((d', snd d + 1), x)),
      dv_write_sector = \<lambda>d sector bytes. (case dv_write_sector dev (fst d) sector bytes of (d', x) \<Rightarrow> ((d', snd d + 1), x)),
      dv_write_sectors = \<lambda>d sector bytes. (case dv_write_sectors dev (fst d) sector bytes of (d', x) \<Rightarrow> ((d', snd d + 1), x)),
      dv_flush = \<lambda>d. (case dv_flush dev (fst d) of (d', x) \<Rightarrow> ((d', snd d), x))\<rparr>"

text \<open>A device that serves every transfer inside its image.\<close>

definition disk_live :: "'d sector_device \<Rightarrow> ('d \<Rightarrow> u8 list) \<Rightarrow> bool" where
  "disk_live dev img \<longleftrightarrow>
     (\<forall>d sector. 512 * unat sector + 512 \<le> length (img d) \<longrightarrow> snd (dv_read_sector dev d sector) \<noteq> None) \<and>
     (\<forall>d sector n. 512 * unat sector + unat n \<le> length (img d) \<longrightarrow> snd (dv_read_sectors dev d sector n) \<noteq> None) \<and>
     (\<forall>d sector bytes. 512 * unat sector + length bytes \<le> length (img d) \<longrightarrow> snd (dv_write_sector dev d sector bytes)) \<and>
     (\<forall>d sector bytes. 512 * unat sector + length bytes \<le> length (img d) \<longrightarrow> snd (dv_write_sectors dev d sector bytes))"

definition touched_sectors :: "nat \<Rightarrow> nat \<Rightarrow> nat" where
  "touched_sectors offset count = (if count = 0 then 0 else (offset mod 512 + count + 511) div 512)"

lemma counted_ok: "disk_ok dev img \<Longrightarrow> disk_ok (counted dev) (img \<circ> fst)"
proof -
  assume k: "disk_ok dev img"
  have "disk_sized (counted dev) (img \<circ> fst)" using disk_image [OF k] by (simp add: disk_sized_def counted_def)
  moreover have "img d' = img d" if "dv_flush dev d = (d', ok)" for d d' ok
    using k that unfolding disk_ok_def by (metis fst_conv)
  ultimately show ?thesis
    unfolding disk_ok_def
    using disk_read_sector [OF k] disk_read_sectors [OF k] disk_write [OF k]
    by (simp add: counted_def split: prod.split)
qed

lemma counted_live: "disk_live dev img \<Longrightarrow> disk_live (counted dev) (img \<circ> fst)"
  by (simp add: disk_live_def counted_def case_prod_beta)

lemma sr_fill_cost: "sr_fill (counted dev) r sector = (r', ok) \<Longrightarrow> snd (sr_device r') \<le> snd (sr_device r) + 1"
  by (auto simp: sr_fill_def counted_def split: if_splits prod.splits option.splits)

lemma touched_chunk:
  assumes "0 < count" "chunk = min (512 - offset mod 512) count"
  shows "touched_sectors (offset + chunk) (count - chunk) + 1 \<le> touched_sectors offset count"
proof (cases "chunk = count")
  case True
  then show ?thesis using assms(1) by (simp add: touched_sectors_def)
next
  case False
  obtain q w where o: "offset = 512 * q + w" "w < 512"
    by (metis mod_less_divisor mult_div_mod_eq zero_less_numeral)
  have m: "offset mod 512 = w" using o by simp
  have c: "chunk = 512 - w" "chunk < count" using False assms(2) m by auto
  have "offset + chunk = 512 * (q + 1)" using o c(1) by simp
  then have z: "(offset + chunk) mod 512 = 0" by simp
  have "w + count + 511 = (count - chunk + 511) + 512" using c o by simp
  then have "(w + count + 511) div 512 = (count - chunk + 511) div 512 + 1" by simp
  then show ?thesis using c assms(1) z m by (simp add: touched_sectors_def)
qed

lemma touched_direct:
  assumes "512 \<le> count" "direct = count div 512 * 512" "512 dvd offset"
  shows "touched_sectors (offset + direct) (count - direct) + 1 \<le> touched_sectors offset count"
proof -
  obtain q w where o: "count = w + 512 * q" "w < 512"
    by (metis add.commute mod_less_divisor mult_div_mod_eq zero_less_numeral)
  have d: "direct = 512 * q" using assms(2) o by simp
  have m: "offset mod 512 = 0" "(offset + direct) mod 512 = 0" using assms(3) d by (auto simp: mod_add_right_eq [symmetric])
  have "count + 511 = (w + 511) + 512 * q" using o by simp
  then have "(count + 511) div 512 = (w + 511) div 512 + q" by (simp only: div_mult_self2)
  moreover have "1 \<le> q" using assms(1) o by (cases q) auto
  ultimately show ?thesis using m d o by (simp add: touched_sectors_def)
qed

lemma sr_read_loop_cost:
  assumes "sr_read_loop (counted dev) r offset address count out = (r', res)" "unat offset + unat count < 2 ^ 64"
  shows "snd (sr_device r') \<le> snd (sr_device r) + touched_sectors (unat offset) (unat count)"
  using assms
proof (induction "unat count" arbitrary: r offset address count out rule: less_induct)
  case less
  consider "count = 0" | "count \<noteq> 0" "sr_direct offset address count" | "count \<noteq> 0" "\<not> sr_direct offset address count" by blast
  then show ?case
  proof cases
    case 1
    then show ?thesis using less.prems by (auto simp: sr_read_loop.simps [of _ _ _ _ 0])
  next
    case 2
    define direct where "direct = count - count mod sector_size"
    note b = direct_bounds [OF 2(2) less.prems(2), folded direct_def]
    have c: "512 \<le> unat count" using 2(2) by (simp add: sr_direct_def sector_size_def word_le_nat_alt)
    have "512 dvd unat offset" using b(1) by (metis dvd_triv_left)
    note t = touched_direct [OF c b(6) this]
    obtain d rs where rd: "dv_read_sectors dev (fst (sr_device r)) (offset div ucast sector_size) direct = (d, rs)" by fastforce
    let ?r = "r\<lparr>sr_device := (d, snd (sr_device r) + 1), sr_cache_valid := False\<rparr>"
    show ?thesis
    proof (cases rs)
      case None
      then show ?thesis using less.prems(1) 2 rd t
        by (subst (asm) sr_read_loop.simps) (auto simp: Let_def direct_def [symmetric] counted_def)
    next
      case (Some bytes)
      have e: "sr_read_loop (counted dev) ?r (offset + ucast direct) (address + direct) (count - direct) (out @ bytes) = (r', res)"
        using less.prems(1) 2 rd Some by (subst (asm) sr_read_loop.simps) (simp add: Let_def direct_def [symmetric] counted_def)
      have "unat (offset + ucast direct) + unat (count - direct) < 2 ^ 64" using b(2-4) less.prems(2) by simp
      from less.hyps [OF b(5) e this] show ?thesis using t b(2,3) by simp
    qed
  next
    case 3
    define chunk where "chunk = sr_chunk (ucast (offset mod ucast sector_size)) count"
    note b = chunk_bounds [OF 3(1), of offset, folded chunk_def]
    have c: "0 < unat count" using 3(1) by (simp add: word_neq_0_unat)
    note t = touched_chunk [OF c b(1)]
    have le: "unat chunk \<le> unat count" unfolding b(1) by simp
    have o: "unat (offset + ucast chunk) = unat offset + unat chunk" using le less.prems(2) by (simp add: u64_offset)
    obtain r1 ok where f: "sr_fill (counted dev) r (offset div ucast sector_size) = (r1, ok)" by fastforce
    note cost = sr_fill_cost [OF f]
    show ?thesis
    proof (cases ok)
      case False
      then show ?thesis using less.prems(1) 3 f cost t
        by (subst (asm) sr_read_loop.simps) (auto simp: Let_def chunk_def [symmetric])
    next
      case True
      then obtain out' where e: "sr_read_loop (counted dev) r1 (offset + ucast chunk) (address + chunk) (count - chunk) out' = (r', res)"
        using less.prems(1) 3 f by (subst (asm) sr_read_loop.simps) (auto simp: Let_def chunk_def [symmetric])
      have "unat (count - chunk) < unat count" "unat (offset + ucast chunk) + unat (count - chunk) < 2 ^ 64"
        using b(2,3) c le o less.prems(2) by simp_all
      from less.hyps [OF this(1) e this(2)] show ?thesis using t b(3) o cost by simp
    qed
  qed
qed

lemma sr_fill_live:
  "disk_live dev img \<Longrightarrow> 512 * unat sector + 512 \<le> length (img (sr_device r)) \<Longrightarrow> snd (sr_fill dev r sector)"
  by (cases "dv_read_sector dev (sr_device r) sector") (fastforce simp: sr_fill_def disk_live_def split: option.splits)

lemma sr_read_loop_live:
  assumes "disk_ok dev img" "disk_live dev img" "sr_read_loop dev r offset address count out = (r', res)" "coherent img r"
    "unat offset + unat count \<le> length (img (sr_device r))"
  shows "res \<noteq> None"
  using assms(3-5)
proof (induction "unat count" arbitrary: r offset address count out rule: less_induct)
  case less
  have len: "512 dvd length (img (sr_device r))" "length (img (sr_device r)) < 2 ^ 64"
    using disk_image [OF assms(1), of "sr_device r"] by simp_all
  consider "count = 0" | "count \<noteq> 0" "sr_direct offset address count" | "count \<noteq> 0" "\<not> sr_direct offset address count" by blast
  then show ?case
  proof cases
    case 1
    then show ?thesis using less.prems by (auto simp: sr_read_loop.simps [of _ _ _ _ 0])
  next
    case 2
    define direct where "direct = count - count mod sector_size"
    have "unat offset + unat count < 2 ^ 64" using less.prems(3) len(2) by linarith
    note b = direct_bounds [OF 2(2) this, folded direct_def]
    have "512 * unat (offset div ucast sector_size) + unat direct \<le> length (img (sr_device r))" using b(1,4) less.prems(3) by linarith
    then obtain d bytes where t: "dv_read_sectors dev (sr_device r) (offset div ucast sector_size) direct = (d, Some bytes)"
      using assms(2) unfolding disk_live_def by (metis not_Some_eq prod.collapse)
    let ?r = "r\<lparr>sr_device := d, sr_cache_valid := False\<rparr>"
    have e: "sr_read_loop dev ?r (offset + ucast direct) (address + direct) (count - direct) (out @ bytes) = (r', res)"
      using less.prems(1) 2 t by (subst (asm) sr_read_loop.simps) (simp add: Let_def direct_def [symmetric])
    have "unat (offset + ucast direct) + unat (count - direct) \<le> length (img (sr_device ?r))"
      using b less.prems(3) disk_read_sectors [OF assms(1) t] by simp
    then show ?thesis using less.hyps [OF b(5) e coherent_invalid] by simp
  next
    case 3
    define chunk where "chunk = sr_chunk (ucast (offset mod ucast sector_size)) count"
    note b = chunk_in_sector [OF 3(1) less.prems(3) len, folded chunk_def]
    obtain r1 where f: "sr_fill dev r (offset div ucast sector_size) = (r1, True)"
      using sr_fill_live [OF assms(2) b(3)] by (metis prod.collapse)
    note fl = sr_fill_ok [OF assms(1) less.prems(2) f b(3)]
    obtain out' where e: "sr_read_loop dev r1 (offset + ucast chunk) (address + chunk) (count - chunk) out' = (r', res)"
      using less.prems(1) 3 f by (subst (asm) sr_read_loop.simps) (auto simp: Let_def chunk_def [symmetric])
    have "unat (count - chunk) < unat count" "unat (offset + ucast chunk) + unat (count - chunk) \<le> length (img (sr_device r1))"
      using b less.prems(3) fl(1) by simp_all
    then show ?thesis using less.hyps [OF _ e fl(2)] by simp
  qed
qed

text \<open>
  A read inside the device always returns on a device that serves its transfers: it ends with the bytes of the
  image after at most one transfer per sector that the range touches.
\<close>

theorem sr_read_terminates:
  assumes "disk_ok dev img" "disk_live dev img" "coherent (img \<circ> fst) r" "address \<noteq> 0"
    "unat offset + unat count \<le> length (img (fst (sr_device r)))"
  shows "\<exists>r'. sr_read (counted dev) r offset address count =
       (r', Some (bytes_at (unat offset) (unat count) (img (fst (sr_device r))))) \<and>
     snd (sr_device r') \<le> snd (sr_device r) + touched_sectors (unat offset) (unat count)"
proof -
  let ?img = "img \<circ> fst"
  note k = counted_ok [OF assms(1)] and l = counted_live [OF assms(2)]
  have range: "unat offset + unat count \<le> length (?img (sr_device r))" using assms(5) by simp
  have sz: "unat (sr_size (counted dev) r) = length (?img (sr_device r))" by (rule disk_size [OF k])
  have small: "unat offset + unat count < 2 ^ 64" using assms(5) disk_image(2) [OF assms(1)] by (rule le_less_trans)
  have u: "unat (ucast count :: u64) = unat count" by (simp add: unsigned_ucast_eq take_bit_nat_def less_trans [OF unat_u32_less])
  obtain r' res where e: "sr_read_loop (counted dev) r offset address count [] = (r', res)" by fastforce
  have "sr_read (counted dev) r offset address count = (r', res)"
    using e assms(4) range sz u by (auto simp: sr_read_def word_less_nat_alt unat_sub_if')
  moreover obtain bytes where "res = Some bytes" using sr_read_loop_live [OF k l e assms(3) range] by blast
  ultimately show ?thesis
    using sr_read_loop_ok [OF k e assms(3) range] sr_read_loop_cost [OF e small] by auto
qed

lemma memory_disk_live: "disk_live memory_disk memory_image"
  by (simp add: disk_live_def memory_disk_def memory_read_def memory_write_def memory_image_def del: upt_rec_numeral)

theorem sr_read_terminates_witness:
  "\<exists>r'. sr_read (counted memory_disk) (sr_new (of_nat, 0)) 500 9 100 =
       (r', Some (bytes_at 500 100 (memory_image of_nat))) \<and> snd (sr_device r') \<le> 2"
proof -
  have "coherent (memory_image \<circ> fst) (sr_new (of_nat, 0))" by (simp add: sr_new_def)
  from sr_read_terminates [OF memory_disk_ok memory_disk_live this, of 9 500 100]
  show ?thesis by (simp add: sr_new_def memory_image_def touched_sectors_def numeral_2_eq_2 [symmetric] del: upt_rec_numeral)
qed

section \<open>Refinement of a flat image\<close>

lemma sr_write_loop_live:
  assumes "disk_ok dev img" "disk_live dev img" "sr_write_loop dev r offset address count input = (r', ok)" "coherent img r"
    "unat offset + unat count \<le> length (img (sr_device r))" "length input = unat count"
  shows "ok"
  using assms(3-6)
proof (induction "unat count" arbitrary: r offset address count input rule: less_induct)
  case less
  let ?sector = "offset div ucast sector_size :: u64"
  have len: "512 dvd length (img (sr_device r))" "length (img (sr_device r)) < 2 ^ 64"
    using disk_image [OF assms(1), of "sr_device r"] by simp_all
  consider "count = 0" | "count \<noteq> 0" "sr_direct offset address count" | "count \<noteq> 0" "\<not> sr_direct offset address count" by blast
  then show ?case
  proof cases
    case 1
    then show ?thesis using less.prems by (auto simp: sr_write_loop.simps [of _ _ _ _ 0])
  next
    case 2
    define direct where "direct = count - count mod sector_size"
    have "unat offset + unat count < 2 ^ 64" using less.prems(3) len(2) by linarith
    note b = direct_bounds [OF 2(2) this, folded direct_def]
    have "512 * unat ?sector + length (take (unat direct) input) \<le> length (img (sr_device r))"
      using b(1,4) less.prems(3,4) by simp
    then obtain d where t: "dv_write_sectors dev (sr_device r) ?sector (take (unat direct) input) = (d, True)"
      using assms(2) unfolding disk_live_def by (metis prod.collapse)
    let ?r = "r\<lparr>sr_device := d, sr_cache_valid := False\<rparr>"
    have e: "sr_write_loop dev ?r (offset + ucast direct) (address + direct) (count - direct) (drop (unat direct) input) = (r', ok)"
      using less.prems(1) 2 t by (subst (asm) sr_write_loop.simps) (simp add: Let_def direct_def [symmetric])
    have "unat (offset + ucast direct) + unat (count - direct) \<le> length (img (sr_device ?r))"
      "length (drop (unat direct) input) = unat (count - direct)"
      using b less.prems(3,4) disk_write(2) [OF assms(1) t] by simp_all
    then show ?thesis using less.hyps [OF b(5) e coherent_invalid] by simp
  next
    case 3
    define within where "within = (ucast (offset mod ucast sector_size) :: u32)"
    define chunk where "chunk = sr_chunk within count"
    note b = chunk_in_sector [OF 3(1) less.prems(3) len, folded within_def, folded chunk_def]
    obtain r1 where f: "sr_fill dev r ?sector = (r1, True)"
      using sr_fill_live [OF assms(2) b(3)] by (metis prod.collapse)
    note fl = sr_fill_ok [OF assms(1) less.prems(2) f b(3)]
    let ?part = "take (unat chunk) input"
    have pl: "length ?part = unat chunk" using b(7) less.prems(4) by simp
    define cache where "cache = overwrite (unat within) ?part (sr_cache r1)"
    have c: "take (unat within) (sr_cache r1) @ ?part @ drop (unat within + unat chunk) (sr_cache r1) = cache"
      unfolding cache_def take_drop_overwrite [symmetric] pl ..
    have cc: "sr_cache r1 = bytes_at (512 * unat ?sector) 512 (img (sr_device r1))" using fl by simp
    have sec: "512 * unat ?sector + 512 \<le> length (img (sr_device r1))" "unat within + length ?part \<le> 512"
      using b fl(1) pl by simp_all
    have "length cache = 512" using sec by (simp add: cache_def cc bytes_at_def)
    then obtain d where t: "dv_write_sector dev (sr_device r1) ?sector cache = (d, True)"
      using assms(2) sec(1) unfolding disk_live_def by (metis prod.collapse)
    note wr = write_cached [OF assms(1) t [unfolded cache_def cc] sec(2,1), folded cc, folded cache_def]
    let ?r = "r1\<lparr>sr_device := d, sr_cache := cache\<rparr>"
    have e: "sr_write_loop dev ?r (offset + ucast chunk) (address + chunk) (count - chunk) (drop (unat chunk) input) = (r', ok)"
      using less.prems(1) 3 f t c
      by (subst (asm) sr_write_loop.simps) (simp add: Let_def within_def [symmetric] chunk_def [symmetric])
    have co: "coherent img ?r" using wr(1,3) fl b(3) by (simp add: coherent_def)
    have m: "unat (count - chunk) < unat count" "unat (offset + ucast chunk) + unat (count - chunk) \<le> length (img (sr_device ?r))"
      "length (drop (unat chunk) input) = unat (count - chunk)"
      using b less.prems(3,4) wr(1) fl(1) by simp_all
    from less.hyps [OF m(1) e co m(2,3)] show ?thesis .
  qed
qed

lemma range_guard:
  assumes "disk_ok dev img" "unat offset + unat (count :: u32) \<le> length (img (sr_device r))"
  shows "offset \<le> sr_size dev r" "ucast count \<le> sr_size dev r - offset"
proof -
  have u: "unat (ucast count :: u64) = unat count" by (simp add: unsigned_ucast_eq take_bit_nat_def less_trans [OF unat_u32_less])
  note z = disk_size [OF assms(1), of r]
  show "offset \<le> sr_size dev r" using assms(2) z by (simp add: word_le_nat_alt)
  then show "ucast count \<le> sr_size dev r - offset"
    using assms(2) z u by (simp add: word_le_nat_alt unat_sub_if')
qed

lemma sr_read_live:
  assumes "disk_ok dev img" "disk_live dev img" "coherent img r" "sr_read dev r offset address count = (r', res)"
    "unat offset + unat count \<le> length (img (sr_device r))" "address \<noteq> 0 \<or> count = 0"
  shows "res \<noteq> None"
  using assms(4,6) range_guard [OF assms(1,5)] sr_read_loop_live [OF assms(1,2) _ assms(3,5)]
  by (auto simp: sr_read_def not_less split: if_splits)

lemma sr_write_live:
  assumes "disk_ok dev img" "disk_live dev img" "coherent img r" "length input < 2 ^ 32"
    "sr_write dev r offset address input = (r', ok)"
    "unat offset + length input \<le> length (img (sr_device r))" "address \<noteq> 0 \<or> input = []"
  shows "ok"
proof -
  have len: "unat (of_nat (length input) :: u32) = length input"
    using assms(4) by (simp add: unat_of_nat take_bit_nat_def)
  then have range: "unat offset + unat (of_nat (length input) :: u32) \<le> length (img (sr_device r))" using assms(6) by simp
  then show ?thesis
    using assms(5,7) len range_guard [OF assms(1) range]
      sr_write_loop_live [OF assms(1,2) _ assms(3), of offset address "of_nat (length input)" input r' ok]
    by (auto simp: sr_write_def Let_def not_less split: if_splits)
qed



end
