(* ===== verification/Filesystem.thy ===== *)
theory Filesystem
  imports Sector_Reader
begin

text \<open>
  What the file systems share, \<^verbatim>\<open>drivers/fs/filesystem.hpp\<close>: the errors, names, little-endian fields, the
  overflow tests and the exact transfers. An operation that may fail is a function of the state that gives the
  state after it with an error or a value; \<open>fs_bind\<close> continues after a value and stops at the first error, which
  is what the early returns of the code do. Names and C strings are byte lists without the final zero; a null
  pointer is not a value of the model. The storage is a parameter with the operations of the \<open>WritableDevice\<close> concept.
\<close>

unbundle bit_operations_syntax

section \<open>Definitions\<close>

datatype fs_error =
    Fs_io | Fs_invalid_argument | Fs_invalid_format | Fs_unsupported | Fs_corrupt | Fs_out_of_bounds | Fs_not_found
  | Fs_not_directory | Fs_is_directory | Fs_loop | Fs_already_exists | Fs_no_space

type_synonym ('s, 'a) fs = "'s \<Rightarrow> 's \<times> (fs_error + 'a)"

definition fs_return :: "'a \<Rightarrow> ('s, 'a) fs" where
  "fs_return x s = (s, Inr x)"

definition fs_fail :: "fs_error \<Rightarrow> ('s, 'a) fs" where
  "fs_fail e s = (s, Inl e)"

definition fs_bind :: "('s, 'a) fs \<Rightarrow> ('a \<Rightarrow> ('s, 'b) fs) \<Rightarrow> ('s, 'b) fs" where
  "fs_bind m k s = (case m s of (s1, Inl e) \<Rightarrow> (s1, Inl e) | (s1, Inr x) \<Rightarrow> k x s1)"

text \<open>Running an operation for its effect and its outcome, which the code inspects instead of returning an error.\<close>

definition fs_try :: "('s, 'a) fs \<Rightarrow> (fs_error + 'a \<Rightarrow> ('s, 'b) fs) \<Rightarrow> ('s, 'b) fs" where
  "fs_try m k s = (case m s of (s1, x) \<Rightarrow> k x s1)"

definition fs_get :: "('s \<Rightarrow> 'a) \<Rightarrow> ('s, 'a) fs" where
  "fs_get f s = (s, Inr (f s))"

definition fs_modify :: "('s \<Rightarrow> 's) \<Rightarrow> ('s, unit) fs" where
  "fs_modify f s = (f s, Inr ())"

record 'd fs_device =
  fd_size :: "'d \<Rightarrow> u64"
  fd_read :: "'d \<Rightarrow> u64 \<Rightarrow> u32 \<Rightarrow> 'd \<times> u8 list option"
  fd_write :: "'d \<Rightarrow> u64 \<Rightarrow> u8 list \<Rightarrow> 'd \<times> bool"
  fd_flush :: "'d \<Rightarrow> 'd \<times> bool"

definition name_capacity :: nat where
  "name_capacity = 768"

definition ascii_upper :: "u8 \<Rightarrow> u8" where
  "ascii_upper c = (if c \<ge> 0x61 \<and> c \<le> 0x7a then c - 0x20 else c)"

definition name_equals :: "u8 list \<Rightarrow> u8 list \<Rightarrow> bool \<Rightarrow> bool" where
  "name_equals name other ascii_fold \<longleftrightarrow>
     length other = length name \<and>
     list_all2 (\<lambda>a b. (if ascii_fold then ascii_upper a else a) = (if ascii_fold then ascii_upper b else b)) name other"

definition little_u16 :: "u8 list \<Rightarrow> u16" where
  "little_u16 data = ucast (data ! 0) OR push_bit 8 (ucast (data ! 1))"

definition little_u32 :: "u8 list \<Rightarrow> u32" where
  "little_u32 data =
     ucast (data ! 0) OR push_bit 8 (ucast (data ! 1)) OR push_bit 16 (ucast (data ! 2)) OR push_bit 24 (ucast (data ! 3))"

definition little_u64 :: "u8 list \<Rightarrow> u64" where
  "little_u64 data = ucast (little_u32 data) OR push_bit 32 (ucast (little_u32 (drop 4 data)))"

definition power_of_two :: "u32 \<Rightarrow> bool" where
  "power_of_two value \<longleftrightarrow> value \<noteq> 0 \<and> value AND (value - 1) = 0"

definition add_overflows :: "u64 \<Rightarrow> u64 \<Rightarrow> bool" where
  "add_overflows left right \<longleftrightarrow> right > NOT 0 - left"

definition multiply_overflows :: "u64 \<Rightarrow> u64 \<Rightarrow> bool" where
  "multiply_overflows left right \<longleftrightarrow> left \<noteq> 0 \<and> right > NOT 0 div left"

definition read_exact :: "'d fs_device \<Rightarrow> u64 \<Rightarrow> u32 \<Rightarrow> ('d, u8 list) fs" where
  "read_exact dev offset sz d =
     (if offset > fd_size dev d \<or> ucast sz > fd_size dev d - offset then (d, Inl Fs_out_of_bounds)
      else case fd_read dev d offset sz of (d1, None) \<Rightarrow> (d1, Inl Fs_io) | (d1, Some bytes) \<Rightarrow> (d1, Inr bytes))"

definition write_exact :: "'d fs_device \<Rightarrow> u64 \<Rightarrow> u8 list \<Rightarrow> ('d, unit) fs" where
  "write_exact dev offset input d =
     (if offset > fd_size dev d \<or> of_nat (length input) > fd_size dev d - offset then (d, Inl Fs_out_of_bounds)
      else case fd_write dev d offset input of (d1, False) \<Rightarrow> (d1, Inl Fs_io) | (d1, True) \<Rightarrow> (d1, Inr ()))"

text \<open>The sector reader as such a storage, with the address its buffers have.\<close>

definition sector_store :: "'d sector_device \<Rightarrow> u32 \<Rightarrow> 'd sector_reader fs_device" where
  "sector_store dev address =
     \<lparr>fd_size = sr_size dev, fd_read = \<lambda>r offset sz. sr_read dev r offset address sz,
      fd_write = \<lambda>r offset input. sr_write dev r offset address input, fd_flush = sr_flush dev\<rparr>"

section \<open>Little-endian fields\<close>

text \<open>The bytes of a field in the order the code stores them.\<close>

definition bytes_u16 :: "u16 \<Rightarrow> u8 list" where
  "bytes_u16 w = [ucast w, ucast (drop_bit 8 w)]"

definition bytes_u32 :: "u32 \<Rightarrow> u8 list" where
  "bytes_u32 w = [ucast w, ucast (drop_bit 8 w), ucast (drop_bit 16 w), ucast (drop_bit 24 w)]"

lemma bytes_u16_inverse [simp]: "little_u16 (bytes_u16 w @ xs) = w"
  by (rule bit_word_eqI) (auto simp: little_u16_def bytes_u16_def bit_simps)

lemma u8_bit_high: "8 \<le> n \<Longrightarrow> \<not> bit (a :: u8) n"
  using bit_imp_le_length [of a n] by auto

lemma bytes_u32_inverse [simp]: "little_u32 (bytes_u32 w @ xs) = w"
proof (rule bit_word_eqI)
  fix n assume "n < LENGTH(32)"
  then consider "n < 8" | "8 \<le> n" "n < 16" | "16 \<le> n" "n < 24" | "24 \<le> n" "n < 32" by fastforce
  then show "bit (little_u32 (bytes_u32 w @ xs)) n \<longleftrightarrow> bit w n"
    by cases (auto simp: little_u32_def bytes_u32_def bit_simps)
qed

lemma little_u32_inverse: "length bs = 4 \<Longrightarrow> bytes_u32 (little_u32 bs) = bs"
proof -
  assume "length bs = 4"
  then obtain a b c d where bs: "bs = [a, b, c, d]"
    by (auto simp: numeral_eq_Suc length_Suc_conv)
  show ?thesis unfolding bs bytes_u32_def little_u32_def
    by (auto intro!: bit_word_eqI simp: bit_simps u8_bit_high)
qed

end
