(* ===== verification/Fat32_Names.thy ===== *)
theory Fat32_Names
  imports Filesystem
begin

text \<open>
  The names of the FAT32 driver, \<^verbatim>\<open>drivers/fs/fat32/fat32.hpp\<close>: short and long directory entries, UTF-8 and
  UTF-16, and the short alias of a long name. Shown: the long entries written for a name are read back as that name, for every
  name the driver accepts without the unit 0xffff, and what goes wrong with that unit and with
  aliases above nine.
\<close>

unbundle bit_operations_syntax

section \<open>Definitions\<close>

definition attribute_volume :: u8 where
  "attribute_volume = 0x08"

definition attribute_directory :: u8 where
  "attribute_directory = 0x10"

definition attribute_long_name :: u8 where
  "attribute_long_name = 0x0f"

subsection \<open>Reading names\<close>

record long_name_state =
  ln_characters :: "u16 list"
  ln_checksum :: u8
  ln_expected :: u8
  ln_parts :: u8
  ln_active :: bool

definition long_name_reset :: long_name_state where
  "long_name_reset = \<lparr>ln_characters = replicate 260 0xffff, ln_checksum = 0, ln_expected = 0, ln_parts = 0, ln_active = False\<rparr>"

definition short_checksum :: "u8 list \<Rightarrow> u8" where
  "short_checksum name = fold (\<lambda>b sum. (if sum AND 1 \<noteq> 0 then 0x80 else 0) + drop_bit 1 sum + b) (take 11 name) 0"

definition name_append :: "u8 \<Rightarrow> u8 list \<times> bool \<Rightarrow> u8 list \<times> bool" where
  "name_append byte st =
     (case st of (name, valid) \<Rightarrow> if length name \<ge> name_capacity then (name, False) else (name @ [byte], valid))"

definition append_utf8 :: "u32 \<Rightarrow> u8 list \<times> bool \<Rightarrow> u8 list \<times> bool" where
  "append_utf8 codepoint st =
     (if codepoint \<le> 0x7f then name_append (ucast codepoint) st
      else if codepoint \<le> 0x7ff then
        fold name_append [ucast (0xc0 OR drop_bit 6 codepoint), ucast (0x80 OR (codepoint AND 0x3f))] st
      else if codepoint \<le> 0xffff then
        fold name_append [ucast (0xe0 OR drop_bit 12 codepoint), ucast (0x80 OR (drop_bit 6 codepoint AND 0x3f)),
                          ucast (0x80 OR (codepoint AND 0x3f))] st
      else if codepoint \<le> 0x10ffff then
        fold name_append [ucast (0xf0 OR drop_bit 18 codepoint), ucast (0x80 OR (drop_bit 12 codepoint AND 0x3f)),
                          ucast (0x80 OR (drop_bit 6 codepoint AND 0x3f)), ucast (0x80 OR (codepoint AND 0x3f))] st
      else (fst st, False))"

function decode_long_loop :: "u16 list \<Rightarrow> nat \<Rightarrow> nat \<Rightarrow> u8 list \<times> bool \<Rightarrow> u8 list \<times> bool" where
  "decode_long_loop characters count index st =
     (if \<not> (snd st \<and> index < count) then st
      else let first = characters ! index
           in if first = 0 \<or> first = 0xffff then st
              else if first \<ge> 0xd800 \<and> first \<le> 0xdbff then
                (if index + 1 \<ge> count then (fst st, False)
                 else let second = characters ! (index + 1)
                      in if second < 0xdc00 \<or> second > 0xdfff then (fst st, False)
                         else decode_long_loop characters count (index + 2)
                                (append_utf8 (0x10000 + push_bit 10 (ucast first - 0xd800) + (ucast second - 0xdc00)) st))
              else if first \<ge> 0xdc00 \<and> first \<le> 0xdfff then (fst st, False)
              else decode_long_loop characters count (index + 1) (append_utf8 (ucast first) st))"
  by pat_completeness auto
termination
  by (relation "measure (\<lambda>(characters, count, index, st). count - index)") auto

definition decode_long_name :: "long_name_state \<Rightarrow> u8 list option" where
  "decode_long_name s =
     (case decode_long_loop (ln_characters s) (unat (ln_parts s) * 13) 0
             ([], ln_active s \<and> ln_expected s = 0 \<and> ln_parts s \<noteq> 0) of
        (name, valid) \<Rightarrow> if valid \<and> name \<noteq> [] then Some name else None)"

definition short_append :: "bool \<Rightarrow> u8 \<Rightarrow> u8 list \<Rightarrow> u8 list" where
  "short_append lowercase byte name =
     (let v1 = (if byte = 0x05 \<and> name = [] then 0xe5 else byte);
          v2 = (if lowercase \<and> v1 \<ge> 0x41 \<and> v1 \<le> 0x5a then v1 + 0x20 else v1)
      in name @ [v2])"

fun strip_spaces :: "u8 list \<Rightarrow> nat \<Rightarrow> nat" where
  "strip_spaces field 0 = 0"
| "strip_spaces field (Suc n) = (if field ! n = 0x20 then strip_spaces field n else Suc n)"

definition decode_short_name :: "u8 list \<Rightarrow> u8 list" where
  "decode_short_name entry =
     (let lowercase_base = entry ! 12 AND 0x08 \<noteq> 0; lowercase_extension = entry ! 12 AND 0x10 \<noteq> 0;
          base = fold (short_append lowercase_base) (take (strip_spaces entry 8) entry) [];
          extension_size = strip_spaces (drop 8 entry) 3
      in if extension_size \<noteq> 0
         then fold (short_append lowercase_extension) (take extension_size (drop 8 entry)) (base @ [0x2e])
         else base)"

definition character_offsets :: "nat list" where
  "character_offsets = [1, 3, 5, 7, 9, 14, 16, 18, 20, 22, 24, 28, 30]"

definition consume_long_entry :: "u8 list \<Rightarrow> long_name_state \<Rightarrow> long_name_state" where
  "consume_long_entry entry s =
     (let raw_ordinal = entry ! 0; ordinal = raw_ordinal AND 0x1f; last = raw_ordinal AND 0x40 \<noteq> 0
      in if ordinal = 0 \<or> ordinal > 20 \<or> entry ! 11 \<noteq> attribute_long_name \<or> entry ! 12 \<noteq> 0 \<or> little_u16 (drop 26 entry) \<noteq> 0
         then long_name_reset
         else let s1 = (if last
                        then long_name_reset\<lparr>ln_active := True, ln_parts := ordinal, ln_expected := ordinal, ln_checksum := entry ! 13\<rparr>
                        else s)
              in if \<not> ln_active s1 \<or> ordinal \<noteq> ln_expected s1 \<or> entry ! 13 \<noteq> ln_checksum s1 \<or> ordinal > ln_parts s1
                 then long_name_reset
                 else s1\<lparr>ln_characters := fold (\<lambda>i cs. cs[(unat ordinal - 1) * 13 + i := little_u16 (drop (character_offsets ! i) entry)])
                                            [0..<13] (ln_characters s1),
                         ln_expected := ln_expected s1 - 1\<rparr>)"

subsection \<open>Writing names\<close>

definition forbidden_name_byte :: "u8 \<Rightarrow> bool" where
  "forbidden_name_byte b \<longleftrightarrow> b < 0x20 \<or> b = 0x22 \<or> b = 0x2a \<or> b = 0x2f \<or> b = 0x3a \<or> b = 0x3c \<or> b = 0x3e \<or> b = 0x3f \<or>
     b = 0x5c \<or> b = 0x7c"

definition utf8_lead :: "u8 \<Rightarrow> (u32 \<times> nat) option" where
  "utf8_lead first =
     (if first < 0x80 then Some (ucast first, 0)
      else if first AND 0xe0 = 0xc0 then Some (ucast (first AND 0x1f), 1)
      else if first AND 0xf0 = 0xe0 then Some (ucast (first AND 0x0f), 2)
      else if first AND 0xf8 = 0xf0 then Some (ucast (first AND 0x07), 3)
      else None)"

text \<open>At the end of the string the byte read is the final zero, which is not a continuation.\<close>

fun utf8_continue :: "nat \<Rightarrow> u8 list \<Rightarrow> u32 \<Rightarrow> (u32 \<times> u8 list) option" where
  "utf8_continue 0 bytes codepoint = Some (codepoint, bytes)"
| "utf8_continue (Suc n) [] codepoint = None"
| "utf8_continue (Suc n) (byte # bytes) codepoint =
     (if byte AND 0xc0 \<noteq> 0x80 then None
      else utf8_continue n bytes (push_bit 6 codepoint OR ucast (byte AND 0x3f)))"

lemma utf8_continue_shorter: "utf8_continue n bytes cp = Some (cp', rest) \<Longrightarrow> length rest \<le> length bytes"
  by (induction n bytes cp rule: utf8_continue.induct) (auto split: if_splits)

function decode_utf8_loop :: "u8 list \<Rightarrow> u16 list \<Rightarrow> u16 list option" where
  "decode_utf8_loop [] units = Some units"
| "decode_utf8_loop (first # bytes) units =
     (if forbidden_name_byte first then None
      else case utf8_lead first of
             None \<Rightarrow> None
           | Some (lead, continuation) \<Rightarrow>
               (case utf8_continue continuation bytes lead of
                  None \<Rightarrow> None
                | Some (codepoint, rest) \<Rightarrow>
                    if (continuation = 1 \<and> codepoint < 0x80) \<or> (continuation = 2 \<and> codepoint < 0x800) \<or>
                       (continuation = 3 \<and> codepoint < 0x10000) \<or> codepoint > 0x10ffff \<or>
                       (codepoint \<ge> 0xd800 \<and> codepoint \<le> 0xdfff)
                    then None
                    else if codepoint \<le> 0xffff
                    then (if length units \<ge> 255 then None else decode_utf8_loop rest (units @ [ucast codepoint]))
                    else if length units > 253 then None
                    else decode_utf8_loop rest
                           (units @ [ucast (0xd800 + drop_bit 10 (codepoint - 0x10000)),
                                     ucast (0xdc00 + ((codepoint - 0x10000) AND 0x3ff))])))"
  by pat_completeness auto
termination
  by (relation "measure (\<lambda>(bytes, units). length bytes)") (auto dest!: utf8_continue_shorter)

definition decode_utf8_name :: "u8 list \<Rightarrow> u16 list option" where
  "decode_utf8_name name =
     (if name = [] then None
      else case decode_utf8_loop name [] of
             None \<Rightarrow> None
           | Some units \<Rightarrow>
               if units \<noteq> [] \<and> last units \<noteq> 0x20 \<and> last units \<noteq> 0x2e then Some units else None)"

definition name_parts :: "u16 list \<Rightarrow> nat" where
  "name_parts utf16 = (length utf16 + 12) div 13"

definition name_unit :: "u16 list \<Rightarrow> nat \<Rightarrow> u16" where
  "name_unit utf16 k = (if k < length utf16 then utf16 ! k else if k = length utf16 then 0 else 0xffff)"

definition long_entry :: "u16 list \<Rightarrow> u8 \<Rightarrow> nat \<Rightarrow> u8 list" where
  "long_entry utf16 checksum ordinal =
     (let raw = (replicate 32 0xff)
            [0 := of_nat ordinal OR (if ordinal = name_parts utf16 then 0x40 else 0), 11 := attribute_long_name, 12 := 0,
             13 := checksum, 26 := 0, 27 := 0]
      in fold (\<lambda>i raw. let v = name_unit utf16 ((ordinal - 1) * 13 + i)
                       in raw[character_offsets ! i := ucast v, character_offsets ! i + 1 := ucast (drop_bit 8 v)])
           [0..<13] raw)"

text \<open>The long entries of a name in the order they are written: the last part first.\<close>

definition long_entries :: "u16 list \<Rightarrow> u8 \<Rightarrow> u8 list list" where
  "long_entries utf16 checksum =
     map (\<lambda>disk_part. long_entry utf16 checksum (name_parts utf16 - disk_part)) [0..<name_parts utf16]"

subsection \<open>Short aliases\<close>

definition alias_byte :: "u8 \<Rightarrow> u8 option" where
  "alias_byte b =
     (let v = ascii_upper b
      in if (v \<ge> 0x41 \<and> v \<le> 0x5a) \<or> (v \<ge> 0x30 \<and> v \<le> 0x39) \<or> v = 0x5f then Some v else None)"

fun alias_part :: "nat \<Rightarrow> u8 list \<Rightarrow> u8 list \<Rightarrow> u8 list" where
  "alias_part limit [] acc = acc"
| "alias_part limit (b # bs) acc =
     (if length acc \<ge> limit then acc
      else alias_part limit bs (case alias_byte b of None \<Rightarrow> acc | Some v \<Rightarrow> acc @ [v]))"

fun last_dot :: "u8 list \<Rightarrow> nat \<Rightarrow> nat option \<Rightarrow> nat option" where
  "last_dot [] i dot = dot"
| "last_dot (b # bs) i dot = last_dot bs (Suc i) (if b = 0x2e then Some i else dot)"

definition alias_base :: "u8 list \<Rightarrow> u8 list" where
  "alias_base name =
     (let base_end = (case last_dot name 0 None of None \<Rightarrow> length name | Some dot \<Rightarrow> dot);
          base = alias_part 6 (take base_end name) []
      in if base = [] then [0x5f] else base)"

definition alias_extension :: "u8 list \<Rightarrow> u8 list" where
  "alias_extension name =
     (case last_dot name 0 None of None \<Rightarrow> [] | Some dot \<Rightarrow> alias_part 3 (drop (dot + 1) name) [])"

definition copy_at :: "nat \<Rightarrow> u8 list \<Rightarrow> u8 list \<Rightarrow> u8 list" where
  "copy_at start bytes xs = fold (\<lambda>i xs. xs[start + i := bytes ! i]) [0..<length bytes] xs"

definition alias_candidate :: "u8 list \<Rightarrow> u8 list \<Rightarrow> nat \<Rightarrow> u8 list" where
  "alias_candidate base extension sequence =
     (let n = length base;
          a1 = (copy_at 0 base (replicate 11 0x20))[n := 0x7e];
          a2 = (if sequence < 10 then a1[n + 1 := 0x30 + of_nat sequence]
                else a1[n + 1 := 0x30 + of_nat (sequence div 10), n + 2 := 0x30 + of_nat (sequence mod 10)])
      in copy_at 8 extension a2)"

text \<open>The eleven bytes that the collision test rebuilds from the short name of an existing entry.\<close>

definition existing_alias :: "u8 list \<Rightarrow> u8 list" where
  "existing_alias short_name =
     (let base = map ascii_upper (take 8 (takeWhile (\<lambda>c. c \<noteq> 0x2e) short_name));
          rest = drop 1 (dropWhile (\<lambda>c. c \<noteq> 0x2e) short_name)
      in base @ replicate (8 - length base) 0x20 @
         map (\<lambda>i. if i < length rest then rest ! i else 0x20) [0..<3])"

definition short_entry :: "u8 list \<Rightarrow> u8 \<Rightarrow> u32 \<Rightarrow> u32 \<Rightarrow> u8 list" where
  "short_entry alias attributes first_cluster sz =
     (copy_at 0 (take 11 alias) (replicate 32 0))
       [11 := attributes, 20 := ucast (drop_bit 16 first_cluster), 21 := ucast (drop_bit 24 first_cluster),
        26 := ucast first_cluster, 27 := ucast (drop_bit 8 first_cluster), 28 := ucast sz,
        29 := ucast (drop_bit 8 sz), 30 := ucast (drop_bit 16 sz), 31 := ucast (drop_bit 24 sz)]"

declare decode_long_loop.simps [simp del]

section \<open>Long entries\<close>

lemma update_Cons_numeral: "(x # xs)[numeral n := v] = x # xs[pred_numeral n := v]"
  by (simp add: numeral_eq_Suc)

lemma replicate_numeral: "replicate (numeral n) x = x # replicate (pred_numeral n) x"
  by (simp add: numeral_eq_Suc)

lemma long_entry_bytes:
  fixes utf16 checksum ordinal
  defines "u \<equiv> \<lambda>i. name_unit utf16 ((ordinal - 1) * 13 + i)"
  shows "long_entry utf16 checksum ordinal =
    (of_nat ordinal OR (if ordinal = name_parts utf16 then 0x40 else 0)) #
    concat (map (\<lambda>i. bytes_u16 (u i)) [0, 1, 2, 3, 4]) @ [attribute_long_name, 0, checksum] @
    concat (map (\<lambda>i. bytes_u16 (u i)) [5, 6, 7, 8, 9, 10]) @ [0, 0] @ concat (map (\<lambda>i. bytes_u16 (u i)) [11, 12])"
proof -
  have u13: "[0..<13] = [0, 1, 2, 3, 4, 5, 6, 7, 8, 9, 10, 11, 12 :: nat]" by (simp add: upt_rec)
  show ?thesis
    unfolding u_def long_entry_def u13 character_offsets_def Let_def
    by (simp add: bytes_u16_def update_Cons_numeral replicate_numeral)
qed

lemma long_entry_fields:
  "long_entry utf16 checksum ordinal ! 0 = of_nat ordinal OR (if ordinal = name_parts utf16 then 0x40 else 0)"
  "long_entry utf16 checksum ordinal ! 11 = attribute_long_name"
  "long_entry utf16 checksum ordinal ! 12 = 0"
  "long_entry utf16 checksum ordinal ! 13 = checksum"
  "little_u16 (drop 26 (long_entry utf16 checksum ordinal)) = 0"
  unfolding long_entry_bytes by (simp_all add: bytes_u16_def little_u16_def)

lemma long_entry_units:
  assumes "i < 13"
  shows "little_u16 (drop (character_offsets ! i) (long_entry utf16 checksum ordinal)) = name_unit utf16 ((ordinal - 1) * 13 + i)"
proof -
  from assms have "i \<in> {0, 1, 2, 3, 4, 5, 6, 7, 8, 9, 10, 11, 12}" unfolding insert_iff empty_iff by arith
  then show ?thesis unfolding long_entry_bytes character_offsets_def
    by (elim insertE emptyE) (simp_all add: bytes_u16_inverse [of _ "[]", unfolded bytes_u16_def, simplified] bytes_u16_def
        bytes_u16_inverse [unfolded bytes_u16_def, simplified])
qed

section \<open>UTF-8 and UTF-16\<close>

definition utf8_step :: "u32 \<Rightarrow> u8 \<Rightarrow> u32" where
  "utf8_step cp b = push_bit 6 cp OR ucast (b AND 0x3f)"

lemma and_3f: "(b :: u8) AND 0x3f = take_bit 6 b" "(c :: u32) AND 0x3f = take_bit 6 c"
  by (simp_all add: take_bit_eq_mask mask_eq_exp_minus_1)

lemma small_take_bit: "unat w < 2 ^ k \<Longrightarrow> take_bit k w = (w :: 'a :: len word)"
  by (simp add: word_unat_eq_iff unsigned_take_bit_eq take_bit_nat_eq_self)

lemma small_bit: "unat w < 2 ^ k \<Longrightarrow> k \<le> n \<Longrightarrow> \<not> bit (w :: 'a :: len word) n"
  using small_take_bit [of w k] by (metis bit_take_bit_iff not_le)

lemma utf8_step_drop:
  assumes "unat cp < 2 ^ 26"
  shows "drop_bit 6 (utf8_step cp b) = cp"
proof (rule bit_word_eqI)
  fix n assume n: "n < LENGTH(32)"
  show "bit (drop_bit 6 (utf8_step cp b)) n \<longleftrightarrow> bit cp n"
    using small_bit [OF assms, of n] n by (cases "n < 26") (auto simp: utf8_step_def and_3f bit_simps)
qed

lemma utf8_step_low: "utf8_step cp b AND 0x3f = ucast (b AND 0x3f)"
  by (rule bit_word_eqI) (auto simp: utf8_step_def and_3f bit_simps)

lemma unat_utf8_step: "unat cp < 2 ^ 26 \<Longrightarrow> unat (utf8_step cp b) < (unat cp + 1) * 64"
proof -
  assume a: "unat cp < 2 ^ 26"
  have "unat (drop_bit 6 (utf8_step cp b)) = unat (utf8_step cp b) div 64"
    by (simp add: drop_bit_eq_div unat_div_distrib)
  then have "unat (utf8_step cp b) div 64 = unat cp" using utf8_step_drop [OF a] by simp
  then show ?thesis by auto
qed

lemma and_ff: "(b :: u8) AND 0xff = b"
proof -
  have "(0xff :: u8) = mask 8" by (simp add: mask_eq_exp_minus_1)
  then show ?thesis using small_take_bit [of b 8] unat_less_exp [of b] by (simp only: take_bit_eq_mask [symmetric]) simp
qed

lemma continuation_byte: "(b :: u8) AND 0xc0 = 0x80 \<Longrightarrow> 0x80 OR (b AND 0x3f) = b"
proof -
  assume "b AND 0xc0 = 0x80"
  moreover have "b = b AND (0xc0 OR 0x3f)" by (simp add: and_ff)
  ultimately show ?thesis by (metis bit.conj_disj_distrib)
qed

lemma lead_byte:
  "(f :: u8) AND 0xe0 = 0xc0 \<Longrightarrow> 0xc0 OR (f AND 0x1f) = f"
  "(f :: u8) AND 0xf0 = 0xe0 \<Longrightarrow> 0xe0 OR (f AND 0x0f) = f"
  "(f :: u8) AND 0xf8 = 0xf0 \<Longrightarrow> 0xf0 OR (f AND 0x07) = f"
proof -
  have "f = f AND (0xe0 OR 0x1f)" "f = f AND (0xf0 OR 0x0f)" "f = f AND (0xf8 OR 0x07)" by (simp_all add: and_ff)
  then show "f AND 0xe0 = 0xc0 \<Longrightarrow> 0xc0 OR (f AND 0x1f) = f" "f AND 0xf0 = 0xe0 \<Longrightarrow> 0xe0 OR (f AND 0x0f) = f"
    "f AND 0xf8 = 0xf0 \<Longrightarrow> 0xf0 OR (f AND 0x07) = f"
    by (metis bit.conj_disj_distrib)+
qed

definition utf8_bytes :: "u32 \<Rightarrow> u8 list" where
  "utf8_bytes cp =
     (if cp \<le> 0x7f then [ucast cp]
      else if cp \<le> 0x7ff then [ucast (0xc0 OR drop_bit 6 cp), ucast (0x80 OR (cp AND 0x3f))]
      else if cp \<le> 0xffff then
        [ucast (0xe0 OR drop_bit 12 cp), ucast (0x80 OR (drop_bit 6 cp AND 0x3f)), ucast (0x80 OR (cp AND 0x3f))]
      else [ucast (0xf0 OR drop_bit 18 cp), ucast (0x80 OR (drop_bit 12 cp AND 0x3f)),
            ucast (0x80 OR (drop_bit 6 cp AND 0x3f)), ucast (0x80 OR (cp AND 0x3f))])"

definition utf16_units :: "u32 \<Rightarrow> u16 list" where
  "utf16_units cp =
     (if cp \<le> 0xffff then [ucast cp]
      else [ucast (0xd800 + drop_bit 10 (cp - 0x10000)), ucast (0xdc00 + ((cp - 0x10000) AND 0x3ff))])"

definition scalar :: "u32 \<Rightarrow> bool" where
  "scalar cp \<longleftrightarrow> cp \<noteq> 0 \<and> cp \<le> 0x10ffff \<and> \<not> (0xd800 \<le> cp \<and> cp \<le> 0xdfff)"

lemma ucast_or8: "ucast (0x80 OR ucast (b :: u8) :: u32) = 0x80 OR b" "ucast (0xc0 OR ucast b :: u32) = 0xc0 OR b"
  "ucast (0xe0 OR ucast b :: u32) = 0xe0 OR b" "ucast (0xf0 OR ucast b :: u32) = 0xf0 OR b"
proof -
  have "ucast (ucast b :: u32) = b" by (rule bit_word_eqI) (simp add: bit_simps)
  then show "ucast (0x80 OR ucast (b :: u8) :: u32) = 0x80 OR b" "ucast (0xc0 OR ucast b :: u32) = 0xc0 OR b"
    "ucast (0xe0 OR ucast b :: u32) = 0xe0 OR b" "ucast (0xf0 OR ucast b :: u32) = 0xf0 OR b"
    by (simp_all add: unsigned_or_eq)
qed

lemma drop_bit_steps: "drop_bit 12 (w :: u32) = drop_bit 6 (drop_bit 6 w)" "drop_bit 18 w = drop_bit 6 (drop_bit 6 (drop_bit 6 w))"
  by (simp_all add: drop_bit_drop_bit)

lemma utf8_continue_steps:
  "utf8_continue 1 bytes lead = Some (cp, rest) \<Longrightarrow>
     \<exists>b. bytes = b # rest \<and> b AND 0xc0 = 0x80 \<and> cp = utf8_step lead b"
  "utf8_continue 2 bytes lead = Some (cp, rest) \<Longrightarrow>
     \<exists>b c. bytes = b # c # rest \<and> b AND 0xc0 = 0x80 \<and> c AND 0xc0 = 0x80 \<and> cp = utf8_step (utf8_step lead b) c"
  "utf8_continue 3 bytes lead = Some (cp, rest) \<Longrightarrow>
     \<exists>b c d. bytes = b # c # d # rest \<and> b AND 0xc0 = 0x80 \<and> c AND 0xc0 = 0x80 \<and> d AND 0xc0 = 0x80 \<and>
       cp = utf8_step (utf8_step (utf8_step lead b) c) d"
proof -
  have one: "utf8_continue (Suc n) bytes lead = Some (cp, rest) \<Longrightarrow>
     \<exists>b bs. bytes = b # bs \<and> b AND 0xc0 = 0x80 \<and> utf8_continue n bs (utf8_step lead b) = Some (cp, rest)" for n bytes lead
    by (cases bytes) (auto simp: utf8_step_def split: if_splits)
  show c1: "\<exists>b. bytes = b # rest \<and> b AND 0xc0 = 0x80 \<and> cp = utf8_step lead b"
    if "utf8_continue 1 bytes lead = Some (cp, rest)" for bytes lead
    using one [of 0 bytes lead] that by auto
  show c2: "\<exists>b c. bytes = b # c # rest \<and> b AND 0xc0 = 0x80 \<and> c AND 0xc0 = 0x80 \<and> cp = utf8_step (utf8_step lead b) c"
    if "utf8_continue 2 bytes lead = Some (cp, rest)" for bytes lead
    using one [of 1 bytes lead] c1 that unfolding numeral_2_eq_2 One_nat_def by blast
  show "\<exists>b c d. bytes = b # c # d # rest \<and> b AND 0xc0 = 0x80 \<and> c AND 0xc0 = 0x80 \<and> d AND 0xc0 = 0x80 \<and>
       cp = utf8_step (utf8_step (utf8_step lead b) c) d"
    if "utf8_continue 3 bytes lead = Some (cp, rest)"
    using one [of 2 bytes lead] c2 that unfolding numeral_3_eq_3 numeral_2_eq_2 by blast
qed

lemma unat_and_le: "unat (w AND v) \<le> unat (v :: 'a :: len word)"
  by (metis and.commute word_and_le1 word_le_nat_alt)

lemma unat_ucast8: "unat (ucast (b :: u8) :: u32) = unat b"
  by (simp add: unsigned_ucast_eq take_bit_nat_eq_self less_trans [OF unat_less_exp])

lemma utf8_lead_cases:
  assumes "utf8_lead f = Some (lead, k)"
  obtains "k = 0" "lead = ucast f" "f < 0x80"
  | b where "k = 1" "lead = ucast b" "0xc0 OR b = f" "unat b < 32"
  | b where "k = 2" "lead = ucast b" "0xe0 OR b = f" "unat b < 16"
  | b where "k = 3" "lead = ucast b" "0xf0 OR b = f" "unat b < 8"
  using assms lead_byte [of f] unat_and_le [of f "0x1f"] unat_and_le [of f "0x0f"] unat_and_le [of f "0x07"]
  by (auto simp: utf8_lead_def split: if_splits)

lemma utf8_char:
  assumes "\<not> forbidden_name_byte f" "utf8_lead f = Some (lead, k)" "utf8_continue k bytes lead = Some (cp, rest)"
    "\<not> ((k = 1 \<and> cp < 0x80) \<or> (k = 2 \<and> cp < 0x800) \<or> (k = 3 \<and> cp < 0x10000) \<or> cp > 0x10ffff \<or> (cp \<ge> 0xd800 \<and> cp \<le> 0xdfff))"
  shows "scalar cp \<and> f # bytes = utf8_bytes cp @ rest"
  using assms(2)
proof (cases rule: utf8_lead_cases)
  case 1
  have c: "cp = ucast f" "rest = bytes" using assms(3) 1 by simp_all
  have "unat cp = unat f" "unat f < 128" "32 \<le> unat f"
    using 1(3) assms(1) by (simp_all add: c unat_ucast8 word_less_nat_alt word_le_nat_alt forbidden_name_byte_def)
  then have "cp \<le> 0x7f" "cp \<noteq> 0" by (auto simp: word_le_nat_alt)
  moreover have "ucast cp = f" unfolding c by (rule bit_word_eqI) (simp add: bit_simps)
  ultimately show ?thesis using assms(4) c(2) by (auto simp: scalar_def utf8_bytes_def not_less)
next
  case (2 x)
  obtain b where b: "bytes = b # rest" "b AND 0xc0 = 0x80" "cp = utf8_step lead b"
    using utf8_continue_steps(1) assms(3) 2(1) by blast
  have l: "unat lead < 32" using 2 by (simp add: unat_ucast8)
  have d: "drop_bit 6 cp = ucast x" "cp AND 0x3f = ucast (b AND 0x3f)" "unat cp < 2048"
    using utf8_step_drop [of lead b] unat_utf8_step [of lead b] l 2(2) by (simp_all add: b(3) utf8_step_low)
  have r: "cp \<ge> 0x80" "cp \<le> 0x7ff" using assms(4) 2(1) d(3) by (auto simp: word_le_nat_alt not_less)
  have "utf8_bytes cp = [0xc0 OR x, b]"
    using r continuation_byte [OF b(2)] by (auto simp: utf8_bytes_def d(1,2) ucast_or8 word_le_nat_alt)
  then show ?thesis using assms(4) r b(1) 2(3) by (auto simp: scalar_def not_less)
next
  case (3 x)
  obtain b c where b: "bytes = b # c # rest" "b AND 0xc0 = 0x80" "c AND 0xc0 = 0x80" "cp = utf8_step (utf8_step lead b) c"
    using utf8_continue_steps(2) assms(3) 3(1) by blast
  have l: "unat lead < 16" using 3 by (simp add: unat_ucast8)
  have m: "unat (utf8_step lead b) < 1024" using unat_utf8_step [of lead b] l by simp
  have d: "drop_bit 6 cp = utf8_step lead b" "cp AND 0x3f = ucast (c AND 0x3f)" "unat cp < 65536" "drop_bit 12 cp = ucast x"
    using utf8_step_drop [of lead b] utf8_step_drop [of "utf8_step lead b" c] unat_utf8_step [of "utf8_step lead b" c] l m 3(2)
    by (simp_all only: b(4) utf8_step_low drop_bit_steps) simp_all
  have r: "cp \<ge> 0x800" "cp \<le> 0xffff" using assms(4) 3(1) d(3) by (auto simp: word_le_nat_alt not_less)
  have "utf8_bytes cp = [0xe0 OR x, b, c]"
    using r continuation_byte [OF b(2)] continuation_byte [OF b(3)]
    by (auto simp: utf8_bytes_def d(2,4) ucast_or8 word_le_nat_alt) (simp_all add: d(1) utf8_step_low ucast_or8)
  then show ?thesis using assms(4) r b(1) 3(3) by (auto simp: scalar_def not_less)
next
  case (4 x)
  obtain b c e where b: "bytes = b # c # e # rest" "b AND 0xc0 = 0x80" "c AND 0xc0 = 0x80" "e AND 0xc0 = 0x80"
    "cp = utf8_step (utf8_step (utf8_step lead b) c) e"
    using utf8_continue_steps(3) assms(3) 4(1) by blast
  have l: "unat lead < 8" using 4 by (simp add: unat_ucast8)
  have m: "unat (utf8_step lead b) < 512" using unat_utf8_step [of lead b] l by simp
  have m2: "unat (utf8_step (utf8_step lead b) c) < 32768" using unat_utf8_step [of "utf8_step lead b" c] m by simp
  have d1: "drop_bit 6 cp = utf8_step (utf8_step lead b) c" using utf8_step_drop [of "utf8_step (utf8_step lead b) c" e] m2 b(5) by simp
  have d2: "drop_bit 12 cp = utf8_step lead b" using utf8_step_drop [of "utf8_step lead b" c] m by (simp only: drop_bit_steps d1) simp
  have d3: "drop_bit 18 cp = ucast x" using utf8_step_drop [of lead b] l 4(2) by (simp only: drop_bit_steps d2 [unfolded drop_bit_steps]) simp
  have low: "cp AND 0x3f = ucast (e AND 0x3f)" by (simp only: b(5) utf8_step_low)
  have r: "cp \<ge> 0x10000" "cp \<le> 0x10ffff" using assms(4) 4(1) by (auto simp: not_less)
  have "utf8_bytes cp = [ucast (0xf0 OR drop_bit 18 cp), ucast (0x80 OR (drop_bit 12 cp AND 0x3f)),
            ucast (0x80 OR (drop_bit 6 cp AND 0x3f)), ucast (0x80 OR (cp AND 0x3f))]"
    using r by (auto simp: utf8_bytes_def word_le_nat_alt)
  also have "\<dots> = [0xf0 OR x, b, c, e]"
    unfolding d1 d2 d3 low utf8_step_low ucast_or8 using continuation_byte [OF b(2)] continuation_byte [OF b(3)] continuation_byte [OF b(4)] by simp
  finally show ?thesis using assms(4) r b(1) 4(3) by (auto simp: scalar_def not_less)
qed

lemma decode_utf8_loop_scalars:
  "decode_utf8_loop name units = Some out \<Longrightarrow> length units \<le> 255 \<Longrightarrow>
     length out \<le> 255 \<and> (\<exists>cps. list_all scalar cps \<and> name = concat (map utf8_bytes cps) \<and> out = units @ concat (map utf16_units cps))"
proof (induction name units rule: decode_utf8_loop.induct)
  case (1 units)
  then show ?case by (auto intro: exI [of _ "[]"])
next
  case (2 f bytes units)
  from 2(3) obtain lead k cp rest where c: "\<not> forbidden_name_byte f" "utf8_lead f = Some (lead, k)"
    "utf8_continue k bytes lead = Some (cp, rest)"
    "\<not> ((k = 1 \<and> cp < 0x80) \<or> (k = 2 \<and> cp < 0x800) \<or> (k = 3 \<and> cp < 0x10000) \<or> cp > 0x10ffff \<or> (cp \<ge> 0xd800 \<and> cp \<le> 0xdfff))"
    by (auto split: if_splits option.splits)
  note u = utf8_char [OF c]
  have e: "decode_utf8_loop rest (units @ utf16_units cp) = Some out" "length (units @ utf16_units cp) \<le> 255"
    using 2(3) c by (auto simp: utf16_units_def split: if_splits)
  have "length out \<le> 255 \<and> (\<exists>cps. list_all scalar cps \<and> rest = concat (map utf8_bytes cps) \<and>
      out = (units @ utf16_units cp) @ concat (map utf16_units cps))"
  proof (cases "cp \<le> 0xffff")
    case True
    have uu: "utf16_units cp = [ucast cp]" using True by (simp add: utf16_units_def)
    have "\<not> 255 \<le> length units" using e(2) uu by simp
    from 2(1) [OF c(1,2) refl c(3) refl c(4) True this] e show ?thesis by (simp add: uu)
  next
    case False
    have uu: "utf16_units cp = [ucast (0xd800 + drop_bit 10 (cp - 0x10000)), ucast (0xdc00 + ((cp - 0x10000) AND 0x3ff))]"
      using False by (simp add: utf16_units_def)
    have "\<not> 253 < length units" using e(2) uu by simp
    from 2(2) [OF c(1,2) refl c(3) refl c(4) False this] e show ?thesis by (simp add: uu)
  qed
  then show ?case using u by (auto intro: exI [of _ "cp # _"])
qed

lemma utf8_length: "length (utf8_bytes cp) \<le> 3 * length (utf16_units cp)"
  by (auto simp: utf8_bytes_def utf16_units_def word_le_nat_alt)

lemma concat_utf8_length: "length (concat (map utf8_bytes cps)) \<le> 3 * length (concat (map utf16_units cps))"
  by (induction cps) (auto intro: order.trans [OF add_mono [OF utf8_length]] simp: algebra_simps)

lemma append_utf8_bytes:
  "cp \<le> 0x10ffff \<Longrightarrow> length name + length (utf8_bytes cp) \<le> 768 \<Longrightarrow> append_utf8 cp (name, v) = (name @ utf8_bytes cp, v)"
  by (auto simp: append_utf8_def utf8_bytes_def name_append_def name_capacity_def split: if_splits)

lemma utf16_bmp:
  assumes "scalar cp" "cp \<le> 0xffff"
  shows "ucast (ucast cp :: u16) = cp" "ucast cp \<noteq> (0 :: u16)" "\<not> (0xd800 \<le> (ucast cp :: u16) \<and> (ucast cp :: u16) \<le> 0xdbff)"
    "\<not> (0xdc00 \<le> (ucast cp :: u16) \<and> (ucast cp :: u16) \<le> 0xdfff)"
proof -
  have l: "unat cp < 65536" using assms(2) by (simp add: word_le_nat_alt)
  then have u: "unat (ucast cp :: u16) = unat cp" by (simp add: unsigned_ucast_eq unsigned_take_bit_eq take_bit_nat_eq_self)
  show e: "ucast (ucast cp :: u16) = cp"
    using l by (simp add: word_unat_eq_iff unsigned_ucast_eq unsigned_take_bit_eq take_bit_nat_eq_self)
  show "ucast cp \<noteq> (0 :: u16)" using assms(1) e by (auto simp: scalar_def)
  show "\<not> (0xd800 \<le> (ucast cp :: u16) \<and> (ucast cp :: u16) \<le> 0xdbff)"
    "\<not> (0xdc00 \<le> (ucast cp :: u16) \<and> (ucast cp :: u16) \<le> 0xdfff)"
    using assms(1) by (auto simp: scalar_def word_le_nat_alt u)
qed

lemma utf16_astral:
  fixes cp :: u32
  assumes "cp \<le> 0x10ffff" "\<not> cp \<le> 0xffff"
  defines "hi \<equiv> (ucast (0xd800 + drop_bit 10 (cp - 0x10000)) :: u16)" and "lo \<equiv> (ucast (0xdc00 + ((cp - 0x10000) AND 0x3ff)) :: u16)"
  shows "0xd800 \<le> hi" "hi \<le> 0xdbff" "0xdc00 \<le> lo" "lo \<le> 0xdfff"
    "0x10000 + push_bit 10 (ucast hi - 0xd800) + (ucast lo - 0xdc00) = cp"
proof -
  let ?c = "cp - 0x10000"
  have c: "unat ?c = unat cp - 65536" "unat ?c < 1048576" "65536 \<le> unat cp"
    using assms(1,2) by (simp_all add: word_le_nat_alt unat_sub_if')
  have d: "unat (drop_bit 10 ?c) = unat ?c div 1024" by (simp add: drop_bit_eq_div unat_div_distrib)
  have "(0x3ff :: u32) = mask 10" by (simp add: mask_eq_exp_minus_1)
  then have m: "unat (?c AND 0x3ff) = unat ?c mod 1024" by (simp only: and_mask_unat) simp
  have "unat ?c div 1024 < 1024" using c(2) by (simp add: less_mult_imp_div_less)
  then have h: "unat hi = 55296 + unat ?c div 1024" "unat hi < 56320"
    unfolding hi_def by (simp_all add: unsigned_ucast_eq unat_add_fits d take_bit_nat_eq_self)
  have "unat ?c mod 1024 < 1024" by simp
  then have l: "unat lo = 56320 + unat ?c mod 1024" "unat lo < 57344"
    unfolding lo_def by (simp_all add: unsigned_ucast_eq unat_add_fits m take_bit_nat_eq_self)
  show "0xd800 \<le> hi" "hi \<le> 0xdbff" "0xdc00 \<le> lo" "lo \<le> 0xdfff" using h l by (simp_all add: word_le_nat_alt)
  have uh: "unat (ucast hi - 0xd800 :: u32) = unat ?c div 1024"
    using h by (simp add: unat_sub_if' unsigned_ucast_eq take_bit_nat_eq_self)
  have ul: "unat (ucast lo - 0xdc00 :: u32) = unat ?c mod 1024"
    using l by (simp add: unat_sub_if' unsigned_ucast_eq take_bit_nat_eq_self)
  define v w where "v = (ucast hi - 0xd800 :: u32)" and "w = (ucast lo - 0xdc00 :: u32)"
  have "unat (push_bit 10 v) = unat v * 1024"
    using c(2) uh [folded v_def] by (simp add: push_bit_eq_mult unat_word_ariths)
  then have "unat (0x10000 + push_bit 10 v + w) = 65536 + unat ?c div 1024 * 1024 + unat ?c mod 1024"
    using c(2) uh ul by (simp add: unat_word_ariths v_def [symmetric] w_def [symmetric])
  also have "\<dots> = unat cp" using c(1,3) div_mult_mod_eq [of "unat ?c" 1024] by linarith
  finally show "0x10000 + push_bit 10 (ucast hi - 0xd800) + (ucast lo - 0xdc00) = cp"
    unfolding v_def [symmetric] w_def [symmetric] word_unat_eq_iff .
qed

lemma decode_long_loop_scalars:
  assumes "list_all scalar cps" "0xffff \<notin> set (concat (map utf16_units cps))"
    "\<forall>j < length (concat (map utf16_units cps)). chars ! (i + j) = concat (map utf16_units cps) ! j"
    "i + length (concat (map utf16_units cps)) = count \<or>
     i + length (concat (map utf16_units cps)) < count \<and> chars ! (i + length (concat (map utf16_units cps))) = 0"
    "length name + length (concat (map utf8_bytes cps)) \<le> 768"
  shows "decode_long_loop chars count i (name, True) = (name @ concat (map utf8_bytes cps), True)"
  using assms
proof (induction cps arbitrary: i name)
  case Nil
  then show ?case by (subst decode_long_loop.simps) (auto simp: Let_def)
next
  case (Cons cp cps)
  let ?us = "concat (map utf16_units cps)"
  have s: "scalar cp" "cp \<le> 0x10ffff" using Cons.prems(1) by (simp_all add: scalar_def)
  have ap: "append_utf8 cp (name, True) = (name @ utf8_bytes cp, True)"
    using append_utf8_bytes [OF s(2)] Cons.prems(5) by simp
  let ?n = "length (utf16_units cp)"
  have tail: "\<forall>j < length ?us. chars ! (i + ?n + j) = ?us ! j"
  proof (intro allI impI)
    fix j assume "j < length ?us"
    then have "?n + j < length (concat (map utf16_units (cp # cps)))" by simp
    from Cons.prems(3) [rule_format, OF this] show "chars ! (i + ?n + j) = ?us ! j" by (simp add: nth_append add.assoc)
  qed
  have rest: "decode_long_loop chars count (i + ?n) (name @ utf8_bytes cp, True) = (name @ concat (map utf8_bytes (cp # cps)), True)"
    using Cons.IH [of "i + ?n" "name @ utf8_bytes cp"] Cons.prems tail by (simp add: add.assoc)
  have head: "j < ?n \<Longrightarrow> chars ! (i + j) = utf16_units cp ! j" for j
    using Cons.prems(3) [rule_format, of j] by (simp add: nth_append)
  show ?case
  proof (cases "cp \<le> 0xffff")
    case True
    have u: "utf16_units cp = [ucast cp]" using True by (simp add: utf16_units_def)
    have "chars ! i = ucast cp" "ucast cp \<noteq> (0xffff :: u16)" "i < count" using head [of 0] Cons.prems(2,4) u by auto
    with utf16_bmp [OF s(1) True] ap rest u show ?thesis
      by (subst decode_long_loop.simps) (auto simp: Let_def)
  next
    case False
    note a = utf16_astral [OF s(2) False]
    have u: "utf16_units cp = [ucast (0xd800 + drop_bit 10 (cp - 0x10000)), ucast (0xdc00 + ((cp - 0x10000) AND 0x3ff))]"
      using False by (simp add: utf16_units_def)
    define hi lo where "hi = utf16_units cp ! 0" and "lo = utf16_units cp ! 1"
    have c: "chars ! i = hi" "chars ! (i + 1) = lo" "i + 1 < count" "i < count" using head [of 0] head [of 1] Cons.prems(4) u by (auto simp: hi_def lo_def)
    have b: "0xd800 \<le> hi" "hi \<le> 0xdbff" "0xdc00 \<le> lo" "lo \<le> 0xdfff"
      "0x10000 + push_bit 10 (ucast hi - 0xd800) + (ucast lo - 0xdc00) = cp"
      using a unfolding hi_def lo_def u by simp_all
    have n: "hi \<noteq> 0" "hi \<noteq> 0xffff" using b(1,2) by (auto simp: word_le_nat_alt)
    have "decode_long_loop chars count i (name, True) = decode_long_loop chars count (i + 2) (append_utf8 cp (name, True))"
      using b(1-4) n c by (subst decode_long_loop.simps) (simp add: Let_def b(5) leD)
    then show ?thesis using ap rest u by simp
  qed
qed

section \<open>Reading back long entries\<close>

lemma set_units:
  "base + n \<le> length cs \<Longrightarrow> length (fold (\<lambda>i cs. cs[base + i := f i]) [0..<n] cs) = length cs \<and>
     (\<forall>j < length cs. fold (\<lambda>i cs. cs[base + i := f i]) [0..<n] cs ! j = (if base \<le> j \<and> j < base + n then f (j - base) else cs ! j))"
proof (induction n)
  case (Suc n)
  then show ?case by (auto simp: nth_list_update less_Suc_eq)
qed auto

text \<open>What the state must be when the entries down to ordinal \<open>k + 1\<close> of a name with \<open>p\<close> parts were read.\<close>

definition units_read :: "u16 list \<Rightarrow> u8 \<Rightarrow> nat \<Rightarrow> nat \<Rightarrow> long_name_state \<Rightarrow> bool" where
  "units_read utf16 checksum p k s \<longleftrightarrow>
     ln_active s \<and> ln_parts s = of_nat p \<and> ln_expected s = of_nat k \<and> ln_checksum s = checksum \<and>
     length (ln_characters s) = 260 \<and> (\<forall>j. 13 * k \<le> j \<and> j < 13 * p \<longrightarrow> ln_characters s ! j = name_unit utf16 j)"

lemma ordinal_byte:
  assumes "0 < k" "k \<le> 20"
  shows "(of_nat k OR (if b then 0x40 else 0) :: u8) AND 0x1f = of_nat k"
    "(of_nat k OR (if b then 0x40 else 0) :: u8) AND 0x40 \<noteq> 0 \<longleftrightarrow> b"
    "(of_nat k :: u8) \<noteq> 0" "\<not> (of_nat k :: u8) > 20" "unat (of_nat k :: u8) = k"
proof -
  have "k \<in> {1, 2, 3, 4, 5, 6, 7, 8, 9, 10, 11, 12, 13, 14, 15, 16, 17, 18, 19, 20}"
    using assms unfolding insert_iff empty_iff by arith
  then show "(of_nat k OR (if b then 0x40 else 0) :: u8) AND 0x1f = of_nat k"
    "(of_nat k OR (if b then 0x40 else 0) :: u8) AND 0x40 \<noteq> 0 \<longleftrightarrow> b"
    "(of_nat k :: u8) \<noteq> 0" "\<not> (of_nat k :: u8) > 20" "unat (of_nat k :: u8) = k"
    by (elim insertE emptyE; cases b; simp)+
qed

lemma consume_long_entry_step:
  fixes utf16 checksum
  defines "p \<equiv> name_parts utf16"
  assumes "0 < k" "k \<le> p" "p \<le> 20" "k < p \<Longrightarrow> units_read utf16 checksum p k s"
  shows "units_read utf16 checksum p (k - 1) (consume_long_entry (long_entry utf16 checksum k) s)"
proof -
  have k20: "k \<le> 20" using assms(3,4) by simp
  note k = ordinal_byte [OF assms(2) k20]
  define s1 where "s1 = (if k = p then long_name_reset\<lparr>ln_active := True, ln_parts := of_nat k, ln_expected := of_nat k, ln_checksum := checksum\<rparr> else s)"
  have r: "units_read utf16 checksum p k s1"
    using assms(3,5) by (auto simp: s1_def units_read_def long_name_reset_def)
  have le: "\<not> (of_nat k :: u8) > of_nat p"
    using assms(2-4) ordinal_byte(5) [of k] ordinal_byte(5) [of p] by (simp add: word_less_nat_alt)
  let ?f = "\<lambda>i. little_u16 (drop (character_offsets ! i) (long_entry utf16 checksum k))"
  have c: "consume_long_entry (long_entry utf16 checksum k) s =
      s1\<lparr>ln_characters := fold (\<lambda>i cs. cs[(k - 1) * 13 + i := ?f i]) [0..<13] (ln_characters s1), ln_expected := ln_expected s1 - 1\<rparr>"
    using r le unfolding consume_long_entry_def long_entry_fields Let_def p_def [symmetric] k(1,2,5)
    by (simp add: k s1_def [symmetric] units_read_def)
  have len: "(k - 1) * 13 + 13 \<le> length (ln_characters s1)" using r k20 assms(2) by (simp add: units_read_def)
  note st = set_units [OF len, of ?f]
  have e: "(of_nat k - 1 :: u8) = of_nat (k - 1)" using assms(2) by (simp add: of_nat_diff)
  have ch: "fold (\<lambda>i cs. cs[(k - 1) * 13 + i := ?f i]) [0..<13] (ln_characters s1) ! j = name_unit utf16 j"
    if "13 * (k - 1) \<le> j" "j < 13 * p" for j
  proof (cases "j < 13 * k")
    case True
    then show ?thesis using st that r assms(2-4) long_entry_units [of "j - (k - 1) * 13" utf16 checksum k]
      by (auto simp: units_read_def mult.commute)
  next
    case False
    then show ?thesis using st that r assms(2-4) by (auto simp: units_read_def mult.commute)
  qed
  show ?thesis unfolding c using r st ch e by (simp add: units_read_def)
qed

lemma consume_long_entries:
  fixes utf16 checksum
  defines "p \<equiv> name_parts utf16"
  assumes "0 < p" "p \<le> 20" "n \<le> p" "0 < n"
  shows "units_read utf16 checksum p (p - n) (fold consume_long_entry (take n (long_entries utf16 checksum)) s)"
  using assms(4,5)
proof (induction n)
  case (Suc n)
  have l: "length (long_entries utf16 checksum) = p" by (simp add: long_entries_def p_def)
  have t: "take (Suc n) (long_entries utf16 checksum) = take n (long_entries utf16 checksum) @ [long_entry utf16 checksum (p - n)]"
    using Suc.prems(1) l by (simp add: take_Suc_conv_app_nth) (simp add: long_entries_def p_def)
  have "units_read utf16 checksum p (p - n) (fold consume_long_entry (take n (long_entries utf16 checksum)) s)" if "p - n < p"
    using Suc that by simp
  from consume_long_entry_step [of "p - n" utf16 checksum, folded p_def, OF _ _ assms(3) this] Suc.prems
  show ?case unfolding t by simp
qed simp

text \<open>
  The long name entries written for a name are read back as that name: after the entries are consumed in
  the order they lie on the disk, the reader expects no more, holds the checksum and decodes exactly the bytes of
  the name, for every name that is accepted and does not contain the unit 0xffff.
\<close>

theorem long_name_round_trip:
  assumes "decode_utf8_name name = Some utf16" "0xffff \<notin> set utf16"
  shows "let s = fold consume_long_entry (long_entries utf16 checksum) st
     in ln_active s \<and> ln_expected s = 0 \<and> ln_checksum s = checksum \<and> decode_long_name s = Some name"
proof -
  define p where "p = name_parts utf16"
  have d: "decode_utf8_loop name [] = Some utf16" "utf16 \<noteq> []" "name \<noteq> []"
    using assms(1) by (auto simp: decode_utf8_name_def split: if_splits option.splits)
  obtain cps where c: "length utf16 \<le> 255" "list_all scalar cps" "name = concat (map utf8_bytes cps)" "utf16 = concat (map utf16_units cps)"
    using decode_utf8_loop_scalars [OF d(1)] by auto
  have "13 \<le> length utf16 + 12" using d(2) by (cases utf16) simp_all
  then have p: "0 < p" "p \<le> 20" "length utf16 \<le> 13 * p" using c(1) by (auto simp: p_def name_parts_def div_greater_zero_iff)
  define s where "s = fold consume_long_entry (long_entries utf16 checksum) st"
  have r: "units_read utf16 checksum p 0 s"
    using consume_long_entries [of utf16 p checksum st, folded p_def, OF p(1,2) order.refl p(1)]
    by (simp add: s_def long_entries_def p_def)
  have ch: "ln_characters s ! j = name_unit utf16 j" if "j < 13 * p" for j using r that by (simp add: units_read_def)
  have "decode_long_loop (ln_characters s) (p * 13) 0 ([], True) = ([] @ concat (map utf8_bytes cps), True)"
  proof (rule decode_long_loop_scalars [OF c(2)], fold c(4))
    show "0xffff \<notin> set utf16" by (rule assms)
    show "\<forall>j < length utf16. ln_characters s ! (0 + j) = utf16 ! j" using ch p(3) by (simp add: name_unit_def)
    show "0 + length utf16 = p * 13 \<or> 0 + length utf16 < p * 13 \<and> ln_characters s ! (0 + length utf16) = 0"
      using ch [of "length utf16"] p(3) by (auto simp: name_unit_def)
    show "length ([] :: u8 list) + length (concat (map utf8_bytes cps)) \<le> 768"
      using concat_utf8_length [of cps] c(1,4) by simp
  qed
  then have "decode_long_name s = Some name"
    using r p ordinal_byte(3,5) [of p] d(3) c(3) by (simp add: decode_long_name_def units_read_def)
  then show ?thesis using r by (simp add: s_def [symmetric] units_read_def)
qed

definition demo_name :: "u8 list" where
  "demo_name = [0x63, 0xc3, 0xa9, 0x2e, 0xf0, 0x9f, 0x98, 0x80]"

theorem long_name_round_trip_witness:
  "decode_utf8_name demo_name = Some [0x63, 0xe9, 0x2e, 0xd83d, 0xde00] \<and>
   decode_long_name (fold consume_long_entry (long_entries [0x63, 0xe9, 0x2e, 0xd83d, 0xde00] 7) long_name_reset) = Some demo_name"
proof -
  have d: "decode_utf8_name demo_name = Some [0x63, 0xe9, 0x2e, 0xd83d, 0xde00]" by code_simp
  have "0xffff \<notin> set [0x63, 0xe9, 0x2e, 0xd83d, 0xde00 :: u16]" by simp
  from long_name_round_trip [OF d this, of 7 long_name_reset] d show ?thesis by (simp add: Let_def)
qed

section \<open>Short aliases\<close>

lemma copy_at_Nil [simp]: "copy_at start [] xs = xs"
  by (simp add: copy_at_def)

lemma copy_at_Cons: "copy_at start (b # bs) xs = copy_at (Suc start) bs (xs[start := b])"
proof -
  have "[0..<length (b # bs)] = 0 # map Suc [0..<length bs]"
    by (simp only: length_Cons map_Suc_upt upt_conv_Cons zero_less_Suc)
  then show ?thesis unfolding copy_at_def by (simp add: fold_map comp_def)
qed

text \<open>
  With a base of six bytes the second digit of a sequence number above nine lies in the extension, where a
  nonempty extension overwrites it.
\<close>

lemma alias_digit_lost:
  assumes "length base = 6" "ext \<noteq> []" "10 \<le> k" "k < 100"
  shows "alias_candidate base ext k = alias_candidate base ext (k div 10)"
proof -
  obtain e es where e: "ext = e # es" using assms(2) by (cases ext) auto
  obtain a b c d f g where b: "base = [a, b, c, d, f, g]"
    using assms(1) by (auto simp: numeral_eq_Suc length_Suc_conv)
  have "k div 10 < 10" using assms(4) by auto
  then show ?thesis using assms(3) unfolding b e
    by (simp add: alias_candidate_def copy_at_Cons Let_def update_Cons_numeral replicate_numeral list_update_overwrite)
qed

text \<open>
  Three gaps of the name code. A name with the unit 0xffff is accepted and written, but read back cut off at
  that unit. The alias search tries at most nine different aliases for a base of six bytes with an
  extension: every number above nine gives an alias that was tried before. And the collision test
  does not recognise an entry whose extension is marked as lower case, although it has the same eleven bytes.
\<close>

theorem fat_name_gaps:
  "(decode_utf8_name [0x61, 0xef, 0xbf, 0xbf, 0x62] = Some [0x61, 0xffff, 0x62] \<and>
    decode_long_name (fold consume_long_entry (long_entries [0x61, 0xffff, 0x62] 0) long_name_reset) = Some [0x61]) \<and>
   (\<forall>name k. length (alias_base name) = 6 \<longrightarrow> alias_extension name \<noteq> [] \<longrightarrow> 10 \<le> k \<longrightarrow> k < 100 \<longrightarrow>
      alias_candidate (alias_base name) (alias_extension name) k = alias_candidate (alias_base name) (alias_extension name) (k div 10)) \<and>
   (let entry = (short_entry (alias_candidate [0x41] [0x54] 1) 0x20 0 0)[12 := 0x10]
    in take 11 entry = alias_candidate [0x41] [0x54] 1 \<and> existing_alias (decode_short_name entry) \<noteq> take 11 entry)"
proof (intro conjI allI impI)
  show "decode_utf8_name [0x61, 0xef, 0xbf, 0xbf, 0x62] = Some [0x61, 0xffff, 0x62]" by code_simp
  show "decode_long_name (fold consume_long_entry (long_entries [0x61, 0xffff, 0x62] 0) long_name_reset) = Some [0x61]" by code_simp
  show "alias_candidate (alias_base name) (alias_extension name) k = alias_candidate (alias_base name) (alias_extension name) (k div 10)"
    if "length (alias_base name) = 6" "alias_extension name \<noteq> []" "10 \<le> k" "k < 100" for name k
    by (rule alias_digit_lost [OF that])
  show "let entry = (short_entry (alias_candidate [0x41] [0x54] 1) 0x20 0 0)[12 := 0x10]
    in take 11 entry = alias_candidate [0x41] [0x54] 1 \<and> existing_alias (decode_short_name entry) \<noteq> take 11 entry" by code_simp
qed

theorem fat_name_gaps_witness:
  "alias_candidate [0x44, 0x4f, 0x43, 0x55, 0x4d, 0x45] [0x54, 0x58, 0x54] 12 = [0x44, 0x4f, 0x43, 0x55, 0x4d, 0x45, 0x7e, 0x31, 0x54, 0x58, 0x54]"
proof -
  let ?name = "[0x64, 0x6f, 0x63, 0x75, 0x6d, 0x65, 0x6e, 0x74, 0x2e, 0x74, 0x78, 0x74]"
  have n: "alias_base ?name = [0x44, 0x4f, 0x43, 0x55, 0x4d, 0x45]" "alias_extension ?name = [0x54, 0x58, 0x54]" by code_simp+
  from fat_name_gaps [THEN conjunct2, THEN conjunct1, rule_format, of ?name 12]
  have "alias_candidate [0x44, 0x4f, 0x43, 0x55, 0x4d, 0x45] [0x54, 0x58, 0x54] 12 =
      alias_candidate [0x44, 0x4f, 0x43, 0x55, 0x4d, 0x45] [0x54, 0x58, 0x54] 1" unfolding n by simp
  also have "\<dots> = [0x44, 0x4f, 0x43, 0x55, 0x4d, 0x45, 0x7e, 0x31, 0x54, 0x58, 0x54]" by code_simp
  finally show ?thesis .
qed

end
