(* ===== verification/Fat32.thy ===== *)
theory Fat32
  imports Fat32_Names
begin

text \<open>
  The FAT32 volume, \<^verbatim>\<open>drivers/fs/fat32/fat32.hpp\<close>: mounting, the allocation table, cluster chains, directories and
  files as they are read. The volume is a record with the storage, the geometry and the allocation state; the scratch
  sector is part of it. Loops over clusters count with the 32-bit counters of the code, which bound them by the
  number of clusters.
\<close>

unbundle bit_operations_syntax

section \<open>Definitions\<close>

subsection \<open>Types\<close>

datatype fat_type = Fat_file | Fat_directory

record fat_node =
  nd_first_cluster :: u32
  nd_size :: u32
  nd_type :: fat_type
  nd_attributes :: u8
  nd_entry_offset :: u64

record fat_entry_data =
  en_name :: "u8 list"
  en_short_name :: "u8 list"
  en_node :: fat_node

record fat_geometry =
  gm_bytes_per_sector :: u32
  gm_sectors_per_cluster :: u32
  gm_bytes_per_cluster :: u32
  gm_reserved_sectors :: u32
  gm_fat_sectors :: u32
  gm_fat_count :: u32
  gm_active_fat :: u32
  gm_first_data_sector :: u32
  gm_cluster_count :: u32
  gm_root_cluster :: u32
  gm_total_sectors :: u32
  gm_fs_info_sector :: u32
  gm_mirror_fats :: bool

record 'd fat_volume =
  fv_device :: 'd
  fv_geometry :: fat_geometry
  fv_mounted :: bool
  fv_fs_info_valid :: bool
  fv_free_clusters_known :: bool
  fv_free_clusters :: u32
  fv_allocation_hint :: u32
  fv_sector :: "u8 list"

definition fat_mask :: u32 where
  "fat_mask = 0x0fffffff"

definition bad_cluster :: u32 where
  "bad_cluster = 0x0ffffff7"

definition end_of_chain :: u32 where
  "end_of_chain = 0x0ffffff8"

definition reserved_cluster :: u32 where
  "reserved_cluster = 0x0ffffff0"

definition node_directory :: "fat_node \<Rightarrow> bool" where
  "node_directory n \<longleftrightarrow> nd_type n = Fat_directory"

text \<open>The transfers of a volume, and a transfer into the scratch sector.\<close>

definition vol_read :: "'d fs_device \<Rightarrow> u64 \<Rightarrow> u32 \<Rightarrow> ('d fat_volume, u8 list) fs" where
  "vol_read dev offset sz v = (case read_exact dev offset sz (fv_device v) of (d, r) \<Rightarrow> (v\<lparr>fv_device := d\<rparr>, r))"

definition vol_write :: "'d fs_device \<Rightarrow> u64 \<Rightarrow> u8 list \<Rightarrow> ('d fat_volume, unit) fs" where
  "vol_write dev offset input v = (case write_exact dev offset input (fv_device v) of (d, r) \<Rightarrow> (v\<lparr>fv_device := d\<rparr>, r))"

definition fill_sector :: "u8 list \<Rightarrow> 'd fat_volume \<Rightarrow> 'd fat_volume" where
  "fill_sector bytes v = v\<lparr>fv_sector := bytes @ drop (length bytes) (fv_sector v)\<rparr>"

definition load_sector :: "'d fs_device \<Rightarrow> u64 \<Rightarrow> u32 \<Rightarrow> ('d fat_volume, u8 list) fs" where
  "load_sector dev offset sz =
     fs_bind (vol_read dev offset sz) (\<lambda>bytes. fs_bind (fs_modify (fill_sector bytes)) (\<lambda>_. fs_return bytes))"

subsection \<open>Mounting\<close>

definition boot_geometry :: "u8 list \<Rightarrow> u64 \<Rightarrow> fs_error + fat_geometry" where
  "boot_geometry boot device_size =
     (if boot ! 510 \<noteq> 0x55 \<or> boot ! 511 \<noteq> 0xaa then Inl Fs_invalid_format
      else let bytes_per_sector = ucast (little_u16 (drop 11 boot)); sectors_per_cluster = ucast (boot ! 13);
               reserved_sectors = ucast (little_u16 (drop 14 boot)); fat_count = ucast (boot ! 16);
               root_entry_count = (ucast (little_u16 (drop 17 boot)) :: u32); total_sectors_16 = (ucast (little_u16 (drop 19 boot)) :: u32);
               fat_sectors_16 = (ucast (little_u16 (drop 22 boot)) :: u32); total_sectors = little_u32 (drop 32 boot);
               fat_sectors = little_u32 (drop 36 boot); extended_flags = (ucast (little_u16 (drop 40 boot)) :: u32);
               version = (ucast (little_u16 (drop 42 boot)) :: u32); root_cluster = little_u32 (drop 44 boot) AND fat_mask;
               fs_info_sector = ucast (little_u16 (drop 48 boot))
           in if (bytes_per_sector \<noteq> 512 \<and> bytes_per_sector \<noteq> 1024 \<and> bytes_per_sector \<noteq> 2048 \<and> bytes_per_sector \<noteq> 4096) \<or>
                 \<not> power_of_two sectors_per_cluster \<or> sectors_per_cluster > 128 \<or> reserved_sectors = 0 \<or> fat_count = 0 \<or>
                 root_entry_count \<noteq> 0 \<or> total_sectors_16 \<noteq> 0 \<or> fat_sectors_16 \<noteq> 0 \<or> total_sectors = 0 \<or> fat_sectors = 0 \<or>
                 version \<noteq> 0
              then Inl Fs_invalid_format
              else let bytes_per_cluster = bytes_per_sector * sectors_per_cluster
              in if bytes_per_cluster > 32 * 1024 then Inl Fs_unsupported
              else let active_fat = (if extended_flags AND 0x80 \<noteq> 0 then extended_flags AND 0x0f else 0);
                       mirror_fats = (extended_flags AND 0x80 = 0)
              in if active_fat \<ge> fat_count then Inl Fs_invalid_format
              else let fat_region = ucast fat_count * ucast fat_sectors :: u64;
                       metadata_sectors = ucast reserved_sectors + fat_region
              in if metadata_sectors \<ge> ucast total_sectors then Inl Fs_invalid_format
              else let first_data_sector = ucast metadata_sectors; data_sectors = total_sectors - first_data_sector;
                       cluster_count = data_sectors div sectors_per_cluster
              in if cluster_count < 65525 \<or> cluster_count > reserved_cluster - 2 then Inl Fs_invalid_format
              else let maximum_cluster = cluster_count + 1
              in if root_cluster < 2 \<or> root_cluster > maximum_cluster then Inl Fs_invalid_format
              else let fat_bytes = ucast fat_sectors * ucast bytes_per_sector :: u64;
                       required_fat_bytes = ucast (cluster_count + 2) * 4;
                       volume_bytes = ucast total_sectors * ucast bytes_per_sector :: u64
              in if fat_bytes < required_fat_bytes \<or> volume_bytes > device_size then Inl Fs_out_of_bounds
              else Inr \<lparr>gm_bytes_per_sector = bytes_per_sector, gm_sectors_per_cluster = sectors_per_cluster,
                        gm_bytes_per_cluster = bytes_per_cluster, gm_reserved_sectors = reserved_sectors,
                        gm_fat_sectors = fat_sectors, gm_fat_count = fat_count, gm_active_fat = active_fat,
                        gm_first_data_sector = first_data_sector, gm_cluster_count = cluster_count,
                        gm_root_cluster = root_cluster, gm_total_sectors = total_sectors,
                        gm_fs_info_sector = fs_info_sector, gm_mirror_fats = mirror_fats\<rparr>)"

definition mount_fs_info :: "u8 list \<Rightarrow> 'd fat_volume \<Rightarrow> 'd fat_volume" where
  "mount_fs_info info v =
     (let count = gm_cluster_count (fv_geometry v)
      in if little_u32 info = 0x41615252 \<and> little_u32 (drop 484 info) = 0x61417272 \<and> little_u32 (drop 508 info) = 0xaa550000
         then let free_count = little_u32 (drop 488 info); next_free = little_u32 (drop 492 info);
                  v1 = (if free_count \<le> count then v\<lparr>fv_free_clusters := free_count, fv_free_clusters_known := True\<rparr> else v);
                  v2 = (if next_free \<ge> 2 \<and> next_free \<le> count + 1 then v1\<lparr>fv_allocation_hint := next_free\<rparr> else v1)
              in v2\<lparr>fv_fs_info_valid := True\<rparr>
         else v)"

definition fat_mount :: "'d fs_device \<Rightarrow> ('d, 'd fat_volume) fs" where
  "fat_mount dev =
     fs_bind (read_exact dev 0 4096) (\<lambda>boot.
     fs_bind (fs_get (fd_size dev)) (\<lambda>device_size.
       case boot_geometry boot device_size of
         Inl e \<Rightarrow> fs_fail e
       | Inr g \<Rightarrow>
           (\<lambda>d. let v = \<lparr>fv_device = d, fv_geometry = g, fv_mounted = True, fv_fs_info_valid = False,
                         fv_free_clusters_known = False, fv_free_clusters = 0, fv_allocation_hint = 2, fv_sector = boot\<rparr>
                in if gm_fs_info_sector g \<noteq> 0xffff \<and> gm_fs_info_sector g < gm_reserved_sectors g
                   then case load_sector dev (ucast (gm_fs_info_sector g) * ucast (gm_bytes_per_sector g)) (gm_bytes_per_sector g) v of
                          (v1, Inl _) \<Rightarrow> (fv_device v1, Inr v1)
                        | (v1, Inr info) \<Rightarrow> (fv_device v1, Inr (mount_fs_info info v1))
                   else (d, Inr v))))"

definition fat_root :: "fat_geometry \<Rightarrow> fat_node" where
  "fat_root g = \<lparr>nd_first_cluster = gm_root_cluster g, nd_size = 0, nd_type = Fat_directory,
     nd_attributes = attribute_directory, nd_entry_offset = 0\<rparr>"

subsection \<open>Clusters and the allocation table\<close>

definition valid_cluster :: "fat_geometry \<Rightarrow> u32 \<Rightarrow> bool" where
  "valid_cluster g cluster \<longleftrightarrow> cluster \<ge> 2 \<and> cluster \<le> gm_cluster_count g + 1"

definition cluster_byte_offset :: "fat_geometry \<Rightarrow> u32 \<Rightarrow> u64" where
  "cluster_byte_offset g cluster =
     (let sector = ucast (gm_first_data_sector g) + ucast (cluster - 2) * ucast (gm_sectors_per_cluster g)
      in sector * ucast (gm_bytes_per_sector g))"

definition clusters_for_size :: "fat_geometry \<Rightarrow> u32 \<Rightarrow> u32" where
  "clusters_for_size g sz = (if sz = 0 then 0 else 1 + (sz - 1) div gm_bytes_per_cluster g)"

definition fat_offset :: "fat_geometry \<Rightarrow> u32 \<Rightarrow> u32 \<Rightarrow> u64" where
  "fat_offset g fat cluster =
     (ucast (gm_reserved_sectors g) + ucast fat * ucast (gm_fat_sectors g)) * ucast (gm_bytes_per_sector g) + ucast cluster * 4"

definition fat_entry :: "'d fs_device \<Rightarrow> fat_geometry \<Rightarrow> u32 \<Rightarrow> ('d fat_volume, u32) fs" where
  "fat_entry dev g cluster =
     (if \<not> valid_cluster g cluster then fs_fail Fs_corrupt
      else fs_bind (vol_read dev (fat_offset g (gm_active_fat g) cluster) 4) (\<lambda>raw.
           fs_return (little_u32 raw AND fat_mask)))"

definition next_cluster :: "'d fs_device \<Rightarrow> fat_geometry \<Rightarrow> u32 \<Rightarrow> ('d fat_volume, u32 option) fs" where
  "next_cluster dev g cluster =
     (if \<not> valid_cluster g cluster then fs_fail Fs_corrupt
      else fs_bind (vol_read dev (fat_offset g (gm_active_fat g) cluster) 4) (\<lambda>raw.
           let value = little_u32 raw AND fat_mask
           in if value \<ge> end_of_chain then fs_return None
              else if value = 0 \<or> value = 1 \<or> value = bad_cluster \<or> value \<ge> reserved_cluster \<or> \<not> valid_cluster g value
              then fs_fail Fs_corrupt
              else fs_return (Some value)))"

subsection \<open>Directories\<close>

type_synonym 'a visitor = "'a \<Rightarrow> fat_entry_data \<Rightarrow> 'a \<times> bool"

definition entry_node :: "u8 list \<Rightarrow> u64 \<Rightarrow> fat_node" where
  "entry_node raw offset =
     \<lparr>nd_first_cluster = (push_bit 16 (ucast (little_u16 (drop 20 raw))) OR ucast (little_u16 (drop 26 raw))) AND fat_mask,
      nd_size = little_u32 (drop 28 raw),
      nd_type = (if raw ! 11 AND attribute_directory \<noteq> 0 then Fat_directory else Fat_file),
      nd_attributes = raw ! 11, nd_entry_offset = offset\<rparr>"

definition entry_name :: "u8 list \<Rightarrow> long_name_state \<Rightarrow> u8 list" where
  "entry_name raw ln =
     (if ln_active ln \<and> ln_expected ln = 0 \<and> ln_checksum ln = short_checksum raw
      then (case decode_long_name ln of Some name \<Rightarrow> name | None \<Rightarrow> decode_short_name raw)
      else decode_short_name raw)"

text \<open>The body of the loop over the entries of a sector; a true flag ends the traversal.\<close>

definition entry_step ::
  "fat_geometry \<Rightarrow> 'a visitor \<Rightarrow> u64 \<Rightarrow> u8 list \<Rightarrow> long_name_state \<times> 'a \<Rightarrow> fs_error + bool \<times> long_name_state \<times> 'a" where
  "entry_step g visit offset raw st =
     (case st of (ln, a) \<Rightarrow>
        if raw ! 0 = 0 then Inr (True, ln, a)
        else if raw ! 0 = 0xe5 then Inr (False, long_name_reset, a)
        else if raw ! 11 = attribute_long_name then Inr (False, consume_long_entry raw ln, a)
        else if raw ! 11 AND attribute_volume \<noteq> 0 then Inr (False, long_name_reset, a)
        else let node = entry_node raw offset;
                 entry = \<lparr>en_name = entry_name raw ln, en_short_name = decode_short_name raw, en_node = node\<rparr>
             in if (nd_first_cluster node \<noteq> 0 \<and> \<not> valid_cluster g (nd_first_cluster node)) \<or>
                   (node_directory node \<and> nd_first_cluster node = 0 \<and> \<not> name_equals (en_name entry) [0x2e, 0x2e] False)
                then Inl Fs_corrupt
                else case visit a entry of (a1, continue) \<Rightarrow> Inr (\<not> continue, long_name_reset, a1))"

fun scan_entries ::
  "fat_geometry \<Rightarrow> 'a visitor \<Rightarrow> u64 \<Rightarrow> u8 list \<Rightarrow> nat list \<Rightarrow> long_name_state \<times> 'a \<Rightarrow> fs_error + bool \<times> long_name_state \<times> 'a" where
  "scan_entries g visit base sector [] st = Inr (False, st)"
| "scan_entries g visit base sector (i # is) st =
     (case entry_step g visit (base + of_nat (32 * i)) (take 32 (drop (32 * i) sector)) st of
        Inl e \<Rightarrow> Inl e
      | Inr (True, st1) \<Rightarrow> Inr (True, st1)
      | Inr (False, st1) \<Rightarrow> scan_entries g visit base sector is st1)"

fun walk_sectors ::
  "'d fs_device \<Rightarrow> fat_geometry \<Rightarrow> 'a visitor \<Rightarrow> u64 \<Rightarrow> nat list \<Rightarrow> long_name_state \<times> 'a
     \<Rightarrow> ('d fat_volume, bool \<times> long_name_state \<times> 'a) fs" where
  "walk_sectors dev g visit cluster_offset [] st = fs_return (False, st)"
| "walk_sectors dev g visit cluster_offset (k # ks) st =
     (let base = cluster_offset + of_nat k * ucast (gm_bytes_per_sector g)
      in fs_bind (load_sector dev base (gm_bytes_per_sector g)) (\<lambda>sector.
           case scan_entries g visit base sector [0..<unat (gm_bytes_per_sector g) div 32] st of
             Inl e \<Rightarrow> fs_fail e
           | Inr (True, st1) \<Rightarrow> fs_return (True, st1)
           | Inr (False, st1) \<Rightarrow> walk_sectors dev g visit cluster_offset ks st1))"

lemma counter_decreases: "(i :: u32) < n \<Longrightarrow> unat (n - (i + 1)) < unat (n - i)"
proof -
  assume l: "i < n"
  have "unat i < unat n" using l by (simp add: word_less_nat_alt)
  moreover have "unat n < 4294967296" by simp
  ultimately have "unat i + 1 < 4294967296" by linarith
  then have "unat (i + 1) = unat i + 1" by (simp add: unat_add_fits)
  then show ?thesis using l by (simp add: word_less_nat_alt unat_sub_if')
qed

function walk_clusters ::
  "'d fs_device \<Rightarrow> fat_geometry \<Rightarrow> 'a visitor \<Rightarrow> u32 \<Rightarrow> u32 \<Rightarrow> long_name_state \<times> 'a \<Rightarrow> ('d fat_volume, 'a) fs" where
  "walk_clusters dev g visit traversed cluster st =
     (if \<not> traversed < gm_cluster_count g then fs_fail Fs_loop
      else fs_bind (walk_sectors dev g visit (cluster_byte_offset g cluster) [0..<unat (gm_sectors_per_cluster g)] st) (\<lambda>(stop, st1).
           if stop then fs_return (snd st1)
           else fs_bind (next_cluster dev g cluster) (\<lambda>link.
                case link of
                  None \<Rightarrow> fs_return (snd st1)
                | Some c \<Rightarrow> walk_clusters dev g visit (traversed + 1) c st1)))"
  by pat_completeness auto
termination
  by (relation "measure (\<lambda>(dev, g, visit, traversed, cluster, st). unat (gm_cluster_count g - traversed))")
    (auto intro: counter_decreases)

definition for_each :: "'d fs_device \<Rightarrow> fat_node \<Rightarrow> 'a visitor \<Rightarrow> 'a \<Rightarrow> ('d fat_volume, 'a) fs" where
  "for_each dev directory visit a v =
     (if \<not> fv_mounted v then fs_fail Fs_invalid_argument v
      else if \<not> node_directory directory then fs_fail Fs_not_directory v
      else if \<not> valid_cluster (fv_geometry v) (nd_first_cluster directory) then fs_fail Fs_corrupt v
      else walk_clusters dev (fv_geometry v) visit 0 (nd_first_cluster directory) (long_name_reset, a) v)"

definition lookup_visitor :: "u8 list \<Rightarrow> fat_node option visitor" where
  "lookup_visitor name found entry =
     (if name_equals (en_name entry) name True \<or> name_equals (en_short_name entry) name True
      then (Some (en_node entry), False) else (found, True))"

definition fat_lookup :: "'d fs_device \<Rightarrow> fat_node \<Rightarrow> u8 list \<Rightarrow> ('d fat_volume, fat_node) fs" where
  "fat_lookup dev directory name =
     (if name = [] then fs_fail Fs_invalid_argument
      else fs_bind (for_each dev directory (lookup_visitor name) None) (\<lambda>found.
           case found of None \<Rightarrow> fs_fail Fs_not_found | Some node \<Rightarrow> fs_return node))"

lemma next_component_shorter:
  "path \<noteq> [] \<Longrightarrow> length (dropWhile (\<lambda>c. c = x) (dropWhile (\<lambda>c. c \<noteq> x) path)) < length path"
proof (cases path)
  case (Cons c cs)
  then show ?thesis
    using length_dropWhile_le [of "\<lambda>c. c = x" "dropWhile (\<lambda>c. c \<noteq> x) cs"] length_dropWhile_le [of "\<lambda>c. c \<noteq> x" cs]
      length_dropWhile_le [of "\<lambda>c. c = x" cs] by auto
qed simp

function lookup_components :: "'d fs_device \<Rightarrow> u8 list \<Rightarrow> fat_node \<Rightarrow> ('d fat_volume, fat_node) fs" where
  "lookup_components dev path current =
     (if path = [] then fs_return current
      else let component = takeWhile (\<lambda>c. c \<noteq> 0x2f) path;
               rest = dropWhile (\<lambda>c. c = 0x2f) (dropWhile (\<lambda>c. c \<noteq> 0x2f) path)
           in if length component > name_capacity then fs_fail Fs_invalid_argument
              else if component = [0x2e] then lookup_components dev rest current
              else if component = [0x2e, 0x2e] then fs_fail Fs_unsupported
              else if \<not> node_directory current then fs_fail Fs_not_directory
              else fs_bind (fat_lookup dev current component) (\<lambda>child. lookup_components dev rest child))"
  by pat_completeness auto
termination
  by (relation "measure (\<lambda>(dev, path, current). length path)") (auto intro: next_component_shorter)

definition lookup_path :: "'d fs_device \<Rightarrow> u8 list \<Rightarrow> ('d fat_volume, fat_node) fs" where
  "lookup_path dev path v =
     (if \<not> fv_mounted v then fs_fail Fs_invalid_argument v
      else lookup_components dev (dropWhile (\<lambda>c. c = 0x2f) path) (fat_root (fv_geometry v)) v)"

subsection \<open>Reading files\<close>

text \<open>The count of traversed clusters is a number here: it is never above one more than the number of clusters.\<close>

fun skip_clusters :: "'d fs_device \<Rightarrow> fat_geometry \<Rightarrow> nat \<Rightarrow> nat \<Rightarrow> u32 \<Rightarrow> ('d fat_volume, nat \<times> u32) fs" where
  "skip_clusters dev g 0 traversed cluster = fs_return (traversed, cluster)"
| "skip_clusters dev g (Suc n) traversed cluster =
     (if traversed + 1 > unat (gm_cluster_count g) then fs_fail Fs_loop
      else fs_bind (next_cluster dev g cluster) (\<lambda>link.
           case link of None \<Rightarrow> fs_fail Fs_corrupt | Some c \<Rightarrow> skip_clusters dev g n (traversed + 1) c))"

function read_clusters ::
  "'d fs_device \<Rightarrow> fat_geometry \<Rightarrow> nat \<Rightarrow> u32 \<Rightarrow> u32 \<Rightarrow> u32 \<Rightarrow> u8 list \<Rightarrow> ('d fat_volume, u8 list) fs" where
  "read_clusters dev g traversed cluster within remaining out =
     (if remaining = 0 then fs_return out
      else let available_in_cluster = gm_bytes_per_cluster g - within;
               count = (if remaining < available_in_cluster then remaining else available_in_cluster)
           in fs_bind (vol_read dev (cluster_byte_offset g cluster + ucast within) count) (\<lambda>bytes.
              if remaining - count = 0 then fs_return (out @ bytes)
              else if traversed + 1 > unat (gm_cluster_count g) then fs_fail Fs_loop
              else fs_bind (next_cluster dev g cluster) (\<lambda>link.
                   case link of
                     None \<Rightarrow> fs_fail Fs_corrupt
                   | Some c \<Rightarrow> read_clusters dev g (traversed + 1) c 0 (remaining - count) (out @ bytes))))"
  by pat_completeness auto
termination
  by (relation "measure (\<lambda>(dev, g, traversed, cluster, within, remaining, out). unat (gm_cluster_count g) - traversed)") auto

text \<open>The bytes that a successful read puts in the buffer; their number is its result.\<close>

definition fat_read :: "'d fs_device \<Rightarrow> fat_node \<Rightarrow> u64 \<Rightarrow> u32 \<Rightarrow> ('d fat_volume, u8 list) fs" where
  "fat_read dev file offset sz v =
     (let g = fv_geometry v
      in if \<not> fv_mounted v then fs_fail Fs_invalid_argument v
         else if node_directory file then fs_fail Fs_is_directory v
         else if offset \<ge> ucast (nd_size file) \<or> sz = 0 then fs_return [] v
         else let available = ucast (nd_size file) - offset;
                  remaining = (if ucast sz > available then ucast available else sz)
              in if remaining \<noteq> 0 \<and> \<not> valid_cluster g (nd_first_cluster file) then fs_fail Fs_corrupt v
                 else fs_bind (skip_clusters dev g (unat (offset div ucast (gm_bytes_per_cluster g))) 0 (nd_first_cluster file))
                        (\<lambda>(traversed, cluster).
                           read_clusters dev g traversed cluster (ucast (offset mod ucast (gm_bytes_per_cluster g))) remaining []) v)"

definition fat_read_path :: "'d fs_device \<Rightarrow> u8 list \<Rightarrow> u64 \<Rightarrow> u32 \<Rightarrow> ('d fat_volume, u8 list) fs" where
  "fat_read_path dev path offset sz = fs_bind (lookup_path dev path) (\<lambda>file. fat_read dev file offset sz)"

definition fat_file_size :: "'d fs_device \<Rightarrow> u8 list \<Rightarrow> ('d fat_volume, u32) fs" where
  "fat_file_size dev path =
     fs_bind (lookup_path dev path) (\<lambda>file. if node_directory file then fs_fail Fs_is_directory else fs_return (nd_size file))"

definition fat_consistent :: "'d fs_device \<Rightarrow> 'd fat_volume \<Rightarrow> 'd fat_volume \<times> bool" where
  "fat_consistent dev v =
     (let g = fv_geometry v
      in if \<not> fv_mounted v \<or> \<not> valid_cluster g (gm_root_cluster g) then (v, False)
         else case fat_entry dev g (gm_root_cluster g) v of
                (v1, Inl _) \<Rightarrow> (v1, False)
              | (v1, Inr link) \<Rightarrow>
                  if link = 0 \<or> link = bad_cluster then (v1, False)
                  else case for_each dev (fat_root g) (\<lambda>a _. (a, True)) () v1 of
                         (v2, Inl _) \<Rightarrow> (v2, False) | (v2, Inr _) \<Rightarrow> (v2, True))"

end
