(* ===== verification/Fat32_Write.thy ===== *)
theory Fat32_Write
  imports Fat32
begin

text \<open>
  The changing operations of the FAT32 volume, \<^verbatim>\<open>drivers/fs/fat32/fat32.hpp\<close>: the allocation table, chains, file
  contents, directory records, and the operations on paths. An operation that changes the node it is given works on the
  volume together with the node, since the caller sees the node also after an error. An ignored result is a
  \<open>fs_try\<close> whose outcome is dropped. On a mounted volume sectors and clusters are not empty; the loops that
  advance by their size stop with an error in the case that they are.
\<close>

unbundle bit_operations_syntax

section \<open>Definitions\<close>

definition fat_flush :: "'d fs_device \<Rightarrow> ('d fat_volume, unit) fs" where
  "fat_flush dev v =
     (case fd_flush dev (fv_device v) of (d, ok) \<Rightarrow> (v\<lparr>fv_device := d\<rparr>, if ok then Inr () else Inl Fs_io))"

definition fs_ignore :: "('s, 'a) fs \<Rightarrow> ('s, 'b) fs \<Rightarrow> ('s, 'b) fs" where
  "fs_ignore m k = fs_try m (\<lambda>_. k)"

text \<open>Run an operation; when it fails, clean up and report its error.\<close>

definition fs_cleanup :: "('s, 'a) fs \<Rightarrow> ('s, 'b) fs \<Rightarrow> ('s, 'a) fs" where
  "fs_cleanup m cleanup = fs_try m (\<lambda>r. case r of Inl e \<Rightarrow> fs_ignore cleanup (fs_fail e) | Inr x \<Rightarrow> fs_return x)"

subsection \<open>The allocation table\<close>

fun write_fat_copies :: "'d fs_device \<Rightarrow> fat_geometry \<Rightarrow> u32 \<Rightarrow> u32 \<Rightarrow> nat list \<Rightarrow> ('d fat_volume, unit) fs" where
  "write_fat_copies dev g cluster value [] = fs_return ()"
| "write_fat_copies dev g cluster value (fat # fats) =
     (let offset = fat_offset g (of_nat fat) cluster
      in fs_bind (vol_read dev offset 4) (\<lambda>raw.
         let stored = (little_u32 raw AND 0xf0000000) OR (value AND fat_mask)
         in fs_bind (vol_write dev offset (bytes_u32 stored)) (\<lambda>_.
            write_fat_copies dev g cluster value fats)))"

definition fat_copies :: "fat_geometry \<Rightarrow> nat list" where
  "fat_copies g =
     (let first_fat = (if gm_mirror_fats g then 0 else gm_active_fat g);
          fat_limit = (if gm_mirror_fats g then gm_fat_count g else gm_active_fat g + 1)
      in [unat first_fat..<unat fat_limit])"

definition write_fat_entry :: "'d fs_device \<Rightarrow> fat_geometry \<Rightarrow> u32 \<Rightarrow> u32 \<Rightarrow> ('d fat_volume, unit) fs" where
  "write_fat_entry dev g cluster value =
     (if \<not> valid_cluster g cluster then fs_fail Fs_corrupt else write_fat_copies dev g cluster value (fat_copies g))"

definition following_cluster :: "fat_geometry \<Rightarrow> u32 \<Rightarrow> u32" where
  "following_cluster g candidate = (if candidate = gm_cluster_count g + 1 then 2 else candidate + 1)"

definition zero_sector :: "fat_geometry \<Rightarrow> ('d fat_volume, unit) fs" where
  "zero_sector g = fs_modify (fill_sector (replicate (unat (gm_bytes_per_sector g)) 0))"

fun zero_cluster_sectors :: "'d fs_device \<Rightarrow> fat_geometry \<Rightarrow> u64 \<Rightarrow> nat list \<Rightarrow> ('d fat_volume, unit) fs" where
  "zero_cluster_sectors dev g base [] = fs_return ()"
| "zero_cluster_sectors dev g base (k # ks) =
     fs_bind (fs_get fv_sector) (\<lambda>sector.
     fs_bind (vol_write dev (base + of_nat k * ucast (gm_bytes_per_sector g)) (take (unat (gm_bytes_per_sector g)) sector)) (\<lambda>_.
     zero_cluster_sectors dev g base ks))"

definition take_cluster :: "'d fs_device \<Rightarrow> fat_geometry \<Rightarrow> u32 \<Rightarrow> ('d fat_volume, u32) fs" where
  "take_cluster dev g candidate =
     fs_bind (write_fat_entry dev g candidate end_of_chain) (\<lambda>_.
     fs_bind (zero_sector g) (\<lambda>_.
     fs_bind (fs_cleanup (zero_cluster_sectors dev g (cluster_byte_offset g candidate) [0..<unat (gm_sectors_per_cluster g)])
                (write_fat_entry dev g candidate 0)) (\<lambda>_.
     fs_bind (fs_modify (\<lambda>v. v\<lparr>fv_allocation_hint := following_cluster g candidate,
                               fv_free_clusters := (if fv_free_clusters_known v \<and> fv_free_clusters v \<noteq> 0
                                                    then fv_free_clusters v - 1 else fv_free_clusters v)\<rparr>)) (\<lambda>_.
     fs_return candidate))))"

function allocate_scan :: "'d fs_device \<Rightarrow> fat_geometry \<Rightarrow> u32 \<Rightarrow> u32 \<Rightarrow> ('d fat_volume, u32) fs" where
  "allocate_scan dev g scanned candidate =
     (if \<not> scanned < gm_cluster_count g then fs_fail Fs_no_space
      else fs_bind (fat_entry dev g candidate) (\<lambda>value.
           if value = 0 then take_cluster dev g candidate
           else allocate_scan dev g (scanned + 1) (following_cluster g candidate)))"
  by pat_completeness auto
termination
  by (relation "measure (\<lambda>(dev, g, scanned, candidate). unat (gm_cluster_count g - scanned))") (auto intro: counter_decreases)

definition allocate_cluster :: "'d fs_device \<Rightarrow> fat_geometry \<Rightarrow> ('d fat_volume, u32) fs" where
  "allocate_cluster dev g =
     fs_bind (fs_get fv_allocation_hint) (\<lambda>hint. allocate_scan dev g 0 (if valid_cluster g hint then hint else 2))"

function free_loop :: "'d fs_device \<Rightarrow> fat_geometry \<Rightarrow> u32 \<Rightarrow> u32 \<Rightarrow> ('d fat_volume, unit) fs" where
  "free_loop dev g traversed cluster =
     (if \<not> traversed < gm_cluster_count g then fs_fail Fs_loop
      else fs_bind (fat_entry dev g cluster) (\<lambda>value.
           fs_bind (write_fat_entry dev g cluster 0) (\<lambda>_.
           fs_bind (fs_modify (\<lambda>v. v\<lparr>fv_free_clusters := (if fv_free_clusters_known v \<and> fv_free_clusters v < gm_cluster_count g
                                                         then fv_free_clusters v + 1 else fv_free_clusters v),
                                     fv_allocation_hint := (if cluster < fv_allocation_hint v then cluster else fv_allocation_hint v)\<rparr>)) (\<lambda>_.
           if value \<ge> end_of_chain then fs_return ()
           else if value = 0 \<or> value = 1 \<or> value = bad_cluster \<or> value \<ge> reserved_cluster \<or> \<not> valid_cluster g value
           then fs_fail Fs_corrupt
           else free_loop dev g (traversed + 1) value))))"
  by pat_completeness auto
termination
  by (relation "measure (\<lambda>(dev, g, traversed, cluster). unat (gm_cluster_count g - traversed))") (auto intro: counter_decreases)

definition free_chain :: "'d fs_device \<Rightarrow> fat_geometry \<Rightarrow> u32 \<Rightarrow> ('d fat_volume, unit) fs" where
  "free_chain dev g first = (if first = 0 then fs_return () else free_loop dev g 0 first)"

text \<open>The chain so far is its first and its last cluster, both 0 when there is none.\<close>

fun allocate_links :: "'d fs_device \<Rightarrow> fat_geometry \<Rightarrow> nat \<Rightarrow> u32 \<times> u32 \<Rightarrow> ('d fat_volume, u32 \<times> u32) fs" where
  "allocate_links dev g 0 chain = fs_return chain"
| "allocate_links dev g (Suc n) chain =
     (case chain of (first, last_cluster) \<Rightarrow>
        fs_bind (fs_cleanup (allocate_cluster dev g) (if first \<noteq> 0 then free_chain dev g first else fs_return ())) (\<lambda>allocated.
        if first = 0 then allocate_links dev g n (allocated, allocated)
        else fs_bind (fs_cleanup (write_fat_entry dev g last_cluster allocated)
                        (fs_ignore (write_fat_entry dev g allocated 0) (free_chain dev g first))) (\<lambda>_.
             allocate_links dev g n (first, allocated))))"

definition allocate_chain :: "'d fs_device \<Rightarrow> fat_geometry \<Rightarrow> u32 \<Rightarrow> ('d fat_volume, u32 \<times> u32) fs" where
  "allocate_chain dev g count = allocate_links dev g (unat count) (0, 0)"

definition put_u32 :: "nat \<Rightarrow> u32 \<Rightarrow> u8 list \<Rightarrow> u8 list" where
  "put_u32 i w bytes = bytes[i := ucast w, i + 1 := ucast (drop_bit 8 w), i + 2 := ucast (drop_bit 16 w), i + 3 := ucast (drop_bit 24 w)]"

definition commit_fs_info :: "'d fs_device \<Rightarrow> fat_geometry \<Rightarrow> ('d fat_volume, unit) fs" where
  "commit_fs_info dev g =
     fs_bind (fs_get fv_fs_info_valid) (\<lambda>valid.
     if \<not> valid then fat_flush dev
     else let offset = ucast (gm_fs_info_sector g) * ucast (gm_bytes_per_sector g)
          in fs_bind (load_sector dev offset (gm_bytes_per_sector g)) (\<lambda>_.
             fs_bind (fs_modify (\<lambda>v. v\<lparr>fv_sector := put_u32 492 (fv_allocation_hint v)
                        (if fv_free_clusters_known v then put_u32 488 (fv_free_clusters v) (fv_sector v) else fv_sector v)\<rparr>)) (\<lambda>_.
             fs_bind (fs_get fv_sector) (\<lambda>sector.
             fs_bind (vol_write dev offset (take (unat (gm_bytes_per_sector g)) sector)) (\<lambda>_.
             fat_flush dev)))))"

subsection \<open>File contents\<close>

fun follow_chain :: "'d fs_device \<Rightarrow> fat_geometry \<Rightarrow> nat \<Rightarrow> u32 \<Rightarrow> ('d fat_volume, u32) fs" where
  "follow_chain dev g 0 cluster = fs_return cluster"
| "follow_chain dev g (Suc n) cluster =
     fs_bind (next_cluster dev g cluster) (\<lambda>link.
       case link of None \<Rightarrow> fs_fail Fs_corrupt | Some c \<Rightarrow> follow_chain dev g n c)"

lemma part_decreases: "(left :: u32) \<noteq> 0 \<Longrightarrow> part \<noteq> 0 \<Longrightarrow> part \<le> left \<Longrightarrow> unat (left - part) < unat left"
  by (simp add: unat_sub_if' word_le_nat_alt word_neq_0_unat)

function zero_pieces :: "'d fs_device \<Rightarrow> fat_geometry \<Rightarrow> u64 \<Rightarrow> u32 \<Rightarrow> ('d fat_volume, unit) fs" where
  "zero_pieces dev g target left =
     (if left = 0 then fs_return ()
      else if gm_bytes_per_sector g = 0 then fs_fail Fs_invalid_format
      else let count = (if left < gm_bytes_per_sector g then left else gm_bytes_per_sector g)
           in fs_bind (fs_get fv_sector) (\<lambda>sector.
              fs_bind (vol_write dev target (take (unat count) sector)) (\<lambda>_.
              zero_pieces dev g (target + ucast count) (left - count))))"
  by pat_completeness auto
termination
  by (relation "measure (\<lambda>(dev, g, target, left). unat left)")
    (auto intro!: part_decreases simp: not_less unat_gt_0 simp del: right_minus_eq)

function zero_clusters :: "'d fs_device \<Rightarrow> fat_geometry \<Rightarrow> u32 \<Rightarrow> u32 \<Rightarrow> u32 \<Rightarrow> ('d fat_volume, unit) fs" where
  "zero_clusters dev g cluster within remaining =
     (if remaining = 0 then fs_return ()
      else if gm_bytes_per_cluster g - within = 0 then fs_fail Fs_invalid_format
      else let here = (if gm_bytes_per_cluster g - within > remaining then remaining else gm_bytes_per_cluster g - within)
           in fs_bind (zero_pieces dev g (cluster_byte_offset g cluster + ucast within) here) (\<lambda>_.
              if remaining - here = 0 then fs_return ()
              else fs_bind (next_cluster dev g cluster) (\<lambda>link.
                   case link of None \<Rightarrow> fs_fail Fs_corrupt | Some c \<Rightarrow> zero_clusters dev g c 0 (remaining - here))))"
  by pat_completeness auto
termination
  by (relation "measure (\<lambda>(dev, g, cluster, within, remaining). unat remaining)")
    (auto intro!: part_decreases simp: not_less unat_gt_0 simp del: right_minus_eq)

definition zero_file_range :: "'d fs_device \<Rightarrow> fat_geometry \<Rightarrow> u32 \<Rightarrow> u32 \<Rightarrow> u32 \<Rightarrow> ('d fat_volume, unit) fs" where
  "zero_file_range dev g first_cluster offset sz =
     (if sz = 0 then fs_return ()
      else if \<not> valid_cluster g first_cluster then fs_fail Fs_corrupt
      else fs_bind (zero_sector g) (\<lambda>_.
           fs_bind (follow_chain dev g (unat (offset div gm_bytes_per_cluster g)) first_cluster) (\<lambda>cluster.
           zero_clusters dev g cluster (offset mod gm_bytes_per_cluster g) sz)))"

definition metadata_bytes :: "u32 \<Rightarrow> u32 \<Rightarrow> u8 list \<Rightarrow> u8 list" where
  "metadata_bytes first_cluster sz raw =
     raw[0 := ucast (drop_bit 16 first_cluster), 1 := ucast (drop_bit 24 first_cluster), 6 := ucast first_cluster,
         7 := ucast (drop_bit 8 first_cluster), 8 := ucast sz, 9 := ucast (drop_bit 8 sz), 10 := ucast (drop_bit 16 sz),
         11 := ucast (drop_bit 24 sz)]"

definition write_node_metadata :: "'d fs_device \<Rightarrow> fat_node \<Rightarrow> u32 \<Rightarrow> u32 \<Rightarrow> ('d fat_volume, unit) fs" where
  "write_node_metadata dev node first_cluster sz =
     (if nd_entry_offset node = 0 then fs_fail Fs_invalid_argument
      else fs_bind (vol_read dev (nd_entry_offset node + 20) 12) (\<lambda>raw.
           vol_write dev (nd_entry_offset node + 20) (metadata_bytes first_cluster sz raw)))"

text \<open>Operations on the volume together with the node of the caller.\<close>

definition on_volume :: "('d fat_volume, 'a) fs \<Rightarrow> ('d fat_volume \<times> fat_node, 'a) fs" where
  "on_volume m st = (case m (fst st) of (v, r) \<Rightarrow> ((v, snd st), r))"

definition set_node :: "(fat_node \<Rightarrow> fat_node) \<Rightarrow> ('d fat_volume \<times> fat_node, unit) fs" where
  "set_node f = fs_modify (\<lambda>st. (fst st, f (snd st)))"

definition truncate_same :: "'d fs_device \<Rightarrow> fat_geometry \<Rightarrow> fat_node \<Rightarrow> u32 \<Rightarrow> ('d fat_volume \<times> fat_node, unit) fs" where
  "truncate_same dev g file new_size =
     fs_bind (if new_size > nd_size file
              then on_volume (zero_file_range dev g (nd_first_cluster file) (nd_size file) (new_size - nd_size file))
              else fs_return ()) (\<lambda>_.
     fs_bind (on_volume (write_node_metadata dev file (nd_first_cluster file) new_size)) (\<lambda>_.
     fs_bind (set_node (\<lambda>n. n\<lparr>nd_size := new_size\<rparr>)) (\<lambda>_.
     on_volume (fat_flush dev))))"

definition truncate_empty :: "'d fs_device \<Rightarrow> fat_geometry \<Rightarrow> fat_node \<Rightarrow> ('d fat_volume \<times> fat_node, unit) fs" where
  "truncate_empty dev g file =
     fs_bind (on_volume (write_node_metadata dev file 0 0)) (\<lambda>_.
     fs_bind (on_volume (fat_flush dev)) (\<lambda>_.
     fs_bind (set_node (\<lambda>n. n\<lparr>nd_first_cluster := 0, nd_size := 0\<rparr>)) (\<lambda>_.
     fs_bind (on_volume (free_chain dev g (nd_first_cluster file))) (\<lambda>_.
     on_volume (commit_fs_info dev g)))))"

definition truncate_first :: "'d fs_device \<Rightarrow> fat_geometry \<Rightarrow> fat_node \<Rightarrow> u32 \<Rightarrow> u32 \<Rightarrow> ('d fat_volume \<times> fat_node, unit) fs" where
  "truncate_first dev g file new_size new_clusters =
     fs_bind (on_volume (allocate_chain dev g new_clusters)) (\<lambda>(first, last_cluster).
     fs_bind (on_volume (fs_cleanup
                (fs_bind (fat_flush dev) (\<lambda>_. fs_bind (write_node_metadata dev file first new_size) (\<lambda>_. fat_flush dev)))
                (free_chain dev g first))) (\<lambda>_.
     fs_bind (set_node (\<lambda>n. n\<lparr>nd_first_cluster := first, nd_size := new_size\<rparr>)) (\<lambda>_.
     on_volume (commit_fs_info dev g))))"

definition truncate_grow :: "'d fs_device \<Rightarrow> fat_geometry \<Rightarrow> fat_node \<Rightarrow> u32 \<Rightarrow> u32 \<Rightarrow> u32 \<Rightarrow> ('d fat_volume, unit) fs" where
  "truncate_grow dev g file new_size added last_kept =
     fs_bind (allocate_chain dev g added) (\<lambda>(added_first, added_last).
     fs_cleanup
       (fs_bind (fat_flush dev) (\<lambda>_.
        fs_bind (write_fat_entry dev g last_kept added_first) (\<lambda>_.
        fs_bind (fat_flush dev) (\<lambda>_.
        fs_bind (zero_file_range dev g (nd_first_cluster file) (nd_size file) (new_size - nd_size file)) (\<lambda>_.
        fs_bind (write_node_metadata dev file (nd_first_cluster file) new_size) (\<lambda>_.
        fat_flush dev))))))
       (fs_ignore (write_fat_entry dev g last_kept end_of_chain) (free_chain dev g added_first)))"

definition truncate_shrink :: "'d fs_device \<Rightarrow> fat_geometry \<Rightarrow> fat_node \<Rightarrow> u32 \<Rightarrow> u32 \<Rightarrow> ('d fat_volume, unit) fs" where
  "truncate_shrink dev g file new_size last_kept =
     fs_bind (next_cluster dev g last_kept) (\<lambda>tail.
     case tail of
       None \<Rightarrow> fs_fail Fs_corrupt
     | Some c \<Rightarrow>
         fs_bind (write_fat_entry dev g last_kept end_of_chain) (\<lambda>_.
         fs_bind (write_node_metadata dev file (nd_first_cluster file) new_size) (\<lambda>_.
         fs_bind (fat_flush dev) (\<lambda>_.
         free_chain dev g c))))"

definition fat_truncate :: "'d fs_device \<Rightarrow> u32 \<Rightarrow> ('d fat_volume \<times> fat_node, unit) fs" where
  "fat_truncate dev new_size st =
     (let v = fst st; file = snd st; g = fv_geometry v
      in if \<not> fv_mounted v then fs_fail Fs_invalid_argument st
         else if node_directory file then fs_fail Fs_is_directory st
         else if nd_entry_offset file = 0 \<and> new_size \<noteq> nd_size file then fs_fail Fs_invalid_argument st
         else let old_clusters = clusters_for_size g (nd_size file); new_clusters = clusters_for_size g new_size
         in if old_clusters = new_clusters then truncate_same dev g file new_size st
            else if new_clusters = 0 then truncate_empty dev g file st
            else if old_clusters = 0 then truncate_first dev g file new_size new_clusters st
            else fs_bind (on_volume (follow_chain dev g
                           (unat (if old_clusters < new_clusters then old_clusters else new_clusters) - 1) (nd_first_cluster file))) (\<lambda>last_kept.
                 fs_bind (on_volume (if new_clusters > old_clusters
                            then truncate_grow dev g file new_size (new_clusters - old_clusters) last_kept
                            else truncate_shrink dev g file new_size last_kept)) (\<lambda>_.
                 fs_bind (set_node (\<lambda>n. n\<lparr>nd_size := new_size\<rparr>)) (\<lambda>_.
                 on_volume (commit_fs_info dev g)))) st)"

function write_clusters :: "'d fs_device \<Rightarrow> fat_geometry \<Rightarrow> u32 \<Rightarrow> u32 \<Rightarrow> u8 list \<Rightarrow> ('d fat_volume, unit) fs" where
  "write_clusters dev g cluster within input =
     (if input = [] then fs_return ()
      else if gm_bytes_per_cluster g - within = 0 then fs_fail Fs_invalid_format
      else let count = min (length input) (unat (gm_bytes_per_cluster g - within))
           in fs_bind (vol_write dev (cluster_byte_offset g cluster + ucast within) (take count input)) (\<lambda>_.
              if drop count input = [] then fs_return ()
              else fs_bind (next_cluster dev g cluster) (\<lambda>link.
                   case link of None \<Rightarrow> fs_fail Fs_corrupt | Some c \<Rightarrow> write_clusters dev g c 0 (drop count input))))"
  by pat_completeness auto
termination
  by (relation "measure (\<lambda>(dev, g, cluster, within, input). length input)")
    (auto simp: word_neq_0_unat unat_gt_0)

definition fat_write :: "'d fs_device \<Rightarrow> u64 \<Rightarrow> u8 list \<Rightarrow> ('d fat_volume \<times> fat_node, u32) fs" where
  "fat_write dev offset input st =
     (let v = fst st; g = fv_geometry v; sz = of_nat (length input) :: u32
      in if \<not> fv_mounted v \<or> offset > 0xffffffff \<or> ucast sz > 0xffffffff - offset then fs_fail Fs_invalid_argument st
         else if node_directory (snd st) then fs_fail Fs_is_directory st
         else if sz = 0 then fs_return 0 st
         else let end_offset = ucast offset + sz
         in fs_bind (if end_offset > nd_size (snd st) then fat_truncate dev end_offset else fs_return ()) (\<lambda>_.
            fs_bind (fs_get (nd_first_cluster \<circ> snd)) (\<lambda>first.
            fs_bind (on_volume (follow_chain dev g (unat (ucast offset div gm_bytes_per_cluster g)) first)) (\<lambda>cluster.
            fs_bind (on_volume (write_clusters dev g cluster (ucast offset mod gm_bytes_per_cluster g) input)) (\<lambda>_.
            fs_bind (on_volume (fat_flush dev)) (\<lambda>_.
            fs_return sz))))) st)"

subsection \<open>Directory records\<close>

definition split_path_end :: "u8 list \<Rightarrow> u8 list" where
  "split_path_end path = rev (dropWhile (\<lambda>c. c = 0x2f) (rev path))"

definition resolve_parent :: "'d fs_device \<Rightarrow> u8 list \<Rightarrow> ('d fat_volume, fat_node \<times> u8 list) fs" where
  "resolve_parent dev path v =
     (let path1 = split_path_end path; leaf = rev (takeWhile (\<lambda>c. c \<noteq> 0x2f) (rev path1));
          front = take (length path1 - length leaf) path1
      in if \<not> fv_mounted v \<or> length path > name_capacity then fs_fail Fs_invalid_argument v
         else if path1 = [] \<or> leaf = [] \<or> leaf = [0x2e] \<or> leaf = [0x2e, 0x2e] then fs_fail Fs_invalid_argument v
         else if front = [] \<or> front = [0x2f] then fs_return (fat_root (fv_geometry v), leaf) v
         else let parent_path = hd front # split_path_end (tl front)
              in fs_bind (lookup_path dev parent_path) (\<lambda>found.
                 if \<not> node_directory found then fs_fail Fs_not_directory else fs_return (found, leaf)) v)"

definition collision_visitor :: "u8 list \<Rightarrow> bool visitor" where
  "collision_visitor alias collision entry = (let c = (existing_alias (en_short_name entry) = alias) in (c, \<not> c))"

fun try_aliases :: "'d fs_device \<Rightarrow> fat_node \<Rightarrow> u8 list \<Rightarrow> u8 list \<Rightarrow> nat list \<Rightarrow> ('d fat_volume, u8 list) fs" where
  "try_aliases dev directory base extension [] = fs_fail Fs_no_space"
| "try_aliases dev directory base extension (k # ks) =
     (let alias = alias_candidate base extension k
      in fs_bind (for_each dev directory (collision_visitor alias) False) (\<lambda>collision.
         if \<not> collision then fs_return alias else try_aliases dev directory base extension ks))"

definition make_short_alias :: "'d fs_device \<Rightarrow> fat_node \<Rightarrow> u8 list \<Rightarrow> ('d fat_volume, u8 list) fs" where
  "make_short_alias dev directory name = try_aliases dev directory (alias_base name) (alias_extension name) [1..<100]"

text \<open>The slots of one cluster: a true flag means that enough free slots in a row were found.\<close>

fun scan_slots :: "'d fs_device \<Rightarrow> u64 \<Rightarrow> nat \<Rightarrow> nat list \<Rightarrow> u64 list \<Rightarrow> ('d fat_volume, bool \<times> u64 list) fs" where
  "scan_slots dev base needed [] offsets = fs_return (False, offsets)"
| "scan_slots dev base needed (slot # slots) offsets =
     (let offset = base + of_nat slot * 32
      in fs_bind (vol_read dev offset 1) (\<lambda>marker.
         if marker ! 0 = 0 \<or> marker ! 0 = 0xe5
         then if length offsets \<ge> 21 then fs_fail Fs_no_space
              else if length (offsets @ [offset]) = needed then fs_return (True, offsets @ [offset])
              else scan_slots dev base needed slots (offsets @ [offset])
         else scan_slots dev base needed slots []))"

definition extend_directory :: "'d fs_device \<Rightarrow> fat_geometry \<Rightarrow> u32 \<Rightarrow> ('d fat_volume, u32) fs" where
  "extend_directory dev g cluster =
     fs_bind (allocate_cluster dev g) (\<lambda>added.
     fs_bind (fs_cleanup (fs_bind (fat_flush dev) (\<lambda>_. fs_bind (write_fat_entry dev g cluster added) (\<lambda>_. fat_flush dev)))
                (write_fat_entry dev g added 0)) (\<lambda>_.
     fs_return added))"

function free_slots_loop :: "'d fs_device \<Rightarrow> fat_geometry \<Rightarrow> nat \<Rightarrow> u32 \<Rightarrow> u32 \<Rightarrow> u64 list \<Rightarrow> ('d fat_volume, u64 list) fs" where
  "free_slots_loop dev g needed traversed cluster offsets =
     (if \<not> traversed < gm_cluster_count g then fs_fail Fs_loop
      else fs_bind (scan_slots dev (cluster_byte_offset g cluster) needed [0..<unat (gm_bytes_per_cluster g) div 32] offsets) (\<lambda>(found, offsets1).
           if found then fs_return offsets1
           else fs_bind (next_cluster dev g cluster) (\<lambda>link.
                case link of
                  Some c \<Rightarrow> free_slots_loop dev g needed (traversed + 1) c offsets1
                | None \<Rightarrow> fs_bind (extend_directory dev g cluster) (\<lambda>added.
                          free_slots_loop dev g needed (traversed + 1) added offsets1))))"
  by pat_completeness auto
termination
  by (relation "measure (\<lambda>(dev, g, needed, traversed, cluster, offsets). unat (gm_cluster_count g - traversed))")
    (auto intro: counter_decreases)

definition find_free_directory_slots :: "'d fs_device \<Rightarrow> fat_geometry \<Rightarrow> fat_node \<Rightarrow> nat \<Rightarrow> ('d fat_volume, u64 list) fs" where
  "find_free_directory_slots dev g directory needed =
     (if \<not> node_directory directory \<or> needed = 0 \<or> needed > 21 then fs_fail Fs_invalid_argument
      else free_slots_loop dev g needed 0 (nd_first_cluster directory) [])"

fun write_records :: "'d fs_device \<Rightarrow> u64 list \<Rightarrow> u8 list list \<Rightarrow> ('d fat_volume, unit) fs" where
  "write_records dev (offset # offsets) (raw # raws) = fs_bind (vol_write dev offset raw) (\<lambda>_. write_records dev offsets raws)"
| "write_records dev _ _ = fs_return ()"

definition insert_directory_record :: "'d fs_device \<Rightarrow> fat_node \<Rightarrow> u8 list \<Rightarrow> ('d fat_volume \<times> fat_node, unit) fs" where
  "insert_directory_record dev directory name st =
     (let g = fv_geometry (fst st); node = snd st
      in case decode_utf8_name name of
           None \<Rightarrow> fs_fail Fs_invalid_argument st
         | Some utf16 \<Rightarrow>
             fs_bind (on_volume (make_short_alias dev directory name)) (\<lambda>alias.
             let parts = name_parts utf16
             in fs_bind (on_volume (find_free_directory_slots dev g directory (parts + 1))) (\<lambda>offsets.
                fs_bind (on_volume (write_records dev (take parts offsets) (long_entries utf16 (short_checksum alias)))) (\<lambda>_.
                fs_bind (on_volume (fat_flush dev)) (\<lambda>_.
                fs_bind (on_volume (vol_write dev (offsets ! parts)
                          (short_entry alias (nd_attributes node) (nd_first_cluster node) (nd_size node)))) (\<lambda>_.
                fs_bind (set_node (\<lambda>n. n\<lparr>nd_entry_offset := offsets ! parts\<rparr>)) (\<lambda>_.
                on_volume (fat_flush dev))))))) st)"

fun mark_deleted :: "'d fs_device \<Rightarrow> u64 list \<Rightarrow> ('d fat_volume, unit) fs" where
  "mark_deleted dev [] = fs_return ()"
| "mark_deleted dev (offset # offsets) = fs_bind (vol_write dev offset [0xe5]) (\<lambda>_. mark_deleted dev offsets)"

text \<open>The slots of one cluster: a true flag means that the record was found and deleted.\<close>

fun erase_slots :: "'d fs_device \<Rightarrow> u64 \<Rightarrow> u64 \<Rightarrow> nat list \<Rightarrow> u64 list \<Rightarrow> ('d fat_volume, bool \<times> u64 list) fs" where
  "erase_slots dev base entry_offset [] long_offsets = fs_return (False, long_offsets)"
| "erase_slots dev base entry_offset (slot # slots) long_offsets =
     (let offset = base + of_nat slot * 32
      in fs_bind (vol_read dev offset 14) (\<lambda>header.
         if header ! 0 = 0 then fs_fail Fs_not_found
         else if header ! 0 = 0xe5 then erase_slots dev base entry_offset slots []
         else if header ! 11 = attribute_long_name
         then erase_slots dev base entry_offset slots (if length long_offsets \<ge> 20 then [] else long_offsets @ [offset])
         else if offset = entry_offset
         then fs_bind (mark_deleted dev long_offsets) (\<lambda>_. fs_bind (vol_write dev offset [0xe5]) (\<lambda>_. fs_return (True, [])))
         else erase_slots dev base entry_offset slots []))"

function erase_loop :: "'d fs_device \<Rightarrow> fat_geometry \<Rightarrow> u64 \<Rightarrow> u32 \<Rightarrow> u32 \<Rightarrow> u64 list \<Rightarrow> ('d fat_volume, unit) fs" where
  "erase_loop dev g entry_offset traversed cluster long_offsets =
     (if \<not> traversed < gm_cluster_count g then fs_fail Fs_loop
      else fs_bind (erase_slots dev (cluster_byte_offset g cluster) entry_offset [0..<unat (gm_bytes_per_cluster g) div 32] long_offsets)
             (\<lambda>(erased, longs).
                if erased then fs_return ()
                else fs_bind (next_cluster dev g cluster) (\<lambda>link.
                     case link of None \<Rightarrow> fs_fail Fs_not_found | Some c \<Rightarrow> erase_loop dev g entry_offset (traversed + 1) c longs)))"
  by pat_completeness auto
termination
  by (relation "measure (\<lambda>(dev, g, entry_offset, traversed, cluster, long_offsets). unat (gm_cluster_count g - traversed))")
    (auto intro: counter_decreases)

definition erase_directory_record :: "'d fs_device \<Rightarrow> fat_geometry \<Rightarrow> fat_node \<Rightarrow> u64 \<Rightarrow> ('d fat_volume, unit) fs" where
  "erase_directory_record dev g directory entry_offset =
     (if \<not> node_directory directory \<or> entry_offset = 0 then fs_fail Fs_invalid_argument
      else erase_loop dev g entry_offset 0 (nd_first_cluster directory) [])"

subsection \<open>Operations on paths\<close>

text \<open>Check that nothing is found where a new record shall go.\<close>

definition require_absent :: "'d fs_device \<Rightarrow> fat_node \<Rightarrow> u8 list \<Rightarrow> ('d fat_volume, unit) fs" where
  "require_absent dev directory name =
     fs_try (fat_lookup dev directory name) (\<lambda>r.
       case r of Inr _ \<Rightarrow> fs_fail Fs_already_exists | Inl e \<Rightarrow> if e = Fs_not_found then fs_return () else fs_fail e)"

text \<open>Run an operation on a node that is local to the caller, and give the node with the outcome.\<close>

definition with_node :: "fat_node \<Rightarrow> ('d fat_volume \<times> fat_node, 'a) fs \<Rightarrow> ('d fat_volume, fat_node \<times> (fs_error + 'a)) fs" where
  "with_node node m v = (case m (v, node) of ((v1, node1), r) \<Rightarrow> (v1, Inr (node1, r)))"

definition fs_outcome :: "fs_error + 'a \<Rightarrow> ('s, 'a) fs" where
  "fs_outcome r = (case r of Inl e \<Rightarrow> fs_fail e | Inr x \<Rightarrow> fs_return x)"

definition fat_create :: "'d fs_device \<Rightarrow> u8 list \<Rightarrow> u8 list \<Rightarrow> ('d fat_volume, unit) fs" where
  "fat_create dev path input v =
     (let g = fv_geometry v
      in fs_bind (resolve_parent dev path) (\<lambda>(parent, leaf).
         fs_bind (require_absent dev parent leaf) (\<lambda>_.
         fs_bind (with_node \<lparr>nd_first_cluster = 0, nd_size = 0, nd_type = Fat_file, nd_attributes = 0x20, nd_entry_offset = 0\<rparr>
                    (insert_directory_record dev parent leaf)) (\<lambda>(file, inserted).
         fs_bind (fs_outcome inserted) (\<lambda>_.
         if input = [] then fs_return ()
         else fs_bind (with_node file (fat_write dev 0 input)) (\<lambda>(file1, written).
              case written of
                Inr _ \<Rightarrow> fs_return ()
              | Inl e \<Rightarrow> fs_ignore (erase_directory_record dev g parent (nd_entry_offset file1))
                          (fs_ignore (if nd_first_cluster file1 \<noteq> 0 then free_chain dev g (nd_first_cluster file1) else fs_return ())
                          (fs_fail e))))))) v)"

definition nonempty_visitor :: "bool visitor" where
  "nonempty_visitor nonempty entry =
     (if \<not> name_equals (en_name entry) [0x2e] False \<and> \<not> name_equals (en_name entry) [0x2e, 0x2e] False
      then (True, False) else (nonempty, True))"

definition fat_remove :: "'d fs_device \<Rightarrow> u8 list \<Rightarrow> ('d fat_volume, unit) fs" where
  "fat_remove dev path v =
     (let g = fv_geometry v
      in fs_bind (resolve_parent dev path) (\<lambda>(parent, leaf).
         fs_bind (fat_lookup dev parent leaf) (\<lambda>found.
         fs_bind (if node_directory found
                  then fs_bind (for_each dev found nonempty_visitor False) (\<lambda>nonempty.
                       if nonempty then fs_fail Fs_unsupported else fs_return ())
                  else fs_return ()) (\<lambda>_.
         fs_bind (erase_directory_record dev g parent (nd_entry_offset found)) (\<lambda>_.
         fs_bind (fat_flush dev) (\<lambda>_.
         fs_bind (free_chain dev g (nd_first_cluster found)) (\<lambda>_.
         commit_fs_info dev g)))))) v)"

definition fat_move :: "'d fs_device \<Rightarrow> u8 list \<Rightarrow> u8 list \<Rightarrow> ('d fat_volume, unit) fs" where
  "fat_move dev source destination v =
     (let g = fv_geometry v
      in fs_bind (resolve_parent dev source) (\<lambda>(source_parent, source_leaf).
         fs_bind (resolve_parent dev destination) (\<lambda>(destination_parent, destination_leaf).
         fs_bind (fat_lookup dev source_parent source_leaf) (\<lambda>source_node.
         fs_bind (require_absent dev destination_parent destination_leaf) (\<lambda>_.
         fs_bind (with_node (source_node\<lparr>nd_entry_offset := 0\<rparr>) (insert_directory_record dev destination_parent destination_leaf))
           (\<lambda>(replacement, inserted).
         fs_bind (fs_outcome inserted) (\<lambda>_.
         fs_bind (erase_directory_record dev g source_parent (nd_entry_offset source_node)) (\<lambda>_.
         fat_flush dev))))))) v)"

function copy_sectors :: "'d fs_device \<Rightarrow> fat_geometry \<Rightarrow> fat_node \<Rightarrow> u32 \<Rightarrow> u32 \<Rightarrow> u32 \<Rightarrow> ('d fat_volume \<times> fat_node, unit) fs" where
  "copy_sectors dev g source_node dst_size src_size copied =
     (if \<not> copied < src_size then fs_return ()
      else if gm_bytes_per_sector g = 0 then fs_fail Fs_invalid_format
      else let count = (if src_size - copied < gm_bytes_per_sector g then src_size - copied else gm_bytes_per_sector g)
           in fs_bind (on_volume (fs_bind (fat_read dev source_node (ucast copied) count) (\<lambda>bytes.
                fs_bind (fs_modify (fill_sector bytes)) (\<lambda>_. fs_return bytes)))) (\<lambda>loaded.
              if of_nat (length loaded) \<noteq> count then fs_fail Fs_io
              else fs_bind (fs_get (\<lambda>st. take (unat count) (fv_sector (fst st)))) (\<lambda>bytes.
                   fs_bind (fat_write dev (ucast (dst_size + copied)) bytes) (\<lambda>stored.
                   if stored \<noteq> count then fs_fail Fs_io
                   else copy_sectors dev g source_node dst_size src_size (copied + count)))))"
  by pat_completeness auto
termination
  by (relation "measure (\<lambda>(dev, g, source_node, dst_size, src_size, copied). unat (src_size - copied))")
    (auto simp: diff_diff_add [symmetric] not_less unat_gt_0 simp del: diff_diff_add intro!: part_decreases)

definition fat_concatenate :: "'d fs_device \<Rightarrow> u8 list \<Rightarrow> u8 list \<Rightarrow> ('d fat_volume, unit) fs" where
  "fat_concatenate dev destination source v =
     (let g = fv_geometry v
      in fs_try (lookup_path dev destination) (\<lambda>d.
         fs_try (lookup_path dev source) (\<lambda>s.
         fs_bind (fs_outcome d) (\<lambda>destination_node.
         fs_bind (fs_outcome s) (\<lambda>source_node.
         if node_directory destination_node \<or> node_directory source_node then fs_fail Fs_is_directory
         else if nd_size source_node > 0xffffffff - nd_size destination_node then fs_fail Fs_no_space
         else let dst_size = nd_size destination_node; src_size = nd_size source_node
              in fs_bind (with_node destination_node
                   (fs_bind (fat_truncate dev (dst_size + src_size)) (\<lambda>_.
                    copy_sectors dev g source_node dst_size src_size 0))) (\<lambda>(node, r). fs_outcome r))))) v)"

end
