(* ===== verification/Spec2Isabelle.thy ===== *)
theory Spec2Isabelle
  imports Prelude Base Ring_Buffer Handle_Table Pipe Signal Pty Process_Table Snapshot_Arena Path Runtime
    Ethernet Tcp_Segment Interface Net_Timing Socket_Table Tcp_Table Tcp_Stack Tcp_Queue Tcp_Sender Tcp_Stream
    Memory_Arena Trap_Scheduler Scatter_Write Sector_Reader Filesystem Fat32_Names Fat32 Fat32_Write
begin

text \<open>
  A verification of the data structures and protocols of the MikOS kernel, a small freestanding C++ kernel
  for 32-bit RISC-V. File names below are relative to \<^verbatim>\<open>src/\<close>.

  \<^bold>\<open>The program and its parts.\<close> The system calls (\<^verbatim>\<open>kernel/syscall.cpp\<close>) work on fixed tables: processes, pipes,
  pseudo-terminals and sockets. Pipes and pseudo-terminals store their bytes in ring buffers; the process table decides who
  runs, with the signal state of each process beside it, and the images of parked processes lie in the snapshot
  arena. The network stack moves bytes between the socket table and Ethernet frames. Files are read and written
  through a file system over the sector reader, which gives a byte view of a sector device. Kernel objects are
  allocated in the memory arena.

  \<^bold>\<open>How the code is modelled.\<close> Machine integers are words of their width, so that wrap-around is kept. A class
  with fixed arrays is a record or a list of records whose length is the template argument; a pointer into a
  table is an index, and an assignment through it is \<open>upd_nth\<close>. An operation takes the state and returns the new state
  with the status and the values it hands out; every early return is a branch. Loops are recursive functions
  with termination proofs. What a template or a platform hook leaves open is a parameter: the sector device, the storage of a
  file system, the network driver and the clock, the writer of a gathering write.

  \<^bold>\<open>Shared theories.\<close>
  \<^item> \<open>Prelude\<close>: word types, list and word lemmas, and the locale \<open>step_system\<close>: an invariant kept by every step holds
    after every run. It is interpreted for the memory arena and the socket table.
  \<^item> \<open>Base\<close>: \<^verbatim>\<open>include/mikos/base.hpp\<close>, user ranges and alignment.
  \<^item> \<open>Ring_Buffer\<close>: \<^verbatim>\<open>include/mikos/io/ring_buffer.hpp\<close>. The locale \<open>byte_fifo\<close> is the contract of a bounded
    byte queue; its interpretation \<open>ring\<close> shows that the circular buffer implements it, and pipes and
    pseudo-terminals use the facts of \<open>ring\<close> only.
  \<^item> \<open>Handle_Table\<close>: the locale \<open>handle_table\<close>, lookup by slot and generation, interpreted for pipes and
    pseudo-terminals.

  \<^bold>\<open>Processes and their communication\<close> (\<^verbatim>\<open>include/mikos/process/\<close>).
  \<^item> \<open>Pipe\<close> (\<^verbatim>\<open>pipe.hpp\<close>): the reachable tables are well formed; what is read is what was written, in order; short writes
    are atomic; polling agrees with reading; handles of released pipes stay dead.
  \<^item> \<open>Signal\<close> (\<^verbatim>\<open>signal.hpp\<close>): the pending signals are delivered in order, and SIGKILL and SIGSTOP are never caught or
    blocked. The drain takes one step of fuel per signal; 65 steps are enough for the 64 signals.
  \<^item> \<open>Pty\<close> (\<^verbatim>\<open>pty.hpp\<close>): well-formedness, the output discipline (line feeds), the input discipline (signal characters,
    flushing, echo), how a terminal leaves its session, and polling.
  \<^item> \<open>Process_Table\<close> (\<^verbatim>\<open>model.hpp\<close>): the class invariant over every run, fork numbering, wait and exit, the
    vfork handshake, and the fairness of the scheduler choice. Two runs at the end show wake-ups that are missing.
  \<^item> \<open>Snapshot_Arena\<close> (\<^verbatim>\<open>snapshot_arena.hpp\<close>): blocks never overlap, releases are checked exactly, and nothing is lost.

  \<^bold>\<open>Kernel support.\<close>
  \<^item> \<open>Path\<close> (\<^verbatim>\<open>kernel/path.hpp\<close>): canonicalization computes the resolution of the names one by one, and is idempotent; the
    device number parser.
  \<^item> \<open>Runtime\<close> (\<^verbatim>\<open>kernel/runtime.cpp\<close>): the memory functions over a byte memory and the 64-bit division.
  \<^item> \<open>Memory_Arena\<close> (\<^verbatim>\<open>include/mikos/memory/\<close>): the block arena with its headers, and reservations.
  \<^item> \<open>Trap_Scheduler\<close> (\<^verbatim>\<open>include/mikos/scheduler.hpp\<close>) and \<open>Scatter_Write\<close> (\<^verbatim>\<open>include/mikos/io/scatter_write.hpp\<close>).

  \<^bold>\<open>Network.\<close>
  \<^item> \<open>Ethernet\<close> (\<^verbatim>\<open>include/mikos/net/ethernet.hpp\<close>): the locale \<open>header_codec\<close>, a fixed-size header that is written and
    read back, interpreted for each header; the checksum; the ARP and ICMP replies.
  \<^item> \<open>Tcp_Segment\<close>, \<open>Interface\<close>, \<open>Net_Timing\<close>, \<open>Tcp_Table\<close> (\<^verbatim>\<open>tcp.hpp\<close>, \<^verbatim>\<open>interface.hpp\<close>, \<^verbatim>\<open>timing.hpp\<close>,
    \<^verbatim>\<open>tcp_table.hpp\<close> beside it): option parsing, the interface requests, deadlines on the wrapping clock, and the text table.
  \<^item> \<open>Socket_Table\<close> (\<^verbatim>\<open>include/mikos/net/socket.hpp\<close>): the table invariant and the receiving side: what a connection
    delivers is a prefix of what the peer sent, under every order, overlap and repetition of segments.
  \<^item> \<open>Tcp_Stack\<close> holds the definitions of \<^verbatim>\<open>network/stack.cpp\<close>. \<open>Tcp_Queue\<close>, \<open>Tcp_Sender\<close> and \<open>Tcp_Stream\<close> show that the segments
    it builds are parsed back, that every operation keeps the transmission queue consistent, and that over a run the
    queue holds exactly the unacknowledged part of the stream, within the windows.

  \<^bold>\<open>Files.\<close>
  \<^item> \<open>Sector_Reader\<close> (\<^verbatim>\<open>drivers/storage/sector_reader.hpp\<close>): a refinement of a flat image of bytes, and a bound on the
    transfers.
  \<^item> \<open>Filesystem\<close> (\<^verbatim>\<open>drivers/fs/filesystem.hpp\<close>): errors, names, little-endian fields; a fallible operation is a function of
    the state with an error or a value.
  \<^item> \<open>Fat32_Names\<close>, \<open>Fat32\<close>, \<open>Fat32_Write\<close> (\<^verbatim>\<open>drivers/fs/fat32/fat32.hpp\<close>): the driver. The long name entries are proved to be
    read back, with three gaps; mounting, lookup, reading and the changing operations are definitions whose
    loops are proved to terminate, bounded by the 32-bit cluster counters of the code, without further theorems.

  \<^bold>\<open>Not modelled.\<close> The ext4 driver (\<^verbatim>\<open>drivers/fs/ext4/ext4.hpp\<close>), a second disk format of the same size as FAT32, and the
  root file system, which forwards to it. The system call layer, which copies between user
  memory and these tables, and the pseudo file system, which prints their state. Boot and console (\<^verbatim>\<open>kernel/main.cpp\<close>),
  trap entry and timer code, device drivers and the C++ runtime hooks, which act on hardware registers. Structures
  and container names without behaviour.
\<close>

end
